(* ===== verification/Prelude.thy ===== *)
theory Prelude
  imports Main "HOL-Library.Word" "HOL-Library.Multiset"
begin

text \<open>
  What the components share: the C integer types as words, C strings as character lists
  (the characters before the terminating NUL), 32-bit signed wrap-around on \<open>int\<close>,
  the kernel's \<open>panic\<close> as the error half of a sum, array segments, the
  \<open>named_theorems\<close> collections the component proofs use, and the locales for runs of step relations.
\<close>

section \<open>Collections\<close>

named_theorems inv_intros \<open>invariant preservation facts\<close>

section \<open>C data\<close>

type_synonym u32 = "32 word"
type_synonym u8 = "8 word"

abbreviation NUL :: char where
  "NUL \<equiv> CHR 0x00"

abbreviation newline :: char where
  "newline \<equiv> CHR 0x0A"

text \<open>The C string held by a byte buffer: everything before the first NUL.\<close>

definition cstr :: "string \<Rightarrow> string" where
  "cstr s = takeWhile (\<lambda>c. c \<noteq> NUL) s"

lemma cstr_no_NUL [simp]: "NUL \<notin> set s \<Longrightarrow> cstr s = s"
  by (auto simp: cstr_def takeWhile_eq_all_conv)

lemma cstr_append_NUL: "NUL \<notin> set s \<Longrightarrow> cstr (s @ NUL # t) = s"
  by (simp add: cstr_def takeWhile_append)

lemma NUL_notin_cstr [simp]: "NUL \<notin> set (cstr s)"
  by (auto simp: cstr_def dest: set_takeWhileD)

text \<open>Two's complement reading of an \<open>int\<close> result that may have overflowed 32 bits.\<close>

definition wrap32 :: "int \<Rightarrow> int" where
  "wrap32 x = signed_take_bit 31 x"

definition in_int32 :: "int \<Rightarrow> bool" where
  "in_int32 x \<longleftrightarrow> - (2 ^ 31) \<le> x \<and> x < 2 ^ 31"

lemma wrap32_in_range: "in_int32 x \<Longrightarrow> wrap32 x = x"
  unfolding wrap32_def in_int32_def
  by (intro signed_take_bit_int_eq_self) auto

lemma wrap32_bounds: "in_int32 (wrap32 x)"
  using signed_take_bit_int_greater_eq_minus_exp [of 31 x]
    signed_take_bit_int_less_exp [of 31 x]
  by (simp add: wrap32_def in_int32_def)

lemma wrap32_diff_wrap32: "wrap32 (wrap32 x - y) = wrap32 (x - y)"
  by (metis signed_take_bit_diff signed_take_bit_signed_take_bit min.idem wrap32_def)

text \<open>Characters stored as bytes.\<close>

lemma char_of_u8 [simp]: "char_of (unat (of_char c :: u8)) = c"
proof -
  have "(of_char c :: u8) = of_nat (of_char c)" by (simp only: of_nat_of_char)
  moreover have "(of_char c :: nat) < 2 ^ LENGTH(8)" using of_char_of [of 0] by simp
  ultimately show ?thesis by (simp only: unat_of_nat take_bit_nat_eq_self) simp
qed

section \<open>Panics\<close>

text \<open>The kernel's \<open>panic(msg)\<close> never returns: an operation that may panic has type
  \<open>'a kres\<close>, with the message on the left.\<close>

datatype panic = Panic string

type_synonym 'a kres = "panic + 'a"

definition kbind :: "'a kres \<Rightarrow> ('a \<Rightarrow> 'b kres) \<Rightarrow> 'b kres" where
  "kbind m f = (case m of Inl e \<Rightarrow> Inl e | Inr x \<Rightarrow> f x)"

lemma kbind_simps [simp]:
  "kbind (Inl e) f = Inl e"
  "kbind (Inr x) f = f x"
  by (simp_all add: kbind_def)

lemma kbind_Inr_iff: "kbind m f = Inr y \<longleftrightarrow> (\<exists>x. m = Inr x \<and> f x = Inr y)"
  by (cases m) auto

section \<open>Array segments\<close>

text \<open>The segment \<open>xs[i..<j]\<close>.\<close>

definition seg :: "'a list \<Rightarrow> nat \<Rightarrow> nat \<Rightarrow> 'a list" where
  "seg xs i j = take (j - i) (drop i xs)"

lemma length_seg [simp]: "j \<le> length xs \<Longrightarrow> length (seg xs i j) = j - i"
  by (simp add: seg_def)

lemma seg_nth: "i + k < j \<Longrightarrow> j \<le> length xs \<Longrightarrow> seg xs i j ! k = xs ! (i + k)"
  by (simp add: seg_def)

lemma seg_empty [simp]: "j \<le> i \<Longrightarrow> seg xs i j = []"
  by (simp add: seg_def)

lemma seg_Cons: "i < j \<Longrightarrow> j \<le> length xs \<Longrightarrow> seg xs i j = xs ! i # seg xs (Suc i) j"
  by (simp add: seg_def Cons_nth_drop_Suc [symmetric] take_Cons' Suc_diff_Suc)

lemma seg_snoc: "i \<le> j \<Longrightarrow> j < length xs \<Longrightarrow> seg xs i (Suc j) = seg xs i j @ [xs ! j]"
  by (simp add: seg_def Suc_diff_le take_Suc_conv_app_nth)

lemma seg_append:
  assumes "i \<le> j" "j \<le> k"
  shows "seg xs i j @ seg xs j k = seg xs i k"
proof -
  have k: "k - i = (j - i) + (k - j)" and j: "drop j xs = drop (j - i) (drop i xs)"
    using assms by auto
  show ?thesis unfolding seg_def k take_add j by simp
qed

lemma seg_whole [simp]: "seg xs 0 (length xs) = xs"
  by (simp add: seg_def)

lemma seg_eqI:
  "j \<le> length xs \<Longrightarrow> length ys = length xs \<Longrightarrow> (\<And>k. i \<le> k \<Longrightarrow> k < j \<Longrightarrow> ys ! k = xs ! k)
   \<Longrightarrow> seg ys i j = seg xs i j"
  by (rule nth_equalityI) (auto simp: seg_nth)

lemma set_seg:
  assumes "j \<le> length xs"
  shows "set (seg xs i j) = (\<lambda>k. xs ! k) ` {i..<j}"
proof -
  have "seg xs i j = map (\<lambda>k. xs ! k) [i..<j]"
    using assms by (intro nth_equalityI) (auto simp: seg_nth)
  then show ?thesis by simp
qed

lemma seg_update_outside: "k < i \<or> j \<le> k \<Longrightarrow> j \<le> length xs \<Longrightarrow> seg (xs[k := v]) i j = seg xs i j"
  by (rule seg_eqI) auto

text \<open>An array splits at a segment.\<close>

lemma drop_split_seg: "i \<le> j \<Longrightarrow> drop i xs = seg xs i j @ drop j xs"
  by (metis append_take_drop_id drop_drop le_add_diff_inverse2 seg_def)

lemma list_split_seg:
  "i \<le> j \<Longrightarrow> j \<le> length xs \<Longrightarrow> xs = take i xs @ seg xs i j @ drop j xs"
  by (metis append_take_drop_id drop_drop le_add_diff_inverse2 seg_def)

section \<open>Decimal text\<close>

text \<open>\<open>strtol(s, .., 10)\<close> of the C library (white space, a sign, digits, saturating at 64 bits), \<open>atoi\<close>, its
  conversion to \<open>int\<close>, and the text that \<open>%d\<close> prints.\<close>

definition c_isspace :: "char \<Rightarrow> bool" where
  "c_isspace c \<longleftrightarrow> c \<in> set [CHR '' '', CHR 0x09, CHR 0x0A, CHR 0x0B, CHR 0x0C, CHR 0x0D]"

definition c_isdigit :: "char \<Rightarrow> bool" where
  "c_isdigit c \<longleftrightarrow> (48::nat) \<le> of_char c \<and> of_char c \<le> (57::nat)"

fun digits_value :: "int \<Rightarrow> string \<Rightarrow> int" where
  "digits_value n [] = n"
| "digits_value n (c # cs) = (if c_isdigit c then digits_value (n * 10 + (of_char c - 48)) cs else n)"

definition c_strtol :: "string \<Rightarrow> int" where
  "c_strtol s =
     (let t = dropWhile c_isspace s;
          neg = (t \<noteq> [] \<and> hd t = CHR ''-'');
          u = (if t \<noteq> [] \<and> (hd t = CHR ''-'' \<or> hd t = CHR ''+'') then tl t else t);
          v = (if neg then - digits_value 0 u else digits_value 0 u)
      in max (- (2 ^ 63)) (min (2 ^ 63 - 1) v))"

definition c_atoi :: "string \<Rightarrow> int" where
  "c_atoi s = wrap32 (c_strtol s)"

fun show_nat :: "nat \<Rightarrow> string" where
  "show_nat n = (if n < 10 then [char_of (48 + n)] else show_nat (n div 10) @ [char_of (48 + n mod 10)])"

declare show_nat.simps [simp del]

definition show_int :: "int \<Rightarrow> string" where
  "show_int x = (if x < 0 then CHR ''-'' # show_nat (nat (- x)) else show_nat (nat x))"

section \<open>Runs\<close>

text \<open>The contract of a relation that says which states the runs of a component reach: the starting states, closed
  under the steps, and nothing else. A property of the starting states that every step keeps holds of every
  reached state, also when the step keeps it only in states already known to satisfy another invariant.\<close>

locale step_system =
  fixes starts :: "'s \<Rightarrow> bool"
    and steps :: "'s \<Rightarrow> 's \<Rightarrow> bool"
    and reached :: "'s \<Rightarrow> bool"
  assumes reached_start: "starts s \<Longrightarrow> reached s"
    and reached_step: "reached s \<Longrightarrow> steps s t \<Longrightarrow> reached t"
    and reached_least: "reached s \<Longrightarrow> (\<And>s. starts s \<Longrightarrow> Q s) \<Longrightarrow> (\<And>s t. steps s t \<Longrightarrow> Q s \<Longrightarrow> Q t) \<Longrightarrow> Q s"
begin

lemma invariant_under:
  assumes "reached s" "\<And>s. reached s \<Longrightarrow> J s" "\<And>s. starts s \<Longrightarrow> Q s"
    "\<And>s t. steps s t \<Longrightarrow> J s \<Longrightarrow> Q s \<Longrightarrow> Q t"
  shows "Q s"
  using reached_least [OF assms(1), of "\<lambda>s. reached s \<and> Q s"] assms(2-4) reached_start reached_step by blast

lemma reached_run:
  assumes "steps\<^sup>*\<^sup>* s t" "reached s"
  shows "reached t"
  using assms by (induction rule: rtranclp_induct) (auto intro: reached_step)

lemma reached_iff_run: "reached s \<longleftrightarrow> (\<exists>s0. starts s0 \<and> steps\<^sup>*\<^sup>* s0 s)"
proof
  assume "reached s"
  then show "\<exists>s0. starts s0 \<and> steps\<^sup>*\<^sup>* s0 s"
    by (rule reached_least) (blast intro: rtranclp.rtrancl_into_rtrancl)+
qed (blast intro: reached_start reached_run)

end

text \<open>A resource that one thread has at a time: \<open>holds s i\<close> says that thread \<open>i\<close> has it, and the invariant leaves
  room for one holder.\<close>

locale exclusive = step_system starts steps reached
  for starts :: "'s \<Rightarrow> bool" and steps :: "'s \<Rightarrow> 's \<Rightarrow> bool" and reached :: "'s \<Rightarrow> bool" +
  fixes holds :: "'s \<Rightarrow> 'i \<Rightarrow> bool"
    and guarded :: "'s \<Rightarrow> bool"
  assumes start_guarded: "starts s \<Longrightarrow> guarded s"
    and step_guarded: "steps s t \<Longrightarrow> guarded s \<Longrightarrow> guarded t"
    and one_holder: "guarded s \<Longrightarrow> holds s i \<Longrightarrow> holds s j \<Longrightarrow> i = j"
begin

lemma always_guarded: "reached s \<Longrightarrow> guarded s"
  by (erule reached_least) (rule start_guarded step_guarded; assumption)+

lemma at_most_one: "reached s \<Longrightarrow> holds s i \<Longrightarrow> holds s j \<Longrightarrow> i = j"
  by (blast dest: always_guarded one_holder)

end

section \<open>Overwriting\<close>

text \<open>A file as a function from offsets to bytes, with the bytes \<open>xs\<close> written from offset \<open>ofs\<close> on.\<close>

definition overwrite :: "(nat \<Rightarrow> 'a) \<Rightarrow> nat \<Rightarrow> 'a list \<Rightarrow> nat \<Rightarrow> 'a" where
  "overwrite f ofs xs p = (if ofs \<le> p \<and> p < ofs + length xs then xs ! (p - ofs) else f p)"

lemma overwrite_append: "overwrite (overwrite f ofs xs) (ofs + length xs) ys = overwrite f ofs (xs @ ys)"
  by (auto simp: overwrite_def fun_eq_iff nth_append)

lemma overwrite_Nil [simp]: "overwrite f ofs [] = f"
  by (rule ext) (auto simp: overwrite_def)

lemma map_overwrite: "map (overwrite f ofs xs) [ofs..<ofs + length xs] = xs"
  by (rule nth_equalityI) (simp_all add: overwrite_def)

end
