(* ===== verification/Grep.thy ===== *)
theory Grep
  imports Prelude
begin

text \<open>
  The \<open>grep\<close> user program (Assignment5/xv6-public/grep.c): the regular expression matcher
  \<open>match\<close>, \<open>matchhere\<close>, \<open>matchstar\<close> and the buffered line loop \<open>grep\<close>.
  A \<open>char*\<close> argument is the list of characters before its NUL, so \<open>re[0] == '\0'\<close> is
  \<open>re = []\<close> and \<open>re[1] == '*'\<close> asks for a second character that is a star.
\<close>

section \<open>The matcher\<close>

function matchhere :: "string \<Rightarrow> string \<Rightarrow> bool"
  and matchstar :: "char \<Rightarrow> string \<Rightarrow> string \<Rightarrow> bool"
where
  "matchhere re text =
     (case re of
        [] \<Rightarrow> True
      | c # re1 \<Rightarrow>
          if re1 \<noteq> [] \<and> hd re1 = CHR ''*'' then matchstar c (tl re1) text
          else if c = CHR ''$'' \<and> re1 = [] then text = []
          else (case text of
                  [] \<Rightarrow> False
                | t # text1 \<Rightarrow>
                    if c = CHR ''.'' \<or> c = t then matchhere re1 text1 else False))"
| "matchstar c re text =
     (if matchhere re text then True
      else (case text of
              [] \<Rightarrow> False
            | t # text1 \<Rightarrow> if t = c \<or> c = CHR ''.'' then matchstar c re text1 else False))"
  by pat_completeness auto
termination
  by (relation "measure (\<lambda>x. case x of
        Inl (re, text) \<Rightarrow> 2 * (length re + length text)
      | Inr (c, re, text) \<Rightarrow> 2 * (length re + length text) + 1)")
    (auto simp: neq_Nil_conv)

declare matchhere.simps [simp del] matchstar.simps [simp del]

text \<open>The search loop of \<open>match\<close> tries every suffix, the empty one included.\<close>

fun match_from :: "string \<Rightarrow> string \<Rightarrow> bool" where
  "match_from re [] = matchhere re []"
| "match_from re (t # text) = (if matchhere re (t # text) then True else match_from re text)"

definition match :: "string \<Rightarrow> string \<Rightarrow> bool" where
  "match re text =
     (case re of
        [] \<Rightarrow> match_from re text
      | c # re1 \<Rightarrow> if c = CHR ''^'' then matchhere re1 text else match_from re text)"

section \<open>What a pattern means\<close>

text \<open>
  The pattern language by itself: a sequence of items, each a character class or its
  repetition, with an optional end-of-text anchor. \<open>items_lang\<close> is the set of texts an item
  sequence stands for.
\<close>

datatype item = One char | Star char

definition in_class :: "char \<Rightarrow> char \<Rightarrow> bool" where
  "in_class c t \<longleftrightarrow> c = CHR ''.'' \<or> c = t"

fun items :: "string \<Rightarrow> item list" where
  "items [] = []"
| "items [c] = (if c = CHR ''$'' then [] else [One c])"
| "items (c # d # re) = (if d = CHR ''*'' then Star c # items re else One c # items (d # re))"

fun anchored_end :: "string \<Rightarrow> bool" where
  "anchored_end [] = False"
| "anchored_end [c] = (c = CHR ''$'')"
| "anchored_end (c # d # re) = (if d = CHR ''*'' then anchored_end re else anchored_end (d # re))"

fun items_lang :: "item list \<Rightarrow> string set" where
  "items_lang [] = {[]}"
| "items_lang (One c # is) = {t # u | t u. in_class c t \<and> u \<in> items_lang is}"
| "items_lang (Star c # is) = {v @ u | v u. (\<forall>t \<in> set v. in_class c t) \<and> u \<in> items_lang is}"

definition matches_prefix :: "string \<Rightarrow> string \<Rightarrow> bool" where
  "matches_prefix re text \<longleftrightarrow>
     (\<exists>u v. text = u @ v \<and> u \<in> items_lang (items re) \<and> (anchored_end re \<longrightarrow> v = []))"

lemma items_simps:
  "items (c # CHR ''*'' # re) = Star c # items re"
  "re = [] \<or> hd re \<noteq> CHR ''*'' \<Longrightarrow> \<not> (c = CHR ''$'' \<and> re = []) \<Longrightarrow> items (c # re) = One c # items re"
  by (cases re; simp)+

lemma anchored_end_simps:
  "anchored_end (c # CHR ''*'' # re) = anchored_end re"
  "re = [] \<or> hd re \<noteq> CHR ''*'' \<Longrightarrow> \<not> (c = CHR ''$'' \<and> re = []) \<Longrightarrow> anchored_end (c # re) = anchored_end re"
  by (cases re; simp)+

lemma matches_prefixI:
  "s = u @ v \<Longrightarrow> u \<in> items_lang (items re) \<Longrightarrow> (anchored_end re \<Longrightarrow> v = []) \<Longrightarrow> matches_prefix re s"
  unfolding matches_prefix_def by blast

lemma matches_prefixE:
  assumes "matches_prefix re s"
  obtains u v where "s = u @ v" "u \<in> items_lang (items re)" "anchored_end re \<longrightarrow> v = []"
  using assms unfolding matches_prefix_def by blast

lemma star_langI: "\<forall>t \<in> set v. in_class c t \<Longrightarrow> u \<in> items_lang is \<Longrightarrow> v @ u \<in> items_lang (Star c # is)"
  by auto

lemma matches_prefix_Nil [simp]: "matches_prefix [] s"
  by (simp add: matches_prefix_def)

lemma matches_prefix_dollar [simp]: "matches_prefix [CHR ''$''] s \<longleftrightarrow> s = []"
  by (simp add: matches_prefix_def)

lemma matches_prefix_star:
  "matches_prefix (c # CHR ''*'' # re) s \<longleftrightarrow>
     matches_prefix re s \<or>
     (\<exists>t s1. s = t # s1 \<and> in_class c t \<and> matches_prefix (c # CHR ''*'' # re) s1)"
  (is "?L s \<longleftrightarrow> ?R")
proof
  assume "?L s"
  then obtain v u w where *: "s = (v @ u) @ w" "\<forall>t \<in> set v. in_class c t"
      "u \<in> items_lang (items re)" "anchored_end re \<longrightarrow> w = []"
    by (elim matches_prefixE) (force simp: items_simps anchored_end_simps)
  show ?R
  proof (cases v)
    case Nil
    with * show ?thesis by (auto intro: matches_prefixI)
  next
    case (Cons t v')
    with * have "?L ((v' @ u) @ w)"
      by (intro matches_prefixI [of _ "v' @ u" w])
        (auto simp: items_simps anchored_end_simps intro: star_langI)
    with * Cons show ?thesis by auto
  qed
next
  assume ?R
  then show "?L s"
  proof
    assume "matches_prefix re s"
    then obtain u w where "s = u @ w" "[] @ u \<in> items_lang (Star c # items re)"
        "anchored_end re \<longrightarrow> w = []"
      using star_langI [of "[]"] by (elim matches_prefixE) auto
    then show ?thesis
      by (intro matches_prefixI [of _ u w]) (auto simp: items_simps(1) anchored_end_simps(1))
  next
    assume "\<exists>t s1. s = t # s1 \<and> in_class c t \<and> ?L s1"
    then obtain t s1 where s: "s = t # s1" "in_class c t" and "?L s1" by blast
    then obtain v u w where *: "s1 = (v @ u) @ w" "\<forall>t \<in> set v. in_class c t"
        "u \<in> items_lang (items re)" "anchored_end re \<longrightarrow> w = []"
      by (elim matches_prefixE) (force simp: items_simps anchored_end_simps)
    have "(t # v) @ u \<in> items_lang (items (c # CHR ''*'' # re))"
      unfolding items_simps(1) using * s by (intro star_langI) auto
    with * s show ?thesis
      by (intro matches_prefixI [of _ "(t # v) @ u" w]) (auto simp: anchored_end_simps(1))
  qed
qed

lemma matches_prefix_one:
  assumes "re = [] \<or> hd re \<noteq> CHR ''*''" "\<not> (c = CHR ''$'' \<and> re = [])"
  shows "matches_prefix (c # re) s \<longleftrightarrow>
     (\<exists>t s1. s = t # s1 \<and> in_class c t \<and> matches_prefix re s1)"
    (is "?L \<longleftrightarrow> ?R")
proof
  assume ?L
  then show ?R
    unfolding matches_prefix_def items_simps(2) [OF assms] anchored_end_simps(2) [OF assms] by force
next
  assume ?R
  then obtain t u v where "s = (t # u) @ v" "in_class c t" "u \<in> items_lang (items re)"
      "anchored_end re \<longrightarrow> v = []"
    unfolding matches_prefix_def by auto
  then show ?L
    by (intro matches_prefixI [of _ "t # u" v])
      (auto simp: items_simps(2) [OF assms] anchored_end_simps(2) [OF assms])
qed

lemma match_functions_spec:
  "matchhere re s \<longleftrightarrow> matches_prefix re s"
  "matchstar c re2 s2 \<longleftrightarrow> matches_prefix (c # CHR ''*'' # re2) s2"
proof (induction re s and c re2 s2 rule: matchhere_matchstar.induct)
  case (1 re s)
  show ?case
  proof (cases re)
    case Nil
    then show ?thesis by (simp add: matchhere.simps)
  next
    case (Cons c re1)
    consider (star) re2 where "re1 = CHR ''*'' # re2"
      | (eol) "c = CHR ''$''" "re1 = []"
      | (one) "re1 = [] \<or> hd re1 \<noteq> CHR ''*''" "\<not> (c = CHR ''$'' \<and> re1 = [])"
      by (cases re1) auto
    then show ?thesis
    proof cases
      case star
      with "1.IH"(1) [OF Cons] Cons show ?thesis
        using matchhere.simps [of "c # CHR ''*'' # re2" s] by simp
    next
      case eol
      with Cons show ?thesis using matchhere.simps [of "[CHR ''$'']" s] by simp
    next
      case one
      have "matchhere re s \<longleftrightarrow>
          (\<exists>t s1. s = t # s1 \<and> in_class c t \<and> matchhere re1 s1)"
        using one unfolding Cons
        by (subst matchhere.simps) (auto simp: in_class_def split: list.splits)
      also have "\<dots> \<longleftrightarrow> (\<exists>t s1. s = t # s1 \<and> in_class c t \<and> matches_prefix re1 s1)"
        using "1.IH"(2) [OF Cons] one by (auto simp: in_class_def)
      also have "\<dots> \<longleftrightarrow> matches_prefix re s"
        using one Cons by (simp add: matches_prefix_one)
      finally show ?thesis .
    qed
  qed
next
  case (2 c re s)
  show ?case
  proof (cases s)
    case Nil
    with "2.IH"(1) show ?thesis by (subst matchstar.simps, subst matches_prefix_star) simp
  next
    case (Cons t s1)
    have "matchstar c re s \<longleftrightarrow> matches_prefix re s \<or> in_class c t \<and> matchstar c re s1"
      using "2.IH"(1) Cons by (subst matchstar.simps) (auto simp: in_class_def)
    also have "\<dots> \<longleftrightarrow> matches_prefix re s \<or> in_class c t \<and> matches_prefix (c # CHR ''*'' # re) s1"
      using "2.IH" Cons by (auto simp: in_class_def)
    also have "\<dots> \<longleftrightarrow> matches_prefix (c # CHR ''*'' # re) s"
      using Cons by (subst (2) matches_prefix_star) simp
    finally show ?thesis .
  qed
qed

section \<open>The whole text\<close>

lemma match_from_iff: "match_from re s \<longleftrightarrow> (\<exists>w s1. s = w @ s1 \<and> matches_prefix re s1)"
proof (induction re s rule: match_from.induct)
  case (1 re)
  then show ?case by (simp add: match_functions_spec)
next
  case (2 re t s)
  then show ?case
    by (auto simp: match_functions_spec Cons_eq_append_conv)
qed

section \<open>The line loop\<close>

text \<open>
  The buffer holds \<open>m\<close> bytes followed by a NUL. \<open>strchr_nl\<close> is \<open>strchr(p, '\n')\<close> on the bytes from
  \<open>p\<close>: it stops at the first NUL. \<open>grep_lines\<close> is the inner \<open>while\<close>: it returns what was written to
  descriptor 1 and the bytes left from the final \<open>p\<close> on.
\<close>

fun strchr_nl :: "string \<Rightarrow> nat option" where
  "strchr_nl [] = None"
| "strchr_nl (x # xs) =
     (if x = NUL then None else if x = newline then Some 0 else map_option Suc (strchr_nl xs))"

lemma strchr_nl_bound: "strchr_nl s = Some i \<Longrightarrow> i < length s"
  by (induction s arbitrary: i) (auto split: if_splits)

function grep_lines :: "string \<Rightarrow> string \<Rightarrow> string \<times> string" where
  "grep_lines pattern p =
     (case strchr_nl p of
        None \<Rightarrow> ([], p)
      | Some i \<Rightarrow>
          (let line = take i p;
               (out, left) = grep_lines pattern (drop (Suc i) p)
           in ((if match pattern line then line @ [newline] else []) @ out, left)))"
  by pat_completeness auto
termination
  by (relation "measure (\<lambda>(pattern, p). length p)") (auto dest: strchr_nl_bound)

declare grep_lines.simps [simp del]

text \<open>
  The outer loop over the results of \<open>read(fd, buf+m, sizeof(buf)-m-1)\<close>, given as the list of the
  chunks read; an empty chunk or the end of the list is a result \<open>n <= 0\<close>. \<open>p == buf\<close> after the inner
  loop means that no newline was found: the code then drops the buffer (\<open>m = 0\<close>).
\<close>

fun grep_loop :: "string \<Rightarrow> string \<Rightarrow> string list \<Rightarrow> string" where
  "grep_loop pattern buf [] = []"
| "grep_loop pattern buf (chunk # rs) =
     (if chunk = [] then []
      else (let b = buf @ chunk;
                (out, left) = grep_lines pattern b;
                buf' = (if length left = length b then [] else left)
            in out @ grep_loop pattern buf' rs))"

definition grep :: "string \<Rightarrow> string list \<Rightarrow> string" where
  "grep pattern reads = grep_loop pattern [] reads"

text \<open>\<open>main\<close>: the texts written to each descriptor, in order. \<open>open_file\<close> stands for \<open>open\<close> and the reads
  of the opened descriptor.\<close>

fun grep_files :: "(string \<Rightarrow> string list option) \<Rightarrow> string \<Rightarrow> string list \<Rightarrow> (nat \<times> string) list" where
  "grep_files open_file pattern [] = []"
| "grep_files open_file pattern (f # fs) =
     (case open_file f of
        None \<Rightarrow> [(1, ''grep: cannot open '' @ f @ [newline])]
      | Some reads \<Rightarrow> (1, grep pattern reads) # grep_files open_file pattern fs)"

definition grep_main :: "(string \<Rightarrow> string list option) \<Rightarrow> string list \<Rightarrow> string list \<Rightarrow> (nat \<times> string) list" where
  "grep_main open_file stdin argv =
     (case argv of
        [] \<Rightarrow> [(2, ''usage: grep pattern [file ...]'' @ [newline])]
      | [_] \<Rightarrow> [(2, ''usage: grep pattern [file ...]'' @ [newline])]
      | [_, pattern] \<Rightarrow> [(1, grep pattern stdin)]
      | _ # pattern # files \<Rightarrow> grep_files open_file pattern files)"

text \<open>The complete lines of a text (each ended by a newline), and what is left after the last one.\<close>

fun split_lines :: "string \<Rightarrow> string list \<times> string" where
  "split_lines [] = ([], [])"
| "split_lines (x # xs) =
     (let (ls, left) = split_lines xs
      in if x = newline then ([] # ls, left)
         else (case ls of [] \<Rightarrow> ([], x # left) | l # ls' \<Rightarrow> ((x # l) # ls', left)))"

definition selected :: "string \<Rightarrow> string list \<Rightarrow> string" where
  "selected pattern ls = concat (map (\<lambda>l. l @ [newline]) (filter (match pattern) ls))"

lemma selected_simps [simp]:
  "selected pattern [] = []"
  "selected pattern (l # ls) = (if match pattern l then l @ [newline] else []) @ selected pattern ls"
  "selected pattern (ls @ ls') = selected pattern ls @ selected pattern ls'"
  by (simp_all add: selected_def)

lemma strchr_nl_None: "NUL \<notin> set s \<Longrightarrow> strchr_nl s = None \<longleftrightarrow> newline \<notin> set s"
  by (induction s) auto

lemma strchr_nl_Some:
  "NUL \<notin> set s \<Longrightarrow> strchr_nl s = Some i \<Longrightarrow>
     s = take i s @ newline # drop (Suc i) s \<and> newline \<notin> set (take i s)"
  by (induction s arbitrary: i) (auto split: if_splits)

lemma split_lines_none: "newline \<notin> set s \<Longrightarrow> split_lines s = ([], s)"
  by (induction s) auto

lemma split_lines_line:
  "newline \<notin> set l \<Longrightarrow>
     split_lines (l @ newline # s) = (l # fst (split_lines s), snd (split_lines s))"
  by (induction l) (auto simp: case_prod_beta)

lemma split_lines_append:
  "split_lines (s @ t) =
     (fst (split_lines s) @ fst (split_lines (snd (split_lines s) @ t)),
      snd (split_lines (snd (split_lines s) @ t)))"
proof (induction s)
  case Nil
  then show ?case by simp
next
  case (Cons x s)
  show ?case
  proof (cases "fst (split_lines s)")
    case Nil
    then show ?thesis
      using Cons by (cases "split_lines (snd (split_lines s) @ t)") (auto simp: case_prod_beta split: list.splits)
  next
    case (Cons l ls)
    with Cons.IH show ?thesis by (auto simp: case_prod_beta)
  qed
qed

lemma split_lines_left_no_newline: "newline \<notin> set (snd (split_lines s))"
  by (induction s) (auto simp: case_prod_beta split: list.splits)

lemma split_lines_left_subset: "set (snd (split_lines s)) \<subseteq> set s"
  by (induction s) (auto simp: case_prod_beta split: list.splits)

lemma split_lines_left_length:
  "length (snd (split_lines s)) \<le> length s"
  "newline \<in> set s \<Longrightarrow> length (snd (split_lines s)) < length s"
  by (induction s) (auto simp: case_prod_beta less_Suc_eq_le split: list.splits)

lemma grep_lines_split:
  "NUL \<notin> set p \<Longrightarrow> grep_lines pattern p = (selected pattern (fst (split_lines p)), snd (split_lines p))"
proof (induction pattern p rule: grep_lines.induct)
  case (1 pattern p)
  show ?case
  proof (cases "strchr_nl p")
    case None
    with 1 have "newline \<notin> set p" by (simp add: strchr_nl_None)
    with None show ?thesis by (simp add: grep_lines.simps [of pattern p] split_lines_none)
  next
    case (Some i)
    define l r where "l = take i p" and "r = drop (Suc i) p"
    with strchr_nl_Some [OF "1.prems" Some] have p: "p = l @ newline # r" and l: "newline \<notin> set l"
      by auto
    have "NUL \<notin> set r" using "1.prems" p by auto
    with "1.IH" [OF Some] have "grep_lines pattern r = (selected pattern (fst (split_lines r)), snd (split_lines r))"
      by (simp add: r_def)
    then have "grep_lines pattern p =
        ((if match pattern l then l @ [newline] else []) @ selected pattern (fst (split_lines r)),
         snd (split_lines r))"
      by (subst grep_lines.simps) (simp add: Some flip: l_def r_def)
    then show ?thesis using l by (simp add: p split_lines_line)
  qed
qed

lemma grep_loop_selects:
  assumes "NUL \<notin> set buf" "newline \<notin> set buf"
    and "\<forall>chunk \<in> set reads. NUL \<notin> set chunk \<and> newline \<in> set chunk"
  shows "grep_loop pattern buf reads = selected pattern (fst (split_lines (buf @ concat reads)))"
  using assms
proof (induction reads arbitrary: buf)
  case Nil
  then show ?case by (simp add: split_lines_none)
next
  case (Cons chunk rs)
  let ?b = "buf @ chunk"
  let ?left = "snd (split_lines ?b)"
  have chunk: "NUL \<notin> set ?b" "newline \<in> set ?b" "chunk \<noteq> []"
    using Cons.prems by auto
  have left: "NUL \<notin> set ?left" "newline \<notin> set ?left"
    using chunk(1) split_lines_left_subset [of ?b] split_lines_left_no_newline [of ?b] by auto
  have len: "length ?left \<noteq> length ?b"
    using split_lines_left_length(2) [OF chunk(2)] by simp
  have "grep_lines pattern ?b = (selected pattern (fst (split_lines ?b)), ?left)"
    using chunk(1) by (rule grep_lines_split)
  with len chunk(3) have "grep_loop pattern buf (chunk # rs) =
      selected pattern (fst (split_lines ?b)) @ grep_loop pattern ?left rs"
    by (simp only: grep_loop.simps Let_def if_False prod.case)
  also have "grep_loop pattern ?left rs = selected pattern (fst (split_lines (?left @ concat rs)))"
    using Cons left by simp
  finally show ?case
    using split_lines_append [of ?b "concat rs"] by simp
qed

section \<open>Properties\<close>

text \<open>C21. The matcher of grep.c decides its pattern language: with a leading \<open>^\<close> the rest of the pattern
  must match a prefix of the text, otherwise it must match at some position of the text, where a
  character class, \<open>.\<close>, \<open>c*\<close> and a final \<open>$\<close> mean what \<open>items_lang\<close> and \<open>anchored_end\<close> say.\<close>

theorem match_spec:
  "match re s \<longleftrightarrow>
     (if re \<noteq> [] \<and> hd re = CHR ''^'' then matches_prefix (tl re) s
      else (\<exists>w s1. s = w @ s1 \<and> matches_prefix re s1))"
  by (cases re) (simp_all add: match_def match_from_iff match_functions_spec)

text \<open>C39. The output of grep is exactly the complete lines of the input that match, each with its newline
  and in order, however \<open>read\<close> splits the input into chunks, as long as every chunk holds a newline.\<close>

theorem grep_selects_lines:
  assumes "\<forall>chunk \<in> set reads. NUL \<notin> set chunk \<and> newline \<in> set chunk"
  shows "grep pattern reads = selected pattern (fst (split_lines (concat reads)))"
  unfolding grep_def using grep_loop_selects [of "[]" reads pattern] assms by simp

theorem grep_selects_lines_witness:
  "grep ''a.*'' [''xx'' @ [newline] @ ''ca'', ''b'' @ [newline] @ ''d''] =
     selected ''a.*'' [''xx'', ''cab'']"
proof -
  have "grep ''a.*'' [''xx'' @ [newline] @ ''ca'', ''b'' @ [newline] @ ''d''] =
      selected ''a.*'' (fst (split_lines (concat [''xx'' @ [newline] @ ''ca'', ''b'' @ [newline] @ ''d''])))"
    by (rule grep_selects_lines) simp
  then show ?thesis by simp
qed

text \<open>A chunk without a newline is dropped: a matching line that \<open>read\<close> delivers in two pieces is
  lost, although the text as a whole contains it.\<close>

theorem grep_drops_split_line:
  "grep ''ab'' [''abc'', ''d'' @ [newline]] = [] \<and>
   grep ''ab'' [''abcd'' @ [newline]] = ''abcd'' @ [newline]"
  by code_simp

end
