(* ===== verification/Ulib.thy ===== *)
theory Ulib
  imports Prelude
begin

text \<open>
  The user library of Assignment5/xv6-public/ulib.c over an explicit byte memory
  (\<open>mem\<close>: addresses are naturals). A loop that runs until it meets a NUL may run forever,
  so the string routines are \<open>partial_function (option)\<close> with \<open>None\<close> for not returning;
  \<open>str_at m s xs\<close> says that the C string at address \<open>s\<close> is \<open>xs\<close>.
\<close>

section \<open>Memory and C strings\<close>

type_synonym mem = "nat \<Rightarrow> char"

definition str_at :: "mem \<Rightarrow> nat \<Rightarrow> string \<Rightarrow> bool" where
  "str_at m s xs \<longleftrightarrow>
     NUL \<notin> set xs \<and> (\<forall>i < length xs. m (s + i) = xs ! i) \<and> m (s + length xs) = NUL"

lemma str_at_Nil [simp]: "str_at m s [] \<longleftrightarrow> m s = NUL"
  by (simp add: str_at_def)

lemma str_at_Cons [simp]:
  "str_at m s (x # xs) \<longleftrightarrow> m s = x \<and> x \<noteq> NUL \<and> str_at m (Suc s) xs"
  by (auto simp: str_at_def All_less_Suc2)

lemma str_at_unique: "str_at m s xs \<Longrightarrow> str_at m s ys \<Longrightarrow> xs = ys"
proof (induction xs arbitrary: s ys)
  case Nil
  then show ?case by (cases ys) auto
next
  case (Cons x xs)
  then show ?case by (cases ys) auto
qed

section \<open>The routines\<close>

partial_function (option) strcpy_loop :: "mem \<Rightarrow> nat \<Rightarrow> nat \<Rightarrow> mem option" where
  "strcpy_loop m s t =
     (let c = m t; m' = m(s := c) in if c \<noteq> NUL then strcpy_loop m' (s + 1) (t + 1) else Some m')"

definition strcpy :: "mem \<Rightarrow> nat \<Rightarrow> nat \<Rightarrow> (mem \<times> nat) option" where
  "strcpy m s t = map_option (\<lambda>m'. (m', s)) (strcpy_loop m s t)"

partial_function (option) strcmp :: "mem \<Rightarrow> nat \<Rightarrow> nat \<Rightarrow> int option" where
  "strcmp m p q =
     (if m p \<noteq> NUL \<and> m p = m q then strcmp m (p + 1) (q + 1)
      else Some (of_char (m p) - of_char (m q)))"

partial_function (option) strlen_loop :: "mem \<Rightarrow> nat \<Rightarrow> nat \<Rightarrow> nat option" where
  "strlen_loop m s n = (if m (s + n) \<noteq> NUL then strlen_loop m s (n + 1) else Some n)"

definition strlen :: "mem \<Rightarrow> nat \<Rightarrow> nat option" where
  "strlen m s = strlen_loop m s 0"

text \<open>\<open>memset\<close> is \<open>rep stosb\<close>: it stores \<open>c\<close> into \<open>n\<close> bytes, upwards.\<close>

fun stosb :: "mem \<Rightarrow> nat \<Rightarrow> char \<Rightarrow> nat \<Rightarrow> mem" where
  "stosb m addr c 0 = m"
| "stosb m addr c (Suc cnt) = stosb (m(addr := c)) (addr + 1) c cnt"

definition memset :: "mem \<Rightarrow> nat \<Rightarrow> char \<Rightarrow> nat \<Rightarrow> mem \<times> nat" where
  "memset m dst c n = (stosb m dst c n, dst)"

text \<open>\<open>Some None\<close> is the null pointer.\<close>

partial_function (option) strchr :: "mem \<Rightarrow> nat \<Rightarrow> char \<Rightarrow> nat option option" where
  "strchr m s c =
     (if m s \<noteq> NUL then (if m s = c then Some (Some s) else strchr m (s + 1) c) else Some None)"

text \<open>\<open>gets\<close> reads one byte at a time from descriptor 0; \<open>input\<close> holds the bytes still to be delivered and
  a \<open>read\<close> at its end returns 0. It returns the memory and the unread input.\<close>

fun gets_loop :: "mem \<Rightarrow> nat \<Rightarrow> int \<Rightarrow> nat \<Rightarrow> string \<Rightarrow> mem \<times> nat \<times> string" where
  "gets_loop m buf mx i [] = (m, i, [])"
| "gets_loop m buf mx i (c # input) =
     (if int i + 1 < mx then
        (let m' = m(buf + i := c); i' = i + 1
         in if c = newline \<or> c = CHR 0x0D then (m', i', input) else gets_loop m' buf mx i' input)
      else (m, i, c # input))"

definition gets :: "mem \<Rightarrow> nat \<Rightarrow> int \<Rightarrow> string \<Rightarrow> mem \<times> nat \<times> string" where
  "gets m buf mx input =
     (let (m', i, rest) = gets_loop m buf mx 0 input in (m'(buf + i := NUL), buf, rest))"

definition is_digit :: "char \<Rightarrow> bool" where
  "is_digit c \<longleftrightarrow> (48::nat) \<le> of_char c \<and> of_char c \<le> (57::nat)"

text \<open>\<open>int\<close> arithmetic of \<open>atoi\<close>, wrapping at 32 bits.\<close>

partial_function (option) atoi_loop :: "mem \<Rightarrow> nat \<Rightarrow> u32 \<Rightarrow> u32 option" where
  "atoi_loop m s n =
     (if is_digit (m s) then atoi_loop m (s + 1) (n * 10 + of_char (m s) - 48) else Some n)"

definition atoi :: "mem \<Rightarrow> nat \<Rightarrow> u32 option" where
  "atoi m s = atoi_loop m s 0"

function memmove_loop :: "mem \<Rightarrow> nat \<Rightarrow> nat \<Rightarrow> int \<Rightarrow> mem" where
  "memmove_loop m dst src n =
     (if n > 0 then memmove_loop (m(dst := m src)) (dst + 1) (src + 1) (n - 1) else m)"
  by pat_completeness auto
termination
  by (relation "measure (\<lambda>(m, dst, src, n). nat n)") auto

declare memmove_loop.simps [simp del]

definition memmove :: "mem \<Rightarrow> nat \<Rightarrow> nat \<Rightarrow> int \<Rightarrow> mem \<times> nat" where
  "memmove m vdst vsrc n = (memmove_loop m vdst vsrc n, vdst)"

text \<open>\<open>stat\<close>: \<open>open\<close>, \<open>fstat\<close> and \<open>close\<close> are system calls, given by the descriptor and the result they
  return; the second component is the list of descriptors closed.\<close>

definition stat :: "(string \<Rightarrow> int) \<Rightarrow> (int \<Rightarrow> int \<times> 'st) \<Rightarrow> string \<Rightarrow> int \<times> 'st option \<times> int list" where
  "stat open_rdonly fstat n =
     (let fd = open_rdonly n
      in if fd < 0 then (- 1, None, [])
         else (let (r, st) = fstat fd in (r, Some st, [fd])))"

section \<open>Their results\<close>

lemma strlen_loop_result: "str_at m (s + n) xs \<Longrightarrow> strlen_loop m s n = Some (n + length xs)"
proof (induction xs arbitrary: n)
  case Nil
  then show ?case by (subst strlen_loop.simps) simp
next
  case (Cons x xs)
  then have "strlen_loop m s (n + 1) = Some (n + 1 + length xs)" by simp
  with Cons.prems show ?case by (subst strlen_loop.simps) simp
qed

lemma strlen_result: "str_at m s xs \<Longrightarrow> strlen m s = Some (length xs)"
  using strlen_loop_result [of m s 0 xs] by (simp add: strlen_def)

text \<open>The comparison on the strings themselves.\<close>

fun cmp_strings :: "string \<Rightarrow> string \<Rightarrow> int" where
  "cmp_strings [] [] = 0"
| "cmp_strings [] (q # qs) = - of_char q"
| "cmp_strings (p # ps) [] = of_char p"
| "cmp_strings (p # ps) (q # qs) = (if p = q then cmp_strings ps qs else of_char p - of_char q)"

lemma strcmp_result: "str_at m p ps \<Longrightarrow> str_at m q qs \<Longrightarrow> strcmp m p q = Some (cmp_strings ps qs)"
proof (induction ps qs arbitrary: p q rule: cmp_strings.induct)
  case (4 x xs y ys)
  show ?case
  proof (cases "x = y")
    case True
    with 4 have "strcmp m (p + 1) (q + 1) = Some (cmp_strings xs ys)" by simp
    with 4 True show ?thesis by (subst strcmp.simps) simp
  next
    case False
    with 4 show ?thesis by (subst strcmp.simps) auto
  qed
qed (subst strcmp.simps, simp)+

lemma cmp_strings_zero: "NUL \<notin> set ps \<Longrightarrow> NUL \<notin> set qs \<Longrightarrow> cmp_strings ps qs = 0 \<longleftrightarrow> ps = qs"
proof (induction ps qs rule: cmp_strings.induct)
  case (2 q qs)
  then have "(of_char q :: int) \<noteq> of_char NUL" by (metis list.set_intros(1) of_char_eq_iff)
  then show ?case by simp
next
  case (3 p ps)
  then have "(of_char p :: int) \<noteq> of_char NUL" by (metis list.set_intros(1) of_char_eq_iff)
  then show ?case by simp
qed auto

lemma strchr_result:
  "str_at m s xs \<Longrightarrow>
     strchr m s c =
       Some (if c \<in> set xs then Some (s + length (takeWhile (\<lambda>x. x \<noteq> c) xs)) else None)"
proof (induction xs arbitrary: s)
  case Nil
  then show ?case by (subst strchr.simps) simp
next
  case (Cons x xs)
  then show ?case by (subst strchr.simps) auto
qed

lemma stosb_result:
  "stosb m addr c n a = (if addr \<le> a \<and> a < addr + n then c else m a)"
  by (induction m addr c n rule: stosb.induct) (auto simp: fun_upd_def)

lemma memmove_loop_result:
  "dst \<le> src \<or> src + nat n \<le> dst \<Longrightarrow>
     memmove_loop m dst src n =
       (\<lambda>a. if dst \<le> a \<and> a < dst + nat n then m (src + (a - dst)) else m a)"
proof (induction m dst src n rule: memmove_loop.induct)
  case (1 m dst src n)
  show ?case
  proof (cases "n > 0")
    case True
    then have "memmove_loop m dst src n = memmove_loop (m(dst := m src)) (dst + 1) (src + 1) (n - 1)"
      by (simp add: memmove_loop.simps [of m dst src n])
    also have "\<dots> = (\<lambda>a. if dst + 1 \<le> a \<and> a < dst + 1 + nat (n - 1)
        then (m(dst := m src)) (src + 1 + (a - (dst + 1))) else (m(dst := m src)) a)"
      using "1.prems" by (intro "1.IH" True) (use True in auto)
    moreover have "\<And>a. dst < a \<Longrightarrow> src + 1 + (a - (dst + 1)) = src + (a - dst)" by simp
    ultimately show ?thesis
      using True "1.prems" by (auto simp: fun_eq_iff nat_diff_distrib le_less_Suc_eq Suc_le_eq not_less Suc_diff_Suc)
  next
    case False
    then show ?thesis by (auto simp: memmove_loop.simps [of m dst src n] fun_eq_iff)
  qed
qed

lemma strcpy_loop_result:
  assumes "str_at m t xs" "s \<le> t \<or> t + length xs < s"
  shows "strcpy_loop m s t =
    Some (\<lambda>a. if s \<le> a \<and> a \<le> s + length xs then m (t + (a - s)) else m a)"
  using assms
proof (induction xs arbitrary: m s t)
  case Nil
  then show ?case by (subst strcpy_loop.simps) (auto simp: fun_eq_iff)
next
  case (Cons x xs)
  let ?m = "m(s := m t)"
  have "\<And>i. i \<le> length xs \<Longrightarrow> ?m (Suc t + i) = m (Suc t + i)"
    using Cons.prems by auto
  moreover have "str_at m (Suc t) xs" using Cons.prems by simp
  ultimately have "str_at ?m (Suc t) xs" by (auto simp: str_at_def)
  then have "strcpy_loop ?m (Suc s) (Suc t) =
      Some (\<lambda>a. if Suc s \<le> a \<and> a \<le> Suc s + length xs then ?m (Suc t + (a - Suc s)) else ?m a)"
    by (rule Cons.IH) (use Cons.prems in auto)
  moreover have "strcpy_loop m s t = strcpy_loop ?m (Suc s) (Suc t)"
    using Cons.prems by (subst strcpy_loop.simps) auto
  ultimately show ?case
    using Cons.prems by (auto simp: fun_eq_iff Suc_le_eq le_less not_less Suc_diff_Suc)
qed

lemma strcpy_copies:
  assumes "str_at m t xs" "s \<le> t \<or> t + length xs < s"
  shows "\<exists>m'. strcpy m s t = Some (m', s) \<and> str_at m' s xs \<and>
    (\<forall>a. a < s \<or> s + length xs < a \<longrightarrow> m' a = m a)"
  using assms by (auto simp: strcpy_def strcpy_loop_result str_at_def)

text \<open>The value of a decimal string, in unbounded arithmetic.\<close>

definition digit_val :: "char \<Rightarrow> nat" where
  "digit_val c = of_char c - 48"

fun dec_val :: "nat \<Rightarrow> string \<Rightarrow> nat" where
  "dec_val n [] = n"
| "dec_val n (c # cs) = dec_val (n * 10 + digit_val c) cs"

lemma of_char_word: "is_digit c \<Longrightarrow> (of_char c :: u32) = of_nat (digit_val c) + 48"
  using of_nat_diff [of 48 "of_char c", where ?'a = u32]
  by (simp add: is_digit_def digit_val_def of_nat_of_char)

lemma atoi_loop_result:
  assumes "\<forall>c \<in> set ds. is_digit c" "\<forall>i < length ds. m (s + i) = ds ! i"
    "\<not> is_digit (m (s + length ds))"
  shows "atoi_loop m s (of_nat n) = Some (of_nat (dec_val n ds))"
  using assms
proof (induction ds arbitrary: s n)
  case Nil
  then show ?case by (subst atoi_loop.simps) simp
next
  case (Cons d ds)
  have d: "m s = d" "is_digit d" and ds: "\<forall>i < length ds. m (Suc s + i) = ds ! i"
    using Cons.prems by (auto simp: All_less_Suc2)
  have n: "(of_nat n * 10 + of_char d - 48 :: u32) = of_nat (n * 10 + digit_val d)"
    unfolding of_char_word [OF d(2)] by (simp add: algebra_simps)
  have "atoi_loop m s (of_nat n) = atoi_loop m (Suc s) (of_nat (n * 10 + digit_val d))"
    using d(2) by (subst atoi_loop.simps) (simp only: d(1) n if_True Suc_eq_plus1)
  also have "\<dots> = Some (of_nat (dec_val (n * 10 + digit_val d) ds))"
    using Cons.prems ds by (intro Cons.IH) auto
  finally show ?case by simp
qed

text \<open>The loop of \<open>gets\<close> writes only below its limit, and keeps what it has read.\<close>

lemma gets_loop_frame:
  assumes "gets_loop m buf mx i input = (m', i', rest)"
  shows "i \<le> i' \<and> (int i + 1 \<le> mx \<longrightarrow> int i' + 1 \<le> mx) \<and>
    input = map (\<lambda>k. m' (buf + k)) [i..<i'] @ rest \<and>
    (\<forall>a. a < buf + i \<or> buf + i' \<le> a \<longrightarrow> m' a = m a)"
  using assms
proof (induction m buf mx i input arbitrary: m' i' rest rule: gets_loop.induct)
  case (1 m buf mx i)
  then show ?case by simp
next
  case (2 m buf mx i c input)
  show ?case
  proof (cases "int i + 1 < mx \<and> c \<noteq> newline \<and> c \<noteq> CHR 0x0D")
    case True
    then have "gets_loop (m(buf + i := c)) buf mx (i + 1) input = (m', i', rest)"
      using "2.prems" by (simp add: Let_def)
    from "2.IH" [OF _ refl refl _ this] True
    have IH: "Suc i \<le> i'" "int i' + 1 \<le> mx" "input = map (\<lambda>k. m' (buf + k)) [Suc i..<i'] @ rest"
      "\<forall>a. a < buf + Suc i \<or> buf + i' \<le> a \<longrightarrow> m' a = (m(buf + i := c)) a"
      by auto
    have "m' (buf + i) = c" using IH(4) by auto
    with IH(1,3) have "c # input = map (\<lambda>k. m' (buf + k)) [i..<i'] @ rest"
      by (simp add: upt_conv_Cons)
    with IH show ?thesis by auto
  next
    case False
    with "2.prems" show ?thesis by (auto simp: Let_def split: if_splits)
  qed
qed

section \<open>Properties\<close>

text \<open>\<open>memmove\<close> copies the old source bytes into the destination and changes nothing else, when the
  destination does not start inside the source.\<close>

theorem memmove_copies:
  assumes "dst \<le> src \<or> src + nat n \<le> dst"
  shows "memmove m dst src n =
    ((\<lambda>a. if dst \<le> a \<and> a < dst + nat n then m (src + (a - dst)) else m a), dst)"
  using memmove_loop_result [OF assms] by (simp add: memmove_def)

theorem memmove_copies_witness:
  "memmove (\<lambda>a. char_of a) 5 6 3 = ((\<lambda>a. if 5 \<le> a \<and> a < 5 + nat 3 then char_of (6 + (a - 5)) else char_of a), 5)"
  by (rule memmove_copies) simp

text \<open>When the destination does start inside the source, \<open>memmove\<close> is not the memmove of the C
  library: copying upwards overwrites source bytes before they are read.\<close>

theorem memmove_overlap_clobbers:
  "fst (memmove (\<lambda>a. char_of a) 11 10 2) 12 = char_of (10 :: nat) \<and>
   char_of (10 :: nat) \<noteq> (char_of (11 :: nat) :: char)"
  by (simp add: memmove_def memmove_loop.simps char_of_eq_iff)

text \<open>\<open>gets\<close> with a buffer of at least one byte writes only inside the buffer, always leaves a NUL
  after the bytes it consumed, and consumes a prefix of the input.\<close>

theorem gets_bounded:
  assumes "1 \<le> mx" "gets m buf mx input = (m', p, rest)"
  shows "p = buf \<and> (\<exists>k. int k < mx \<and> input = map (\<lambda>i. m' (buf + i)) [0..<k] @ rest \<and>
    m' (buf + k) = NUL \<and> (\<forall>a. a < buf \<or> int buf + mx \<le> int a \<longrightarrow> m' a = m a))"
proof -
  obtain m1 i r where l0: "gets_loop m buf mx 0 input = (m1, i, r)"
    by (rule prod_cases3)
  with assms(2) have l: "gets_loop m buf mx 0 input = (m1, i, rest)" "m' = m1(buf + i := NUL)" "p = buf"
    by (auto simp: gets_def)
  note f = gets_loop_frame [OF l(1)]
  have "map (\<lambda>k. m' (buf + k)) [0..<i] = map (\<lambda>k. m1 (buf + k)) [0..<i]" using l(2) by simp
  with f assms(1) l show ?thesis by (intro conjI exI [of _ i]) auto
qed

theorem gets_bounded_witness:
  "snd (snd (gets (\<lambda>_. CHR ''z'') 3 3 ''abcd'')) = ''cd'' \<and>
   fst (gets (\<lambda>_. CHR ''z'') 3 3 ''abcd'') 6 = CHR ''z''"
proof -
  obtain m' where g: "gets (\<lambda>_. CHR ''z'') 3 3 ''abcd'' = (m', 3, ''cd'')"
    by (simp add: gets_def)
  from gets_bounded [OF _ g] have "\<forall>a. a < 3 \<or> (3::int) + 3 \<le> int a \<longrightarrow> m' a = CHR ''z''" by auto
  then have "m' 6 = CHR ''z''" by simp
  with g show ?thesis by simp
qed

end
