(* ===== verification/Printf.thy ===== *)
theory Printf
  imports Ulib
begin

text \<open>
  The user-level \<open>printf\<close> of Assignment5/xv6-public/printf.c. \<open>putc\<close> writes one byte, so the output
  is the list of the bytes written to the descriptor; the variadic arguments are the stack words above
  the format, given as a function of their index; \<open>%s\<close> reads the memory. \<open>None\<close> is a write outside
  \<open>buf[16]\<close>, a division by zero, a digit index outside the table or a string that never ends.
\<close>

section \<open>printint\<close>

definition digit_chars :: string where
  "digit_chars = ''0123456789ABCDEF'' @ [NUL]"

fun digits_loop :: "nat \<Rightarrow> u32 \<Rightarrow> u32 \<Rightarrow> string \<Rightarrow> string option" where
  "digits_loop 0 x base buf = None"
| "digits_loop (Suc slots) x base buf =
     (if base = 0 \<or> length digit_chars \<le> unat (x mod base) then None
      else (let buf' = buf @ [digit_chars ! unat (x mod base)]; x' = x div base
            in if x' \<noteq> 0 then digits_loop slots x' base buf' else Some buf'))"

text \<open>The digits are stored least significant first; the sign needs one more of the 16 slots; the final
  loop writes the buffer backwards.\<close>

definition printint :: "u32 \<Rightarrow> u32 \<Rightarrow> bool \<Rightarrow> string option" where
  "printint xx base signd =
     (let neg = (signd \<and> sint xx < 0);
          x = (if neg then - xx else xx)
      in Option.bind (digits_loop 16 x base [])
           (\<lambda>buf. if neg then (if length buf < 16 then Some (rev (buf @ [CHR ''-''])) else None)
                  else Some (rev buf)))"

section \<open>printf\<close>

partial_function (option) put_string :: "mem \<Rightarrow> nat \<Rightarrow> string \<Rightarrow> string option" where
  "put_string m s out = (if m s \<noteq> NUL then put_string m (s + 1) (out @ [m s]) else Some out)"

datatype fmt_state = Plain | Percent

text \<open>One character of the format: the bytes it writes, the next state and the next argument index.\<close>

definition printf_step ::
  "mem \<Rightarrow> (nat \<Rightarrow> u32) \<Rightarrow> char \<Rightarrow> fmt_state \<Rightarrow> nat \<Rightarrow> (string \<times> fmt_state \<times> nat) option" where
  "printf_step m args c st ap =
     (case st of
        Plain \<Rightarrow> if c = CHR ''%'' then Some ([], Percent, ap) else Some ([c], Plain, ap)
      | Percent \<Rightarrow>
          if c = CHR ''d'' then
            map_option (\<lambda>o1. (o1, Plain, ap + 1)) (printint (args ap) 10 True)
          else if c = CHR ''x'' \<or> c = CHR ''p'' then
            map_option (\<lambda>o1. (o1, Plain, ap + 1)) (printint (args ap) 16 False)
          else if c = CHR ''s'' then
            (if args ap = 0 then Some (''(null)'', Plain, ap + 1)
             else map_option (\<lambda>o1. (o1, Plain, ap + 1)) (put_string m (unat (args ap)) []))
          else if c = CHR ''c'' then Some ([char_of (unat (args ap))], Plain, ap + 1)
          else if c = CHR ''%'' then Some ([c], Plain, ap)
          else Some ([CHR ''%'', c], Plain, ap))"

fun printf_loop ::
  "mem \<Rightarrow> (nat \<Rightarrow> u32) \<Rightarrow> string \<Rightarrow> fmt_state \<Rightarrow> nat \<Rightarrow> string option" where
  "printf_loop m args [] st ap = Some []"
| "printf_loop m args (c # fmt) st ap =
     Option.bind (printf_step m args c st ap)
       (\<lambda>(o1, st', ap'). map_option (\<lambda>o2. o1 @ o2) (printf_loop m args fmt st' ap'))"

definition printf :: "mem \<Rightarrow> string \<Rightarrow> (nat \<Rightarrow> u32) \<Rightarrow> string option" where
  "printf m fmt args = printf_loop m args fmt Plain 0"

section \<open>Numerals\<close>

text \<open>The numeral of a number in a base, most significant digit first, and the value of a numeral.\<close>

fun numeral_of :: "nat \<Rightarrow> nat \<Rightarrow> string" where
  "numeral_of base n =
     (if n < base \<or> base \<le> 1 then [digit_chars ! (n mod base)]
      else numeral_of base (n div base) @ [digit_chars ! (n mod base)])"

declare numeral_of.simps [simp del]

lemma numeral_of_length:
  "2 \<le> base \<Longrightarrow> n < base ^ Suc k \<Longrightarrow> length (numeral_of base n) \<le> Suc k"
proof (induction k arbitrary: n)
  case 0
  then show ?case by (simp add: numeral_of.simps [of base n])
next
  case (Suc k)
  show ?case
  proof (cases "n < base")
    case True
    then show ?thesis by (simp add: numeral_of.simps [of base n])
  next
    case False
    have "n div base < base ^ Suc k"
      using Suc.prems by (simp add: less_mult_imp_div_less mult.commute)
    with Suc False show ?thesis by (simp add: numeral_of.simps [of base n])
  qed
qed

lemma digits_loop_numeral:
  assumes "2 \<le> unat base" "unat base \<le> 16" "length (numeral_of (unat base) (unat x)) \<le> slots"
  shows "digits_loop slots x base buf = Some (buf @ rev (numeral_of (unat base) (unat x)))"
  using assms
proof (induction slots x base buf rule: digits_loop.induct)
  case (1 x base buf)
  then show ?case by (simp add: numeral_of.simps [of _ "unat x"] split: if_splits)
next
  case (2 slots x base buf)
  have base: "base \<noteq> 0" using "2.prems"(1) by auto
  have u: "unat (x mod base) = unat x mod unat base" "unat (x div base) = unat x div unat base"
    by (simp_all add: unat_mod unat_div)
  have "unat x mod unat base < unat base" using "2.prems"(1) by simp
  also have "unat base < length digit_chars" using "2.prems"(2) by (simp add: digit_chars_def)
  finally have dig: "\<not> length digit_chars \<le> unat (x mod base)" by (simp add: u)
  show ?case
  proof (cases "unat x < unat base")
    case True
    then have "x div base = 0" by (simp add: unat_eq_zero [symmetric] u)
    with True base dig "2.prems"(1) show ?thesis
      by (simp add: numeral_of.simps [of _ "unat x"] u)
  next
    case False
    then have "unat x div unat base \<noteq> 0" using "2.prems"(1) by (simp add: div_eq_0_iff)
    then have nz: "x div base \<noteq> 0" by (metis u(2) unat_0)
    have num: "numeral_of (unat base) (unat x) =
        numeral_of (unat base) (unat x div unat base) @ [digit_chars ! (unat x mod unat base)]"
      using False "2.prems"(1) by (simp add: numeral_of.simps [of "unat base" "unat x"])
    have "digits_loop slots (x div base) base (buf @ [digit_chars ! unat (x mod base)]) =
        Some ((buf @ [digit_chars ! unat (x mod base)]) @ rev (numeral_of (unat base) (unat (x div base))))"
      using "2.prems" num base dig nz by (intro "2.IH") (auto simp: u)
    with nz base dig num show ?thesis by (simp add: u)
  qed
qed

lemma unat_lt32: "unat (x :: u32) < 2 ^ 32"
proof -
  have "unat x < 2 ^ LENGTH(32)" by (rule unsigned_less)
  then show ?thesis by simp
qed

lemma uint_sint_nonneg: "0 \<le> sint (x :: u32) \<Longrightarrow> uint x = sint x"
proof -
  assume "0 \<le> sint x"
  then have "take_bit 32 (sint x) = sint x"
    using sint_lt [of x] by (intro take_bit_int_eq_self) auto
  moreover have "uint (word_of_int (sint x) :: u32) = take_bit 32 (sint x)"
    unfolding uint_word_of_int_eq by simp
  ultimately show ?thesis by simp
qed

lemma dec_numeral_fits: "length (numeral_of 10 (unat (x :: u32))) \<le> 10"
  using numeral_of_length [of 10 "unat x" 9] unat_lt32 [of x] by simp

lemma hex_numeral_fits: "length (numeral_of 16 (unat (x :: u32))) \<le> 8"
  using numeral_of_length [of 16 "unat x" 7] unat_lt32 [of x] by simp

lemma unat_uminus_neg:
  assumes neg: "sint (x :: u32) < 0"
  shows "unat (- x) = nat (- sint x)"
proof -
  have "- (2 ^ 31) \<le> sint x" using sint_greater_eq [of x] by simp
  then have "take_bit 32 (- sint x) = - sint x"
    using neg by (intro take_bit_int_eq_self) auto
  moreover have "uint (word_of_int (- sint x) :: u32) = take_bit 32 (- sint x)"
    unfolding uint_word_of_int_eq by simp
  moreover have "(word_of_int (- sint x) :: u32) = - x" by simp
  ultimately show ?thesis by (simp add: unat_eq_nat_uint)
qed

text \<open>A decimal numeral reads back as its number, and so do the digits that \<open>printint\<close> writes.\<close>

lemma digit_chars_digit:
  "d < 10 \<Longrightarrow> is_digit (digit_chars ! d) \<and> digit_val (digit_chars ! d) = d"
  by (auto simp: digit_chars_def is_digit_def digit_val_def less_Suc_eq numeral_eq_Suc)

lemma numeral_of_digits: "\<forall>c \<in> set (numeral_of 10 n). is_digit c"
proof (induction n rule: less_induct)
  case (less n)
  have "n div 10 < n \<or> n < 10" by arith
  then show ?case
    using less digit_chars_digit [of "n mod 10"] by (auto simp: numeral_of.simps [of 10 n])
qed

lemma dec_val_append: "dec_val n (xs @ ys) = dec_val (dec_val n xs) ys"
  by (induction n xs rule: dec_val.induct) auto

lemma dec_val_numeral: "dec_val 0 (numeral_of 10 n) = n"
proof (induction n rule: less_induct)
  case (less n)
  have "digit_val (digit_chars ! (n mod 10)) = n mod 10" using digit_chars_digit by simp
  then show ?case
    using less by (cases "n < 10") (auto simp: numeral_of.simps [of 10 n] dec_val_append)
qed

lemma printint_unsigned:
  assumes "base = 10 \<or> base = 16" "\<not> signd \<or> 0 \<le> sint x"
  shows "printint x base signd = Some (numeral_of (unat base) (unat x))"
proof -
  have "digits_loop 16 x base [] = Some (rev (numeral_of (unat base) (unat x)))"
    using assms(1) dec_numeral_fits [of x] hex_numeral_fits [of x]
    by (subst digits_loop_numeral) auto
  with assms(2) show ?thesis by (auto simp: printint_def Let_def)
qed

lemma printint_negative:
  assumes "sint x < 0"
  shows "printint x 10 True = Some (CHR ''-'' # numeral_of 10 (nat (- sint x)))"
proof -
  have "digits_loop 16 (- x) 10 [] = Some (rev (numeral_of 10 (nat (- sint x))))"
    using dec_numeral_fits [of "- x"] unat_uminus_neg [OF assms]
    by (subst digits_loop_numeral) auto
  moreover have "length (numeral_of 10 (nat (- sint x))) < 16"
    using dec_numeral_fits [of "- x"] unat_uminus_neg [OF assms] by simp
  ultimately show ?thesis using assms by (simp add: printint_def Let_def)
qed

section \<open>Properties\<close>

text \<open>C40. \<open>printint\<close> never leaves its 16-byte buffer in the bases printf uses: for every 32-bit argument,
  the least negative one included, it writes the decimal or hexadecimal numeral of the number, with a
  minus sign exactly for a negative signed argument.\<close>

theorem printint_spec:
  "printint x 10 True =
     Some ((if sint x < 0 then [CHR ''-''] else []) @ numeral_of 10 (nat \<bar>sint x\<bar>)) \<and>
   printint x 16 False = Some (numeral_of 16 (unat x))"
proof
  show "printint x 16 False = Some (numeral_of 16 (unat x))"
    using printint_unsigned [of 16 False x] by simp
  show "printint x 10 True =
     Some ((if sint x < 0 then [CHR ''-''] else []) @ numeral_of 10 (nat \<bar>sint x\<bar>))"
  proof (cases "sint x < 0")
    case True
    then show ?thesis using printint_negative [OF True] by simp
  next
    case False
    then have "uint x = sint x" by (intro uint_sint_nonneg) simp
    with False show ?thesis using printint_unsigned [of 10 True x] by (simp add: unat_eq_nat_uint)
  qed
qed

text \<open>\<open>atoi\<close> reads back what \<open>printint\<close> writes for a number that is not negative.\<close>

theorem atoi_printint_roundtrip:
  assumes "0 \<le> sint x" "printint x 10 True = Some ds" "str_at m s ds"
  shows "atoi m s = Some x"
proof -
  have ds: "ds = numeral_of 10 (unat x)"
    using printint_unsigned [of 10 True x] assms by simp
  have "atoi_loop m s (of_nat 0) = Some (of_nat (dec_val 0 ds))"
  proof (rule atoi_loop_result)
    show "\<forall>c \<in> set ds. is_digit c" using ds numeral_of_digits by simp
    show "\<forall>i < length ds. m (s + i) = ds ! i" "\<not> is_digit (m (s + length ds))"
      using assms(3) by (auto simp: str_at_def is_digit_def)
  qed
  then show ?thesis by (simp add: atoi_def ds dec_val_numeral)
qed

theorem atoi_printint_roundtrip_witness:
  "atoi (\<lambda>a. if a = 7 then CHR ''4'' else if a = 8 then CHR ''2'' else NUL) 7 = Some 42"
proof (rule atoi_printint_roundtrip [where ds = "''42''"])
  show "0 \<le> sint (42 :: u32)" by simp
  show "printint (42 :: u32) 10 True = Some ''42''" by code_simp
qed simp

end
