(* ===== verification/UserProgs.thy ===== *)
theory UserProgs
  imports Printf
begin

text \<open>
  Small programs of Assignment5/xv6-public: \<open>echo.c\<close>, \<open>kill.c\<close>, \<open>rm.c\<close>, \<open>zombie.c\<close>, \<open>forktest.c\<close>, \<open>stressfs.c\<close> and
  \<open>invertcase.c\<close>. A run makes system calls, kept newest first; the kernel answers each as a function of the calls up
  to it, and the answer of \<open>fork\<close> says whether the run goes on as the parent or as the child. Arguments are
  pointers into the byte memory of the program, formats are strings, and output goes through \<open>printf\<close> of \<open>Printf\<close>.
\<close>

section \<open>System calls\<close>

datatype ucall =
    Write int string | Read int nat | Open string string | Close int | Unlink u32
  | Fork | Wait | Kill u32 | Sleep nat | Exit

text \<open>A program ends by \<open>exit\<close>, or goes outside its memory.\<close>

datatype uhalt = Exited | Wild

type_synonym 'a um = "(ucall list \<Rightarrow> int) \<Rightarrow> ucall list \<Rightarrow> (uhalt + 'a) \<times> ucall list"

definition uret :: "'a \<Rightarrow> 'a um" where
  "uret x E h = (Inr x, h)"

definition wild :: "'a um" where
  "wild E h = (Inl Wild, h)"

definition ubind :: "'a um \<Rightarrow> ('a \<Rightarrow> 'b um) \<Rightarrow> 'b um" where
  "ubind m f E h = (case m E h of (Inl e, g) \<Rightarrow> (Inl e, g) | (Inr x, g) \<Rightarrow> f x E g)"

definition usys :: "ucall \<Rightarrow> int um" where
  "usys c E h = (Inr (E (c # h)), c # h)"

definition uexit :: "'a um" where
  "uexit E h = (Inl Exited, Exit # h)"

lemma um_simps [simp]:
  "uret x E h = (Inr x, h)"
  "wild E h = (Inl Wild, h)"
  "usys c E h = (Inr (E (c # h)), c # h)"
  "uexit E h = (Inl Exited, Exit # h)"
  by (simp_all add: uret_def wild_def usys_def uexit_def)

lemma ubind_Inl [simp]: "m E h = (Inl e, g) \<Longrightarrow> ubind m f E h = (Inl e, g)"
  and ubind_Inr [simp]: "m E h = (Inr x, g) \<Longrightarrow> ubind m f E h = f x E g"
  by (simp_all add: ubind_def)

definition ulift :: "'a option \<Rightarrow> 'a um" where
  "ulift z = (case z of None \<Rightarrow> wild | Some x \<Rightarrow> uret x)"

lemma ulift_Some [simp]: "ulift (Some x) = uret x"
  by (simp add: ulift_def)

text \<open>\<open>printf\<close> writes byte by byte.\<close>

fun putcs :: "int \<Rightarrow> string \<Rightarrow> unit um" where
  "putcs fd [] = uret ()"
| "putcs fd (c # cs) = ubind (usys (Write fd [c])) (\<lambda>_. putcs fd cs)"

definition uprintf :: "mem \<Rightarrow> int \<Rightarrow> string \<Rightarrow> u32 list \<Rightarrow> unit um" where
  "uprintf m fd fmt args = ubind (ulift (printf m fmt (\<lambda>k. if k < length args then args ! k else 0))) (putcs fd)"

section \<open>echo, kill, rm, zombie\<close>

text \<open>The strings \<open>" "\<close> and \<open>"\<newline>"\<close> of \<open>echo\<close> lie at \<open>sp\<close> and \<open>nl\<close>.\<close>

fun echo_loop :: "mem \<Rightarrow> u32 \<Rightarrow> u32 \<Rightarrow> u32 list \<Rightarrow> unit um" where
  "echo_loop m sp nl [] = uret ()"
| "echo_loop m sp nl (p # ps) =
     ubind (uprintf m 1 ''%s%s'' [p, if ps \<noteq> [] then sp else nl]) (\<lambda>_. echo_loop m sp nl ps)"

definition echo_main :: "mem \<Rightarrow> u32 \<Rightarrow> u32 \<Rightarrow> u32 list \<Rightarrow> unit um" where
  "echo_main m sp nl argv = ubind (echo_loop m sp nl (drop 1 argv)) (\<lambda>_. uexit)"

fun kill_loop :: "mem \<Rightarrow> u32 list \<Rightarrow> unit um" where
  "kill_loop m [] = uret ()"
| "kill_loop m (p # ps) =
     ubind (ulift (atoi m (unat p))) (\<lambda>pid. ubind (usys (Kill pid)) (\<lambda>_. kill_loop m ps))"

definition kill_main :: "mem \<Rightarrow> u32 list \<Rightarrow> unit um" where
  "kill_main m argv =
     (if length argv < 2 then ubind (uprintf m 2 (''usage: kill pid...'' @ [newline]) []) (\<lambda>_. uexit)
      else ubind (kill_loop m (drop 1 argv)) (\<lambda>_. uexit))"

fun rm_loop :: "mem \<Rightarrow> u32 list \<Rightarrow> unit um" where
  "rm_loop m [] = uret ()"
| "rm_loop m (p # ps) =
     ubind (usys (Unlink p)) (\<lambda>r.
       if r < 0 then uprintf m 2 (''rm: %s failed to delete'' @ [newline]) [p] else rm_loop m ps)"

definition rm_main :: "mem \<Rightarrow> u32 list \<Rightarrow> unit um" where
  "rm_main m argv =
     (if length argv < 2 then ubind (uprintf m 2 (''Usage: rm files...'' @ [newline]) []) (\<lambda>_. uexit)
      else ubind (rm_loop m (drop 1 argv)) (\<lambda>_. uexit))"

definition zombie_main :: "unit um" where
  "zombie_main = ubind (usys Fork) (\<lambda>p. ubind (if p > 0 then usys (Sleep 5) else uret 0) (\<lambda>_. uexit))"

section \<open>forktest\<close>

text \<open>Its own \<open>printf\<close> writes the format in one call.\<close>

definition fprintf :: "int \<Rightarrow> string \<Rightarrow> unit um" where
  "fprintf fd s = ubind (usys (Write fd s)) (\<lambda>_. uret ())"

definition N :: nat where "N = 1000"

text \<open>The loop that forks, from \<open>n = N - k\<close> on; it returns \<open>n\<close>.\<close>

fun fork_loop :: "nat \<Rightarrow> nat um" where
  "fork_loop 0 = uret N"
| "fork_loop (Suc k) =
     ubind (usys Fork) (\<lambda>pid. if pid < 0 then uret (N - Suc k) else if pid = 0 then uexit else fork_loop k)"

fun wait_loop :: "nat \<Rightarrow> unit um" where
  "wait_loop 0 = uret ()"
| "wait_loop (Suc n) =
     ubind (usys Wait) (\<lambda>r.
       if r < 0 then ubind (fprintf 1 (''wait stopped early'' @ [newline])) (\<lambda>_. uexit) else wait_loop n)"

definition forktest :: "unit um" where
  "forktest =
     ubind (fprintf 1 (''fork test'' @ [newline])) (\<lambda>_.
     ubind (fork_loop N) (\<lambda>n.
       if n = N then ubind (fprintf 1 (''fork claimed to work N times!'' @ [newline])) (\<lambda>_. uexit)
       else
         ubind (wait_loop n) (\<lambda>_.
         ubind (usys Wait) (\<lambda>r.
           if r \<noteq> - 1 then ubind (fprintf 1 (''wait got too many'' @ [newline])) (\<lambda>_. uexit)
           else fprintf 1 (''fork test OK'' @ [newline])))))"

definition forktest_main :: "unit um" where
  "forktest_main = ubind forktest (\<lambda>_. uexit)"

section \<open>stressfs\<close>

text \<open>The loop that forks four times, each child forking again; it returns \<open>i\<close>.\<close>

fun fork_four :: "nat \<Rightarrow> nat um" where
  "fork_four 0 = uret 4"
| "fork_four (Suc k) = ubind (usys Fork) (\<lambda>p. if p > 0 then uret (4 - Suc k) else fork_four k)"

fun repeat :: "nat \<Rightarrow> ucall \<Rightarrow> unit um" where
  "repeat 0 c = uret ()"
| "repeat (Suc n) c = ubind (usys c) (\<lambda>_. repeat n c)"

definition stressfs_main :: "mem \<Rightarrow> unit um" where
  "stressfs_main m =
     ubind (uprintf m 1 (''stressfs starting'' @ [newline]) []) (\<lambda>_.
     (let data = replicate 512 (CHR ''a'') in
      ubind (fork_four 4) (\<lambda>i.
      ubind (uprintf m 1 (''write %d'' @ [newline]) [of_nat i]) (\<lambda>_.
      (let path = ''stressfs'' @ [char_of (48 + i)] in
       ubind (usys (Open path ''O_CREATE|O_RDWR'')) (\<lambda>fd.
       ubind (repeat 20 (Write fd data)) (\<lambda>_.
       ubind (usys (Close fd)) (\<lambda>_.
       ubind (uprintf m 1 (''read'' @ [newline]) []) (\<lambda>_.
       ubind (usys (Open path ''O_RDONLY'')) (\<lambda>fd.
       ubind (repeat 20 (Read fd 512)) (\<lambda>_.
       ubind (usys (Close fd)) (\<lambda>_.
       ubind (usys Wait) (\<lambda>_. uexit)))))))))))))"

section \<open>invertcase\<close>

definition invert_char :: "char \<Rightarrow> char" where
  "invert_char temp =
     (let c = of_char temp :: nat in
      if 65 \<le> c \<and> c \<le> 90 then char_of (c + 32) else if 97 \<le> c \<and> c \<le> 122 then char_of (c - 32) else temp)"

partial_function (option) invert_string :: "mem \<Rightarrow> nat \<Rightarrow> mem option" where
  "invert_string m p = (if m p \<noteq> NUL then invert_string (m(p := invert_char (m p))) (p + 1) else Some m)"

fun invert_args :: "mem \<Rightarrow> u32 list \<Rightarrow> mem option" where
  "invert_args m [] = Some m"
| "invert_args m (p # ps) = Option.bind (invert_string m (unat p)) (\<lambda>m'. invert_args m' ps)"

fun print_args :: "mem \<Rightarrow> u32 list \<Rightarrow> unit um" where
  "print_args m [] = uret ()"
| "print_args m (p # ps) = ubind (uprintf m 1 ''%s '' [p]) (\<lambda>_. print_args m ps)"

definition invertcase_main :: "mem \<Rightarrow> u32 list \<Rightarrow> unit um" where
  "invertcase_main m argv =
     (if length argv \<le> 1 then uexit
      else
        ubind (ulift (invert_args m (drop 1 argv))) (\<lambda>m1.
        ubind (print_args m1 (drop 1 argv)) (\<lambda>_.
        ubind (uprintf m1 1 [newline] []) (\<lambda>_. uexit))))"

section \<open>Output\<close>

text \<open>The bytes written to a descriptor, in order.\<close>

fun written :: "int \<Rightarrow> ucall list \<Rightarrow> string" where
  "written fd [] = []"
| "written fd (Write d w # h) = written fd h @ (if d = fd then w else [])"
| "written fd (_ # h) = written fd h"

lemma putcs_eq: "putcs fd w E h = (Inr (), map (\<lambda>c. Write fd [c]) (rev w) @ h)"
  by (induction w arbitrary: h) simp_all

lemma written_putcs: "written d (map (\<lambda>c. Write fd [c]) (rev w) @ h) = written d h @ (if d = fd then w else [])"
  by (induction w arbitrary: h) simp_all

definition prints :: "unit um \<Rightarrow> int \<Rightarrow> string \<Rightarrow> bool" where
  "prints p fd w \<longleftrightarrow> (\<forall>E h. \<exists>h'. p E h = (Inr (), h') \<and> (\<forall>d. written d h' = written d h @ (if d = fd then w else [])))"

lemma prints_uret: "prints (uret ()) fd []"
  by (simp add: prints_def)

lemma prints_ubind:
  assumes "prints p fd v" "prints q fd w"
  shows "prints (ubind p (\<lambda>_. q)) fd (v @ w)"
  unfolding prints_def
proof (intro allI)
  fix E h
  obtain g where g: "p E h = (Inr (), g)" "\<And>d. written d g = written d h @ (if d = fd then v else [])"
    using assms(1) unfolding prints_def by metis
  obtain g' where "q E g = (Inr (), g')" "\<And>d. written d g' = written d g @ (if d = fd then w else [])"
    using assms(2) unfolding prints_def by metis
  with g show "\<exists>h'. ubind p (\<lambda>_. q) E h = (Inr (), h') \<and> (\<forall>d. written d h' = written d h @ (if d = fd then v @ w else []))"
    by auto
qed

lemma prints_uprintf:
  assumes "printf m fmt (\<lambda>k. if k < length args then args ! k else 0) = Some w"
  shows "prints (uprintf m fd fmt args) fd w"
  unfolding prints_def uprintf_def assms ulift_Some by (simp add: putcs_eq written_putcs)

text \<open>\<open>%s\<close> writes its string, other characters write themselves.\<close>

lemma put_string_result: "str_at m s w \<Longrightarrow> put_string m s out = Some (out @ w)"
  by (induction w arbitrary: s out) (subst put_string.simps, simp)+

lemma printf_percent_s:
  assumes "args ap \<noteq> 0" "str_at m (unat (args ap)) w"
  shows "printf_loop m args (CHR ''%'' # CHR ''s'' # fmt) Plain ap = map_option (\<lambda>o2. w @ o2) (printf_loop m args fmt Plain (ap + 1))"
  using assms put_string_result [OF assms(2), of "[]"]
  by (simp add: printf_step_def option.map_comp comp_def)

lemma printf_plain:
  "CHR ''%'' \<notin> set w \<Longrightarrow> printf_loop m args (w @ fmt) Plain ap = map_option (\<lambda>o2. w @ o2) (printf_loop m args fmt Plain ap)"
  by (induction w; cases "printf_loop m args fmt Plain ap") (auto simp: printf_step_def)

lemma prints_text: "CHR ''%'' \<notin> set w \<Longrightarrow> prints (uprintf m fd w []) fd w"
  using printf_plain [of w m _ "[]"] by (intro prints_uprintf) (simp add: printf_def)

section \<open>Arguments in memory\<close>

text \<open>The strings the argument pointers point to, and that no two of them overlap.\<close>

definition args_at :: "mem \<Rightarrow> u32 list \<Rightarrow> string list \<Rightarrow> bool" where
  "args_at m ps ws \<longleftrightarrow> list_all2 (\<lambda>p w. p \<noteq> 0 \<and> str_at m (unat p) w) ps ws"

fun apart :: "u32 list \<Rightarrow> string list \<Rightarrow> bool" where
  "apart (p # ps) (w # ws) \<longleftrightarrow>
     list_all2 (\<lambda>q v. unat p + length w < unat q \<or> unat q + length v < unat p) ps ws \<and> apart ps ws"
| "apart _ _ \<longleftrightarrow> True"

lemma args_at_simps [simp]:
  "args_at m [] ws \<longleftrightarrow> ws = []"
  "args_at m (p # ps) (w # ws) \<longleftrightarrow> p \<noteq> 0 \<and> str_at m (unat p) w \<and> args_at m ps ws"
  by (auto simp: args_at_def)

lemma str_at_cong: "str_at m s w \<Longrightarrow> (\<And>a. s \<le> a \<Longrightarrow> a \<le> s + length w \<Longrightarrow> m' a = m a) \<Longrightarrow> str_at m' s w"
  by (simp add: str_at_def)

lemma args_at_cong:
  "args_at m ps ws \<Longrightarrow> list_all2 (\<lambda>p w. \<forall>a. unat p \<le> a \<and> a \<le> unat p + length w \<longrightarrow> m' a = m a) ps ws \<Longrightarrow> args_at m' ps ws"
  unfolding args_at_def list_all2_conv_all_nth by (blast intro: str_at_cong)

section \<open>invertcase\<close>

lemma invert_char_NUL [simp]: "invert_char c = NUL \<longleftrightarrow> c = NUL"
proof
  have small: "char_of n = NUL \<Longrightarrow> n < 256 \<Longrightarrow> n = 0" for n :: nat
    by (simp add: char_of_eq_iff take_bit_nat_eq_self)
  assume "invert_char c = NUL"
  then show "c = NUL" by (auto simp: invert_char_def Let_def split: if_splits dest!: small)
qed (simp add: invert_char_def)

lemma NUL_invert_char [simp]: "NUL = invert_char c \<longleftrightarrow> NUL = c"
  using invert_char_NUL [of c] by (simp only: eq_commute)

lemma invert_string_result:
  "str_at m p w \<Longrightarrow> invert_string m p = Some (\<lambda>a. if p \<le> a \<and> a < p + length w then invert_char (m a) else m a)"
proof (induction w arbitrary: m p)
  case Nil
  then show ?case by (subst invert_string.simps) (auto simp: fun_eq_iff)
next
  case (Cons c w)
  let ?m = "m(p := invert_char (m p))"
  have "str_at ?m (Suc p) w" using Cons.prems by (intro str_at_cong [of m _ w ?m]) auto
  note IH = Cons.IH [OF this]
  have "m p \<noteq> NUL" using Cons.prems by simp
  then have "invert_string m p = invert_string ?m (Suc p)" by (subst invert_string.simps) simp
  also note IH
  also have "(\<lambda>a. if Suc p \<le> a \<and> a < Suc p + length w then invert_char (?m a) else ?m a) =
      (\<lambda>a. if p \<le> a \<and> a < p + length (c # w) then invert_char (m a) else m a)"
    by (rule ext) auto
  finally show ?case .
qed

lemma invert_string_at:
  assumes "str_at m p w"
  obtains m' where "invert_string m p = Some m'" "str_at m' p (map invert_char w)"
    "\<And>a. a < p \<or> p + length w \<le> a \<Longrightarrow> m' a = m a"
  by (rule that [OF invert_string_result [OF assms]]) (use assms in \<open>auto simp: str_at_def image_iff\<close>)

lemma invert_args_result:
  "args_at m ps ws \<Longrightarrow> apart ps ws \<Longrightarrow>
   \<exists>m'. invert_args m ps = Some m' \<and> args_at m' ps (map (map invert_char) ws) \<and>
     (\<forall>a. list_all2 (\<lambda>p w. a < unat p \<or> unat p + length w \<le> a) ps ws \<longrightarrow> m' a = m a)"
proof (induction ps ws arbitrary: m rule: apart.induct)
  case (1 p ps w ws)
  obtain m1 where m1: "invert_string m (unat p) = Some m1" "str_at m1 (unat p) (map invert_char w)"
    "\<And>a. a < unat p \<or> unat p + length w \<le> a \<Longrightarrow> m1 a = m a"
    using "1.prems" by (auto elim: invert_string_at)
  have "args_at m1 ps ws"
    by (rule args_at_cong [of m]) (use "1.prems" m1(3) in \<open>auto simp: list_all2_conv_all_nth\<close>)
  with "1.IH" "1.prems" obtain m' where m': "invert_args m1 ps = Some m'" "args_at m' ps (map (map invert_char) ws)"
    "\<And>a. list_all2 (\<lambda>p w. a < unat p \<or> unat p + length w \<le> a) ps ws \<Longrightarrow> m' a = m1 a" by auto
  have "str_at m' (unat p) (map invert_char w)"
    by (rule str_at_cong [OF m1(2)], rule m'(3)) (use "1.prems" in \<open>auto simp: list_all2_conv_all_nth\<close>)
  with m1 m' "1.prems" show ?case by auto
qed (auto simp: args_at_def)

lemma print_args_prints:
  "args_at m ps ws \<Longrightarrow> prints (print_args m ps) 1 (concat (map (\<lambda>w. w @ '' '') ws))"
proof (induction ps arbitrary: ws)
  case Nil
  then show ?case by (simp add: prints_def args_at_def)
next
  case (Cons p ps)
  then obtain w us where ws: "ws = w # us" by (cases ws) (auto simp: args_at_def)
  have "printf m ''%s '' (\<lambda>k. if k < length [p] then [p] ! k else 0) = Some (w @ '' '')"
    (is "printf m _ ?a = _")
  proof -
    have "printf_loop m ?a '' '' Plain 1 = Some '' ''" by (simp add: printf_step_def)
    with printf_percent_s [of ?a 0 m w "'' ''"] Cons.prems show ?thesis
      unfolding printf_def ws by (simp del: printf_loop.simps)
  qed
  from prints_ubind [OF prints_uprintf [OF this] Cons.IH] Cons.prems show ?case by (simp add: ws)
qed

text \<open>\<open>invertcase\<close> prints its arguments with the case of every letter inverted, each followed by a blank, and a
  newline, when the strings of the arguments do not overlap.\<close>

theorem invertcase_prints:
  assumes "args_at m ps ws" "apart ps ws" "ps \<noteq> []"
  shows "\<exists>h'. invertcase_main m (prog # ps) E h = (Inl Exited, h') \<and>
    written 1 h' = written 1 h @ concat (map (\<lambda>w. map invert_char w @ '' '') ws) @ [newline]"
proof -
  obtain m' where m': "invert_args m ps = Some m'" "args_at m' ps (map (map invert_char) ws)"
    using invert_args_result [OF assms(1,2)] by blast
  have "prints (ubind (print_args m' ps) (\<lambda>_. uprintf m' 1 [newline] [])) 1
      (concat (map (\<lambda>w. w @ '' '') (map (map invert_char) ws)) @ [newline])"
    by (intro prints_ubind print_args_prints m'(2) prints_text) simp
  from this [unfolded prints_def, rule_format, of E h] obtain h' where "ubind (print_args m' ps) (\<lambda>_. uprintf m' 1 [newline] []) E h = (Inr (), h')"
    "written 1 h' = written 1 h @ concat (map (\<lambda>w. map invert_char w @ '' '') ws) @ [newline]"
    by (auto simp: comp_def)
  moreover have "invertcase_main m (prog # ps) = ubind (ubind (print_args m' ps) (\<lambda>_. uprintf m' 1 [newline] [])) (\<lambda>_. uexit)"
    using assms(3) m'(1) by (cases ps) (auto simp: invertcase_main_def fun_eq_iff ubind_def split: prod.splits sum.splits)
  ultimately show ?thesis by auto
qed

definition two_args :: mem where
  "two_args = (\<lambda>a. if a = 100 then CHR ''a'' else if a = 101 then CHR ''B'' else if a = 200 then CHR ''7'' else NUL)"

theorem invertcase_prints_witness:
  "\<exists>h'. invertcase_main two_args [50, 100, 200] (\<lambda>_. 0) [] = (Inl Exited, h') \<and> written 1 h' = ''Ab 7 \<newline>''"
proof -
  have "args_at two_args [100, 200] [''aB'', ''7'']" by (simp add: two_args_def)
  moreover have "map invert_char ''aB'' = ''Ab''" "map invert_char ''7'' = ''7''" by code_simp+
  ultimately show ?thesis using invertcase_prints [of two_args "[100, 200]" "[''aB'', ''7'']" 50 "\<lambda>_. 0" "[]"] by simp
qed

section \<open>echo\<close>

text \<open>The words with blanks between them and a newline.\<close>

fun echo_text :: "string list \<Rightarrow> string" where
  "echo_text [] = []"
| "echo_text [w] = w @ [newline]"
| "echo_text (w # v # ws) = w @ '' '' @ echo_text (v # ws)"

lemma echo_loop_prints:
  assumes "sp \<noteq> 0" "nl \<noteq> 0" "str_at m (unat sp) '' ''" "str_at m (unat nl) [newline]"
  shows "args_at m ps ws \<Longrightarrow> prints (echo_loop m sp nl ps) 1 (echo_text ws)"
proof (induction ps arbitrary: ws)
  case Nil
  then show ?case by (simp add: prints_def args_at_def)
next
  case (Cons p ps)
  then obtain w us where ws: "ws = w # us" by (cases ws) (auto simp: args_at_def)
  define q where "q = (if ps \<noteq> [] then sp else nl)"
  define v where "v = (if ps \<noteq> [] then '' '' else [newline])"
  have q: "q \<noteq> 0" "str_at m (unat q) v" using assms by (simp_all add: q_def v_def)
  have "printf m ''%s%s'' (\<lambda>k. if k < length [p, q] then [p, q] ! k else 0) = Some (w @ v)"
    (is "printf m _ ?a = _")
  proof -
    have "printf_loop m ?a ''%s'' Plain 1 = Some v"
      using printf_percent_s [of ?a 1 m v "[]"] q by simp
    with printf_percent_s [of ?a 0 m w "''%s''"] Cons.prems show ?thesis
      unfolding printf_def ws by (simp del: printf_loop.simps)
  qed
  note 1 = prints_ubind [OF prints_uprintf [OF this] Cons.IH [of us]]
  have "echo_text ws = (w @ v) @ echo_text us"
    using Cons.prems by (cases us; cases ps) (auto simp: ws v_def args_at_def)
  with 1 Cons.prems show ?case by (simp add: ws q_def)
qed

section \<open>forktest\<close>

text \<open>A kernel with room for \<open>K\<close> children: the children a run has, and how it answers.\<close>

fun kids :: "nat \<Rightarrow> ucall list \<Rightarrow> nat" where
  "kids K [] = 0"
| "kids K (Fork # h) = (if kids K h < K then Suc (kids K h) else kids K h)"
| "kids K (Wait # h) = kids K h - 1"
| "kids K (_ # h) = kids K h"

definition kernel :: "nat \<Rightarrow> (ucall list \<Rightarrow> int) \<Rightarrow> bool" where
  "kernel K E \<longleftrightarrow> (\<forall>h. (if kids K h < K then 0 < E (Fork # h) else E (Fork # h) < 0) \<and>
     (if 0 < kids K h then 0 \<le> E (Wait # h) else E (Wait # h) = - 1))"

lemma fork_loop_kids:
  assumes "kernel K E"
  shows "kids K h = N - k \<Longrightarrow> k \<le> N \<Longrightarrow> N - k \<le> K \<Longrightarrow>
    \<exists>h'. fork_loop k E h = (Inr (min N K), h') \<and> kids K h' = min N K \<and> written fd h' = written fd h"
proof (induction k arbitrary: h)
  case (Suc k)
  show ?case
  proof (cases "kids K h < K")
    case True
    with assms have "0 < E (Fork # h)" unfolding kernel_def by metis
    with True Suc.IH [of "Fork # h"] Suc.prems show ?thesis by (simp add: Suc_diff_Suc)
  next
    case False
    with assms have "E (Fork # h) < 0" unfolding kernel_def by metis
    with False Suc.prems show ?thesis by simp
  qed
qed simp

lemma wait_loop_kids:
  assumes "kernel K E"
  shows "kids K h = n \<Longrightarrow> \<exists>h'. wait_loop n E h = (Inr (), h') \<and> kids K h' = 0 \<and> written fd h' = written fd h"
proof (induction n arbitrary: h)
  case (Suc n)
  with assms have "0 \<le> E (Wait # h)" unfolding kernel_def by (metis zero_less_Suc)
  with Suc.IH [of "Wait # h"] Suc.prems show ?case by (simp add: not_less)
qed simp

text \<open>C28. On a kernel with room for \<open>K\<close> children \<open>forktest\<close> ends, reports success exactly when \<open>K\<close> is less than 1000,
  and then has waited for every child it started.\<close>

theorem forktest_reports:
  assumes "kernel K E"
  shows "\<exists>h'. forktest_main E [] = (Inl Exited, h') \<and>
    written 1 h' = ''fork test\<newline>'' @ (if K < 1000 then ''fork test OK\<newline>'' else ''fork claimed to work N times!\<newline>'') \<and>
    kids K h' = (if K < 1000 then 0 else 1000)"
proof -
  let ?h0 = "[Write 1 ''fork test\<newline>'']"
  obtain h1 where h1: "fork_loop N E ?h0 = (Inr (min N K), h1)" "kids K h1 = min N K" "written 1 h1 = ''fork test\<newline>''"
    using fork_loop_kids [OF assms, of ?h0 N 1] by auto
  show ?thesis
  proof (cases "K < 1000")
    case True
    obtain h2 where h2: "wait_loop K E h1 = (Inr (), h2)" "kids K h2 = 0" "written 1 h2 = ''fork test\<newline>''"
      using wait_loop_kids [OF assms, of h1 K 1] h1 True by (auto simp: N_def)
    have "E (Wait # h2) = - 1" using assms h2(2) unfolding kernel_def by (metis less_nat_zero_code)
    with True h1 h2 show ?thesis by (simp add: forktest_main_def forktest_def fprintf_def N_def)
  next
    case False
    with h1 show ?thesis by (simp add: forktest_main_def forktest_def fprintf_def N_def)
  qed
qed

definition small_kernel :: "ucall list \<Rightarrow> int" where
  "small_kernel cs =
     (case cs of
        Fork # h \<Rightarrow> if kids 2 h < 2 then 7 else - 1
      | Wait # h \<Rightarrow> if 0 < kids 2 h then 7 else - 1
      | _ \<Rightarrow> 0)"

theorem forktest_reports_witness:
  "\<exists>h'. forktest_main small_kernel [] = (Inl Exited, h') \<and> written 1 h' = ''fork test\<newline>fork test OK\<newline>'' \<and> kids 2 h' = 0"
proof -
  have "kernel 2 small_kernel" by (simp add: kernel_def small_kernel_def)
  from forktest_reports [OF this] show ?thesis by simp
qed

end
