(* ===== verification/ArraySort.thy ===== *)
theory ArraySort
  imports Prelude
begin

text \<open>
  What the three merge sort programs of Assignment4 share: sorting a segment of an array in place
  (\<open>sorts_seg\<close>), merging two sorted lists, writing a list into an array position by position, and the
  contract of a merge routine as a locale.
\<close>

section \<open>Sorting a segment in place\<close>

definition sorts_seg :: "'a::linorder list \<Rightarrow> 'a list \<Rightarrow> nat \<Rightarrow> nat \<Rightarrow> bool" where
  "sorts_seg xs ys i j \<longleftrightarrow>
     length ys = length xs \<and> take i ys = take i xs \<and> drop j ys = drop j xs \<and>
     mset (seg ys i j) = mset (seg xs i j) \<and> sorted (seg ys i j)"

lemma sorts_seg_length: "sorts_seg xs ys i j \<Longrightarrow> length ys = length xs"
  by (simp add: sorts_seg_def)

lemma sorts_seg_mset:
  assumes "sorts_seg xs ys i j" "i \<le> j" "j \<le> length xs"
  shows "mset ys = mset xs"
proof -
  have "ys = take i xs @ seg ys i j @ drop j xs"
    using assms list_split_seg [of i j ys] by (simp add: sorts_seg_def)
  then have "mset ys = mset (take i xs) + mset (seg ys i j) + mset (drop j xs)"
    by (metis add.assoc mset_append)
  also have "\<dots> = mset (take i xs @ seg xs i j @ drop j xs)"
    using assms(1) by (simp add: sorts_seg_def)
  also have "\<dots> = mset xs"
    using assms list_split_seg [of i j xs] by simp
  finally show ?thesis .
qed

lemma sorts_seg_whole: "sorts_seg xs ys 0 (length xs) \<Longrightarrow> sorted ys \<and> mset ys = mset xs"
  using sorts_seg_mset [of xs ys 0 "length xs"] by (auto simp: sorts_seg_def seg_def)

lemma sorts_seg_trivial: "j \<le> Suc i \<Longrightarrow> sorts_seg xs xs i j"
  by (auto simp: sorts_seg_def seg_def intro: sorted01)

text \<open>Sorting one segment leaves a disjoint one as it was.\<close>

lemma take_eq_take: "take i ys = take i xs \<Longrightarrow> k \<le> i \<Longrightarrow> take k ys = take k xs"
  by (metis min.absorb1 take_take)

lemma drop_eq_drop: "drop j ys = drop j xs \<Longrightarrow> j \<le> k \<Longrightarrow> drop k ys = drop k xs"
  by (metis drop_drop le_add_diff_inverse2)

lemma seg_eq_before: "take i ys = take i xs \<Longrightarrow> l \<le> i \<Longrightarrow> seg ys k l = seg xs k l"
  by (metis (no_types) drop_take seg_def take_eq_take)

lemma seg_eq_after: "drop j ys = drop j xs \<Longrightarrow> j \<le> k \<Longrightarrow> seg ys k l = seg xs k l"
  by (metis (no_types) drop_eq_drop seg_def)

section \<open>Merging lists\<close>

text \<open>\<open>le a b\<close> says that the left element is taken first.\<close>

fun lmerge :: "('a \<Rightarrow> 'a \<Rightarrow> bool) \<Rightarrow> 'a list \<Rightarrow> 'a list \<Rightarrow> 'a list" where
  "lmerge le [] bs = bs"
| "lmerge le as [] = as"
| "lmerge le (a # as) (b # bs) =
     (if le a b then a # lmerge le as (b # bs) else b # lmerge le (a # as) bs)"

definition picks_least :: "('a::linorder \<Rightarrow> 'a \<Rightarrow> bool) \<Rightarrow> bool" where
  "picks_least le \<longleftrightarrow> (\<forall>a b. (le a b \<longrightarrow> a \<le> b) \<and> (\<not> le a b \<longrightarrow> b \<le> a))"

lemma lmerge_Nil2 [simp]: "lmerge le as [] = as"
  by (cases as) auto

lemma mset_lmerge [simp]: "mset (lmerge le as bs) = mset as + mset bs"
  by (induction le as bs rule: lmerge.induct) auto

lemma length_lmerge [simp]: "length (lmerge le as bs) = length as + length bs"
  by (induction le as bs rule: lmerge.induct) auto

lemma set_lmerge [simp]: "set (lmerge le as bs) = set as \<union> set bs"
  by (induction le as bs rule: lmerge.induct) auto

lemma picks_leastD:
  "picks_least le \<Longrightarrow> le a b \<Longrightarrow> b \<le> x \<Longrightarrow> a \<le> x"
  "picks_least le \<Longrightarrow> \<not> le a b \<Longrightarrow> a \<le> x \<Longrightarrow> b \<le> x"
  unfolding picks_least_def by (meson order_trans)+

lemma sorted_lmerge: "picks_least le \<Longrightarrow> sorted as \<Longrightarrow> sorted bs \<Longrightarrow> sorted (lmerge le as bs)"
proof (induction le as bs rule: lmerge.induct)
  case (3 le a as b bs)
  have "a \<le> b" if "le a b" using picks_leastD(1) [OF "3.prems"(1) that order_refl] .
  moreover have "b \<le> a" if "\<not> le a b" using picks_leastD(2) [OF "3.prems"(1) that order_refl] .
  ultimately show ?case using 3 by (auto dest: picks_leastD)
qed auto

section \<open>Writing a list into an array\<close>

text \<open>\<open>blit xs k ys\<close> assigns \<open>ys\<close> to positions \<open>k\<close>, \<open>k+1\<close>, ... of the list \<open>xs\<close>; \<open>wr\<close> does the same for
  a scratch array, a function of the index.\<close>

fun blit :: "'a list \<Rightarrow> nat \<Rightarrow> 'a list \<Rightarrow> 'a list" where
  "blit xs k [] = xs"
| "blit xs k (y # ys) = blit (xs[k := y]) (Suc k) ys"

fun wr :: "(nat \<Rightarrow> 'a) \<Rightarrow> nat \<Rightarrow> 'a list \<Rightarrow> (nat \<Rightarrow> 'a)" where
  "wr t k [] = t"
| "wr t k (y # ys) = wr (t(k := y)) (Suc k) ys"

lemma blit_append: "blit xs k (ys @ zs) = blit (blit xs k ys) (k + length ys) zs"
  by (induction xs k ys rule: blit.induct) auto

lemma wr_append: "wr t k (ys @ zs) = wr (wr t k ys) (k + length ys) zs"
  by (induction t k ys rule: wr.induct) (auto simp: fun_upd_def)

lemma blit_result: "k + length ys \<le> length xs \<Longrightarrow> blit xs k ys = take k xs @ ys @ drop (k + length ys) xs"
proof (induction xs k ys rule: blit.induct)
  case (2 xs k y ys)
  then show ?case by (simp add: take_Suc_conv_app_nth drop_update_swap)
qed simp

lemma wr_low [simp]: "i < k \<Longrightarrow> wr t k ys i = t i"
  by (induction t k ys rule: wr.induct) (auto simp: fun_upd_def)

lemma wr_nth [simp]: "i < length ys \<Longrightarrow> wr t k ys (k + i) = ys ! i"
proof (induction t k ys arbitrary: i rule: wr.induct)
  case (2 t k y ys)
  then show ?case using "2.IH" [of "i - 1"] by (cases i) (auto simp: fun_upd_def)
qed simp

lemma map_wr: "map (wr t k ys) [k..<k + length ys] = ys"
  by (rule nth_equalityI) auto

lemma sorts_seg_blit:
  assumes "i \<le> j" "j \<le> length xs" "mset ys = mset (seg xs i j)" "sorted ys"
  shows "sorts_seg xs (blit xs i ys) i j"
proof -
  have len: "length ys = j - i" using assms(2,3) by (metis length_seg size_mset)
  then have b: "blit xs i ys = take i xs @ ys @ drop j xs"
    using assms(1,2) by (simp add: blit_result)
  have "seg (take i xs @ ys @ drop j xs) i j = ys"
    using assms(1,2) len by (simp add: seg_def)
  with b assms len show ?thesis by (simp add: sorts_seg_def)
qed

section \<open>The contract of a merge routine\<close>

text \<open>
  \<open>mrg xs low mid high\<close> merges the sorted segments \<open>low..mid\<close> and \<open>mid+1..high\<close> (bounds inclusive, as the
  programs write them). \<open>combine\<close> is the step every merge sort of the repository takes.
\<close>

locale merge_routine =
  fixes mrg :: "int list \<Rightarrow> nat \<Rightarrow> nat \<Rightarrow> nat \<Rightarrow> int list"
  assumes mrg_sorts:
    "low \<le> mid \<Longrightarrow> mid < high \<Longrightarrow> high < length xs \<Longrightarrow> mid = low + (high - low) div 2 \<Longrightarrow>
     sorted (seg xs low (Suc mid)) \<Longrightarrow> sorted (seg xs (Suc mid) (Suc high)) \<Longrightarrow>
     sorts_seg xs (mrg xs low mid high) low (Suc high)"
begin

lemma combine:
  assumes "low \<le> mid" "mid < high" "high < length xs" "mid = low + (high - low) div 2"
    and 1: "sorts_seg xs ys low (Suc mid)" and 2: "sorts_seg ys zs (Suc mid) (Suc high)"
  shows "sorts_seg xs (mrg zs low mid high) low (Suc high)"
proof -
  have len: "length ys = length xs" "length zs = length xs"
    using 1 2 by (simp_all add: sorts_seg_def)
  have left: "seg zs low (Suc mid) = seg ys low (Suc mid)"
    using 2 by (intro seg_eq_before [of "Suc mid"]) (auto simp: sorts_seg_def)
  have right: "seg ys (Suc mid) (Suc high) = seg xs (Suc mid) (Suc high)"
    using 1 by (intro seg_eq_after [of "Suc mid"]) (auto simp: sorts_seg_def)
  have m: "sorts_seg zs (mrg zs low mid high) low (Suc high)"
    using assms len left by (intro mrg_sorts) (auto simp: sorts_seg_def)
  have "mset (seg zs low (Suc high)) = mset (seg zs low (Suc mid)) + mset (seg zs (Suc mid) (Suc high))"
    using assms(1,2) by (simp flip: mset_append add: seg_append)
  also have "\<dots> = mset (seg xs low (Suc mid)) + mset (seg xs (Suc mid) (Suc high))"
    using 1 2 left right by (simp add: sorts_seg_def)
  also have "\<dots> = mset (seg xs low (Suc high))"
    using assms(1,2) by (simp flip: mset_append add: seg_append)
  finally have "mset (seg zs low (Suc high)) = mset (seg xs low (Suc high))" .
  moreover have "take low zs = take low xs"
    using 1 2 assms(1) by (metis le_SucI sorts_seg_def take_eq_take)
  moreover have "drop (Suc high) zs = drop (Suc high) xs"
    using 1 2 assms(2) by (metis Suc_le_mono drop_eq_drop less_imp_le sorts_seg_def)
  ultimately show ?thesis using m len by (simp add: sorts_seg_def)
qed

end

end
