(* ===== verification/MergeSort.thy ===== *)
theory MergeSort
  imports ArraySort
begin

text \<open>
  The three merge sorts of Assignment4: \<open>q3_normal.c\<close> (recursive), \<open>q3_forked.c\<close> (one process per left
  half, on a shared memory array) and \<open>q3_threaded.c\<close> (two threads per level). Arrays are lists of
  \<open>int\<close>; array bounds are naturals, except that the upper bound of an empty array is -1.
\<close>

section \<open>q3_normal.c\<close>

text \<open>The main loop of \<open>mergeSort\<close>: \<open>lo\<close> and \<open>mi\<close> run over the two halves, \<open>i\<close> over \<open>temp\<close>.\<close>

function merge_scan ::
  "int list \<Rightarrow> nat \<Rightarrow> nat \<Rightarrow> nat \<Rightarrow> nat \<Rightarrow> nat \<Rightarrow> (nat \<Rightarrow> int) \<Rightarrow> nat \<times> nat \<times> nat \<times> (nat \<Rightarrow> int)"
where
  "merge_scan xs mid high lo mi i temp =
     (if lo \<le> mid \<and> mi \<le> high then
        (if xs ! lo \<le> xs ! mi
         then merge_scan xs mid high (lo + 1) mi (i + 1) (temp(i := xs ! lo))
         else merge_scan xs mid high lo (mi + 1) (i + 1) (temp(i := xs ! mi)))
      else (lo, mi, i, temp))"
  by pat_completeness auto
termination
  by (relation "measure (\<lambda>(xs, mid, high, lo, mi, i, temp). (Suc mid - lo) + (Suc high - mi))") auto

text \<open>\<open>for (k = k; k <= last; k++) temp[i++] = list[k]\<close>\<close>

function copy_run :: "int list \<Rightarrow> nat \<Rightarrow> nat \<Rightarrow> nat \<Rightarrow> (nat \<Rightarrow> int) \<Rightarrow> (nat \<Rightarrow> int)" where
  "copy_run xs k lst i temp =
     (if k \<le> lst then copy_run xs (k + 1) lst (i + 1) (temp(i := xs ! k)) else temp)"
  by pat_completeness auto
termination
  by (relation "measure (\<lambda>(xs, k, lst, i, temp). Suc lst - k)") auto

text \<open>\<open>for (k = k; k <= high; k++) list[k] = temp[off + k - low]\<close>\<close>

function copy_back :: "(nat \<Rightarrow> int) \<Rightarrow> nat \<Rightarrow> nat \<Rightarrow> nat \<Rightarrow> int list \<Rightarrow> int list" where
  "copy_back temp t k high xs =
     (if k \<le> high then copy_back temp (t + 1) (k + 1) high (xs[k := temp t]) else xs)"
  by pat_completeness auto
termination
  by (relation "measure (\<lambda>(temp, t, k, high, xs). Suc high - k)") auto

declare merge_scan.simps [simp del] copy_run.simps [simp del] copy_back.simps [simp del]

definition mergeSort_n :: "(nat \<Rightarrow> int) \<Rightarrow> int list \<Rightarrow> nat \<Rightarrow> nat \<Rightarrow> nat \<Rightarrow> int list" where
  \<comment> \<open>\<open>junk\<close> is the uninitialised content of \<open>temp[MAX]\<close>\<close>
  "mergeSort_n junk xs low mid high =
     (let (lo, mi, i, temp) = merge_scan xs mid high low (mid + 1) low junk;
          temp' = (if lo > mid then copy_run xs mi high i temp else copy_run xs lo mid i temp)
      in copy_back temp' low low high xs)"

function partition_n :: "(nat \<Rightarrow> int) \<Rightarrow> int list \<Rightarrow> nat \<Rightarrow> int \<Rightarrow> int list" where
  "partition_n junk xs low high =
     (if int low < high then
        (let mid = nat ((int low + high) div 2)
         in mergeSort_n junk
              (partition_n junk (partition_n junk xs low (int mid)) (mid + 1) high)
              low mid (nat high))
      else xs)"
  by pat_completeness auto
termination
  by (relation "measure (\<lambda>(junk, xs, low, high). nat (high - int low))") auto

declare partition_n.simps [simp del]

section \<open>q3_forked.c\<close>

function f_scan :: "int list \<Rightarrow> int list \<Rightarrow> nat \<Rightarrow> nat \<Rightarrow> nat \<Rightarrow> int list \<Rightarrow> nat \<times> nat \<times> nat \<times> int list" where
  "f_scan A B i j k xs =
     (if i < length A \<and> j < length B then
        (if A ! i < B ! j then f_scan A B (i + 1) j (k + 1) (xs[k := A ! i])
         else f_scan A B i (j + 1) (k + 1) (xs[k := B ! j]))
      else (i, j, k, xs))"
  by pat_completeness auto
termination
  by (relation "measure (\<lambda>(A, B, i, j, k, xs). (length A - i) + (length B - j))") auto

text \<open>\<open>while(i < low) shArray[k++] = shArray1[i++]\<close>: the array and the next \<open>k\<close>.\<close>

function f_tail :: "int list \<Rightarrow> nat \<Rightarrow> nat \<Rightarrow> int list \<Rightarrow> nat \<times> int list" where
  "f_tail A i k xs = (if i < length A then f_tail A (i + 1) (k + 1) (xs[k := A ! i]) else (k, xs))"
  by pat_completeness auto
termination
  by (relation "measure (\<lambda>(A, i, k, xs). length A - i)") auto

declare f_scan.simps [simp del] f_tail.simps [simp del]

definition merge_f :: "int list \<Rightarrow> nat \<Rightarrow> nat \<Rightarrow> nat \<Rightarrow> int list" where
  "merge_f xs left mid right =
     (let A = seg xs left (mid + 1); B = seg xs (mid + 1) (right + 1);
          (i, j, k, xs1) = f_scan A B 0 0 left xs;
          (k2, xs2) = f_tail A i k xs1
      in snd (f_tail B j k2 xs2))"

text \<open>The base case is a selection sort. Its exchange is
  \<open>a[m] = a[m] + a[p1] - (a[p1] = a[m])\<close>: the sum is read before the inner assignment is stored, and
  \<open>int\<close> arithmetic wraps at 32 bits.\<close>

definition sel_swap :: "int list \<Rightarrow> nat \<Rightarrow> nat \<Rightarrow> int list" where
  "sel_swap xs mn p1 =
     (let a = xs ! mn; v = wrap32 (wrap32 (a + xs ! p1) - a) in (xs[p1 := a])[mn := v])"

function sel_min :: "int list \<Rightarrow> nat \<Rightarrow> int \<Rightarrow> nat \<Rightarrow> nat" where
  "sel_min xs p2 right mn =
     (if int p2 \<le> right then sel_min xs (p2 + 1) right (if xs ! p2 < xs ! mn then p2 else mn) else mn)"
  by pat_completeness auto
termination
  by (relation "measure (\<lambda>(xs, p2, right, mn). nat (right + 1 - int p2))") auto

function sel_sort :: "int list \<Rightarrow> nat \<Rightarrow> int \<Rightarrow> int list" where
  "sel_sort xs p1 right =
     (if int p1 < right then sel_sort (sel_swap xs (sel_min xs (p1 + 1) right p1) p1) (p1 + 1) right
      else xs)"
  by pat_completeness auto
termination
  by (relation "measure (\<lambda>(xs, p1, right). nat (right - int p1))") auto

declare sel_min.simps [simp del] sel_sort.simps [simp del]

text \<open>
  \<open>merge_sort\<close>: \<open>forks c\<close> is whether the \<open>c\<close>-th \<open>fork\<close> of the run succeeds. The child sorts the left half
  in the shared array and exits; the parent waits for it, whatever its exit status, and goes on. The
  result is the array, the number of forks so far, and whether the process that ran the call is still
  there (\<open>False\<close>: it called \<open>exit(1)\<close> after a failed fork).
\<close>

function merge_sort_f :: "(nat \<Rightarrow> bool) \<Rightarrow> nat \<Rightarrow> int \<Rightarrow> int list \<times> nat \<Rightarrow> int list \<times> nat \<times> bool" where
  "merge_sort_f forks left right (xs, c) =
     (if right - int left < 2 then (sel_sort xs left right, c, True)
      else
        (let mid = left + nat ((right - int left) div 2) in
         if \<not> forks c then (xs, c + 1, False)
         else
           (let (xs1, c1, child) = merge_sort_f forks left (int mid) (xs, c + 1);
                (xs2, c2, alive) = merge_sort_f forks (mid + 1) right (xs1, c1)
            in if \<not> alive then (xs2, c2, False)
               else (merge_f xs2 left mid (nat right), c2, True))))"
  by pat_completeness auto
termination
  by (relation "measure (\<lambda>(forks, left, right, s). nat (right - int left))") auto

declare merge_sort_f.simps [simp del]

section \<open>q3_threaded.c\<close>

definition my_comp :: "int \<Rightarrow> int \<Rightarrow> int" where
  "my_comp l r = (if l < r then - 1 else if l = r then 0 else 1)"

definition merge_t :: "(nat \<Rightarrow> int) \<Rightarrow> int list \<Rightarrow> nat \<Rightarrow> nat \<Rightarrow> int list" where
  \<comment> \<open>\<open>junk\<close> is the content of the \<open>malloc\<close>ed array\<close>
  "merge_t junk data left right =
     (let mid = left + (right - left) div 2;
          (i, j, ctr, c) = merge_scan data mid right left (mid + 1) 0 junk;
          c' = (if i = mid + 1 then copy_run data j right ctr c else copy_run data i mid ctr c)
      in copy_back c' 0 left right data)"

text \<open>
  \<open>qsort\<close> is the C library's: \<open>qs cmp s\<close> is what it leaves in a segment \<open>s\<close>. An action of a thread is a
  change of the array; a run of the program is the list of its actions in the order in which they
  happen. \<open>thread_run\<close> gives the runs of \<open>merge_sort_threaded\<close> on \<open>l..r\<close>, \<open>half_run\<close> those of one of its
  two halves: done by a new thread, or by the parent with \<open>qsort\<close> when \<open>pthread_create\<close> fails. The two
  halves run at the same time, so their actions interleave in any way (\<open>shuffles\<close>); the merge comes
  after both have been joined.
\<close>

type_synonym action = "int list \<Rightarrow> int list"

definition MIN_LENGTH :: int where
  "MIN_LENGTH = 5"

definition qsort_act :: "((int \<Rightarrow> int \<Rightarrow> int) \<Rightarrow> int list \<Rightarrow> int list) \<Rightarrow> nat \<Rightarrow> nat \<Rightarrow> action" where
  "qsort_act qs base n =
     (\<lambda>xs. take base xs @ qs my_comp (seg xs base (base + n)) @ drop (base + n) xs)"

inductive thread_run and half_run
  for qs :: "(int \<Rightarrow> int \<Rightarrow> int) \<Rightarrow> int list \<Rightarrow> int list" and junk :: "nat \<Rightarrow> int"
where
  short: "r - int l + 1 \<le> MIN_LENGTH \<Longrightarrow> thread_run qs junk l r [qsort_act qs l (nat (r - int l + 1))]"
| split: "\<not> r - int l + 1 \<le> MIN_LENGTH \<Longrightarrow> m = l + nat ((r - int l) div 2) \<Longrightarrow>
     half_run qs junk l (int m) t0 \<Longrightarrow> half_run qs junk (m + 1) r t1 \<Longrightarrow> t \<in> shuffles t0 t1 \<Longrightarrow>
     thread_run qs junk l r (t @ [\<lambda>xs. merge_t junk xs l (nat r)])"
| created: "thread_run qs junk l r t \<Longrightarrow> half_run qs junk l r t"
| not_created: "half_run qs junk l r [qsort_act qs l (nat (r - int l + 1))]"

text \<open>\<open>merge_sort\<close> on the whole array; the flag says whether the handle given to \<open>pthread_join\<close> was set.\<close>

inductive merge_sort_run
  for qs :: "(int \<Rightarrow> int \<Rightarrow> int) \<Rightarrow> int list \<Rightarrow> int list" and junk :: "nat \<Rightarrow> int"
where
  main_created: "thread_run qs junk l r t \<Longrightarrow> merge_sort_run qs junk l r t True"
| main_failed: "merge_sort_run qs junk l r [qsort_act qs l (nat (r - int l + 1))] False"

inductive_cases thread_runE: "thread_run qs junk l r t"
inductive_cases half_runE: "half_run qs junk l r t"

fun run_actions :: "action list \<Rightarrow> int list \<Rightarrow> int list" where
  "run_actions [] xs = xs"
| "run_actions (a # as) xs = run_actions as (a xs)"

section \<open>Merging\<close>

lemma copy_run_wr:
  "lst < length xs \<Longrightarrow> copy_run xs k lst i temp = wr temp i (seg xs k (Suc lst))"
proof (induction xs k lst i temp rule: copy_run.induct)
  case (1 xs k lst i temp)
  then show ?case
    by (cases "k \<le> lst") (auto simp: copy_run.simps [of xs k] seg_Cons fun_upd_def)
qed

lemma copy_back_blit: "copy_back temp t k high xs = blit xs k (map temp [t..<t + (Suc high - k)])"
proof (induction temp t k high xs rule: copy_back.induct)
  case (1 temp t k high xs)
  show ?case
  proof (cases "k \<le> high")
    case True
    then have "[t..<t + (Suc high - k)] = t # [Suc t..<Suc t + (Suc high - Suc k)]"
      using upt_conv_Cons [of t "t + (Suc high - k)"] by (simp add: Suc_diff_le)
    then show ?thesis using 1 True by (simp add: copy_back.simps [of temp t k])
  next
    case False
    then show ?thesis by (simp add: copy_back.simps [of temp t k])
  qed
qed

definition scan_rest :: "int list \<Rightarrow> nat \<Rightarrow> nat \<Rightarrow> nat \<times> nat \<times> nat \<times> (nat \<Rightarrow> int) \<Rightarrow> (nat \<Rightarrow> int)" where
  "scan_rest xs mid high = (\<lambda>(lo, mi, i, temp).
     if lo > mid then copy_run xs mi high i temp else copy_run xs lo mid i temp)"

lemma merge_scan_lmerge:
  assumes "mid < length xs" "high < length xs"
  shows "scan_rest xs mid high (merge_scan xs mid high lo mi i temp) =
    wr temp i (lmerge (\<lambda>a b. a \<le> b) (seg xs lo (Suc mid)) (seg xs mi (Suc high)))"
  using assms
proof (induction xs mid high lo mi i temp rule: merge_scan.induct)
  case (1 xs mid high lo mi i temp)
  show ?case
  proof (cases "lo \<le> mid \<and> mi \<le> high")
    case True
    then have "seg xs lo (Suc mid) = xs ! lo # seg xs (Suc lo) (Suc mid)"
      "seg xs mi (Suc high) = xs ! mi # seg xs (Suc mi) (Suc high)"
      using "1.prems" by (simp_all add: seg_Cons)
    then show ?thesis using 1 True by (simp add: merge_scan.simps [of xs mid high lo mi] fun_upd_def)
  next
    case False
    then have "merge_scan xs mid high lo mi i temp = (lo, mi, i, temp)"
      by (auto simp: merge_scan.simps [of xs mid high lo mi])
    then show ?thesis using False "1.prems" by (auto simp: scan_rest_def copy_run_wr)
  qed
qed

lemma merge_scan_lo_le: "lo \<le> Suc mid \<Longrightarrow> fst (merge_scan xs mid high lo mi i temp) \<le> Suc mid"
proof (induction xs mid high lo mi i temp rule: merge_scan.induct)
  case (1 xs mid high lo mi i temp)
  then show ?case
    by (cases "lo \<le> mid \<and> mi \<le> high")
      (auto simp: merge_scan.simps [of xs mid high lo mi] fun_upd_def)
qed

lemma mergeSort_n_blit:
  assumes "low \<le> mid" "mid < high" "high < length xs"
  shows "mergeSort_n junk xs low mid high =
    blit xs low (lmerge (\<lambda>a b. a \<le> b) (seg xs low (Suc mid)) (seg xs (Suc mid) (Suc high)))"
    (is "_ = blit xs low ?ys")
proof -
  have "mergeSort_n junk xs low mid high =
      copy_back (scan_rest xs mid high (merge_scan xs mid high low (Suc mid) low junk)) low low high xs"
    by (simp add: mergeSort_n_def scan_rest_def case_prod_beta Let_def)
  also have "\<dots> = blit xs low (map (wr junk low ?ys) [low..<low + length ?ys])"
    using assms by (simp add: merge_scan_lmerge copy_back_blit)
  finally show ?thesis by (simp only: map_wr)
qed

lemma merge_t_blit:
  assumes "mid = left + (right - left) div 2" "left < right" "right < length xs"
  shows "merge_t junk xs left right =
    blit xs left (lmerge (\<lambda>a b. a \<le> b) (seg xs left (Suc mid)) (seg xs (Suc mid) (Suc right)))"
    (is "_ = blit xs left ?ys")
proof -
  have mid: "left \<le> mid" "mid < right" using assms(1,2) by auto
  have "fst (merge_scan xs mid right left (Suc mid) 0 junk) \<le> Suc mid"
    using mid by (intro merge_scan_lo_le) simp
  then have "merge_t junk xs left right =
      copy_back (scan_rest xs mid right (merge_scan xs mid right left (Suc mid) 0 junk)) 0 left right xs"
    using assms(1) by (auto simp: merge_t_def scan_rest_def case_prod_beta Let_def)
  also have "\<dots> = blit xs left (map (wr junk 0 ?ys) [0..<0 + length ?ys])"
    using mid assms(3) by (simp add: merge_scan_lmerge copy_back_blit)
  finally show ?thesis by (simp only: map_wr)
qed

lemma f_tail_blit: "f_tail A i k xs = (k + (length A - i), blit xs k (drop i A))"
proof (induction A i k xs rule: f_tail.induct)
  case (1 A i k xs)
  then show ?case
    by (cases "i < length A") (simp_all add: f_tail.simps [of A i] flip: Cons_nth_drop_Suc)
qed

lemma f_scan_lmerge:
  "(case f_scan A B i j k xs of (i, j, k, xs1) \<Rightarrow>
      case f_tail A i k xs1 of (k2, xs2) \<Rightarrow> snd (f_tail B j k2 xs2)) =
   blit xs k (lmerge (\<lambda>a b. a < b) (drop i A) (drop j B))"
proof (induction A B i j k xs rule: f_scan.induct)
  case (1 A B i j k xs)
  show ?case
  proof (cases "i < length A \<and> j < length B")
    case True
    then have "drop i A = A ! i # drop (Suc i) A" "drop j B = B ! j # drop (Suc j) B"
      by (simp_all add: Cons_nth_drop_Suc)
    then show ?thesis using 1 True by (simp add: f_scan.simps [of A B i j])
  next
    case False
    then have "drop i A = [] \<or> drop j B = []" by auto
    with False show ?thesis
      by (auto simp: f_scan.simps [of A B i j] f_tail_blit)
  qed
qed

lemma merge_f_blit:
  "merge_f xs left mid right =
     blit xs left (lmerge (\<lambda>a b. a < b) (seg xs left (Suc mid)) (seg xs (Suc mid) (Suc right)))"
  using f_scan_lmerge [where A = "seg xs left (Suc mid)" and B = "seg xs (Suc mid) (Suc right)"
      and i = 0 and j = 0 and k = left and xs = xs]
  by (simp add: merge_f_def Let_def)

lemma blit_lmerge_sorts:
  assumes "picks_least le" "low \<le> mid" "mid < high" "high < length xs"
    "sorted (seg xs low (Suc mid))" "sorted (seg xs (Suc mid) (Suc high))"
  shows "sorts_seg xs (blit xs low (lmerge le (seg xs low (Suc mid)) (seg xs (Suc mid) (Suc high)))) low (Suc high)"
proof (rule sorts_seg_blit)
  have "seg xs low (Suc high) = seg xs low (Suc mid) @ seg xs (Suc mid) (Suc high)"
    using assms(2,3) by (simp add: seg_append)
  then show "mset (lmerge le (seg xs low (Suc mid)) (seg xs (Suc mid) (Suc high))) = mset (seg xs low (Suc high))"
    by simp
qed (use assms in \<open>auto intro: sorted_lmerge\<close>)

lemma picks_least_le_less: "picks_least (\<lambda>a b. (a::int) \<le> b)" "picks_least (\<lambda>a b. (a::int) < b)"
  by (auto simp: picks_least_def)

interpretation normal: merge_routine "mergeSort_n junk" for junk
  by unfold_locales (simp add: mergeSort_n_blit blit_lmerge_sorts picks_least_le_less)

interpretation forked: merge_routine merge_f
  by unfold_locales (simp add: merge_f_blit blit_lmerge_sorts picks_least_le_less)

interpretation threaded: merge_routine "\<lambda>xs low mid high. merge_t junk xs low high" for junk
proof
  fix low mid high and xs :: "int list"
  assume *: "low \<le> mid" "mid < high" "high < length xs" "mid = low + (high - low) div 2"
    "sorted (seg xs low (Suc mid))" "sorted (seg xs (Suc mid) (Suc high))"
  then have "low < high" by simp
  from blit_lmerge_sorts [OF picks_least_le_less(1) *(1,2,3,5,6)]
  show "sorts_seg xs (merge_t junk xs low high) low (Suc high)"
    by (simp only: merge_t_blit [OF *(4) \<open>low < high\<close> *(3)])
qed

section \<open>The recursive sort\<close>

lemma partition_n_sorts:
  "high < int (length xs) \<Longrightarrow> sorts_seg xs (partition_n junk xs low high) low (nat (high + 1))"
proof (induction junk xs low high rule: partition_n.induct)
  case (1 junk xs low high)
  show ?case
  proof (cases "int low < high")
    case False
    then have "nat (high + 1) \<le> Suc low" by simp
    with False show ?thesis by (simp add: partition_n.simps [of junk xs low] sorts_seg_trivial)
  next
    case True
    define mid where "mid = nat ((int low + high) div 2)"
    define ys where "ys = partition_n junk xs low (int mid)"
    define zs where "zs = partition_n junk ys (mid + 1) high"
    have mid: "low \<le> mid" "int mid < high" "mid = low + (nat high - low) div 2"
      using True by (auto simp: mid_def nat_diff_distrib nat_add_distrib nat_div_distrib)
    from mid(2) have mid': "mid < nat high" by linarith
    have 1: "sorts_seg xs ys low (Suc mid)"
      using "1.IH"(1) [OF True mid_def] mid "1.prems" by (simp add: ys_def nat_add_distrib)
    then have len: "length ys = length xs" by (rule sorts_seg_length)
    have 2: "sorts_seg ys zs (Suc mid) (Suc (nat high))"
      using "1.IH"(2) [OF True mid_def] mid "1.prems" len True
      by (simp add: ys_def zs_def nat_add_distrib)
    have "sorts_seg xs (mergeSort_n junk zs low mid (nat high)) low (Suc (nat high))"
      by (rule normal.combine [OF mid(1) mid' _ mid(3) 1 2]) (use "1.prems" True in auto)
    moreover have "partition_n junk xs low high = mergeSort_n junk zs low mid (nat high)"
      by (subst partition_n.simps) (simp only: True if_True Let_def ys_def zs_def mid_def)
    moreover have "nat (high + 1) = Suc (nat high)" using True by simp
    ultimately show ?thesis by simp
  qed
qed

section \<open>The forked sort\<close>

lemma sel_swap_exchanges:
  assumes "in_int32 (xs ! p1)"
  shows "sel_swap xs mn p1 = (xs[p1 := xs ! mn])[mn := xs ! p1]"
  using assms by (simp add: sel_swap_def Let_def wrap32_diff_wrap32 wrap32_in_range)

lemma sel_sort_two:
  assumes "right - int left < 2" "right < int (length xs)" "\<forall>x \<in> set xs. in_int32 x"
  shows "sorts_seg xs (sel_sort xs left right) left (nat (right + 1))"
proof (cases "right = int left + 1")
  case False
  then have "\<not> int left < right" using assms(1) by simp
  moreover from this have "nat (right + 1) \<le> Suc left" by simp
  ultimately show ?thesis by (simp add: sel_sort.simps sorts_seg_trivial)
next
  case True
  let ?mn = "if xs ! Suc left < xs ! left then Suc left else left"
  have left: "Suc left < length xs" using True assms(2) by simp
  have mn: "sel_min xs (left + 1) right left = ?mn"
    using True by (simp add: sel_min.simps)
  have "sel_sort xs left right = sel_swap xs ?mn left"
    using True mn by (simp add: sel_sort.simps [of _ left] sel_sort.simps [of _ "Suc left"])
  also have "\<dots> = (xs[left := xs ! ?mn])[?mn := xs ! left]"
    using assms(3) left by (intro sel_swap_exchanges) simp
  also have "\<dots> = blit xs left (if xs ! Suc left < xs ! left then [xs ! Suc left, xs ! left]
      else [xs ! left, xs ! Suc left])"
    by (simp add: list_update_id)
  finally have "sel_sort xs left right = blit xs left (if xs ! Suc left < xs ! left
      then [xs ! Suc left, xs ! left] else [xs ! left, xs ! Suc left])" (is "_ = blit xs left ?l") .
  moreover have "seg xs left (Suc (Suc left)) = [xs ! left, xs ! Suc left]"
    using left by (simp add: seg_Cons)
  then have "sorts_seg xs (blit xs left ?l) left (Suc (Suc left))"
    using left by (intro sorts_seg_blit) (auto simp: add_mset_commute)
  moreover have "nat (right + 1) = Suc (Suc left)" using True by simp
  ultimately show ?thesis by (simp only:)
qed

lemma merge_sort_f_sorts:
  assumes "\<And>c. forks c" "right < int (length xs)" "\<forall>x \<in> set xs. in_int32 x"
    "merge_sort_f forks left right (xs, c) = (ys, c', alive)"
  shows "alive \<and> sorts_seg xs ys left (nat (right + 1))"
  using assms
proof (induction forks left right "(xs, c)" arbitrary: xs c ys c' alive rule: merge_sort_f.induct)
  case (1 forks left right xs c)
  show ?case
  proof (cases "right - int left < 2")
    case True
    then show ?thesis
      using sel_sort_two [OF True "1.prems"(2,3)] "1.prems"(4)
      by (auto simp: merge_sort_f.simps [of forks left])
  next
    case False
    define mid where "mid = left + nat ((right - int left) div 2)"
    obtain xs1 c1 ch where l: "merge_sort_f forks left (int mid) (xs, c + 1) = (xs1, c1, ch)"
      by (rule prod_cases3)
    obtain xs2 c2 al where r: "merge_sort_f forks (mid + 1) right (xs1, c1) = (xs2, c2, al)"
      by (rule prod_cases3)
    have mid: "left \<le> mid" "int mid < right" "mid = left + (nat right - left) div 2"
      using False by (auto simp: mid_def nat_diff_distrib nat_div_distrib)
    have f: "\<not> \<not> forks c" using "1.prems"(1) by simp
    have s1: "sorts_seg xs xs1 left (Suc mid)"
      using "1.hyps"(1) [OF False mid_def f "1.prems"(1) _ "1.prems"(3) l] mid "1.prems"(2)
      by (simp add: nat_add_distrib)
    then have len: "length xs1 = length xs" by (rule sorts_seg_length)
    have "set xs1 = set xs"
      using sorts_seg_mset [OF s1] mid "1.prems"(2) by (auto dest: mset_eq_setD)
    then have s2: "al \<and> sorts_seg xs1 xs2 (Suc mid) (Suc (nat right))"
      using "1.hyps"(2) [OF False mid_def f l [symmetric] refl refl "1.prems"(1) _ _ r] "1.prems"(2,3) len mid
      by (simp add: nat_add_distrib)
    then have "(ys, c', alive) = (merge_f xs2 left mid (nat right), c2, True)"
      using "1.prems"(4) False f l r
      by (simp add: merge_sort_f.simps [of forks left] mid_def [symmetric] Let_def)
    moreover have "sorts_seg xs (merge_f xs2 left mid (nat right)) left (Suc (nat right))"
    proof (rule forked.combine [OF mid(1) _ _ mid(3) s1])
      show "mid < nat right" using mid(2) by linarith
      show "nat right < length xs" using mid(2) "1.prems"(2) by linarith
      show "sorts_seg xs1 xs2 (Suc mid) (Suc (nat right))" using s2 by simp
    qed
    moreover have "nat (right + 1) = Suc (nat right)" using False mid by simp
    ultimately show ?thesis by simp
  qed
qed

section \<open>The threaded sort\<close>

text \<open>An action works on a segment: it changes nothing outside and depends on nothing outside.\<close>

definition acts_on :: "action \<Rightarrow> nat \<Rightarrow> nat \<Rightarrow> bool" where
  "acts_on a l h \<longleftrightarrow>
     (\<exists>f. (\<forall>s. length s = h - l \<longrightarrow> length (f s) = h - l) \<and>
       (\<forall>xs. h \<le> length xs \<longrightarrow> a xs = take l xs @ f (seg xs l h) @ drop h xs))"

lemma acts_onI:
  assumes "\<And>s. length s = h - l \<Longrightarrow> length (f s) = h - l"
    "\<And>xs. h \<le> length xs \<Longrightarrow> a xs = take l xs @ f (seg xs l h) @ drop h xs"
  shows "acts_on a l h"
  using assms by (auto simp: acts_on_def)

lemma acts_on_length: "acts_on a l h \<Longrightarrow> l \<le> h \<Longrightarrow> h \<le> length xs \<Longrightarrow> length (a xs) = length xs"
  by (auto simp: acts_on_def)

lemma acts_on_widen:
  assumes "acts_on a l h" "l' \<le> l" "l \<le> h" "h \<le> h'"
  shows "acts_on a l' h'"
proof -
  obtain f where f: "\<And>s. length s = h - l \<Longrightarrow> length (f s) = h - l"
      "\<And>xs. h \<le> length xs \<Longrightarrow> a xs = take l xs @ f (seg xs l h) @ drop h xs"
    using assms(1) by (auto simp: acts_on_def)
  define g where "g s = take (l - l') s @ f (seg s (l - l') (h - l')) @ drop (h - l') s" for s
  show ?thesis
  proof (rule acts_onI [of _ _ g])
    fix s :: "int list"
    assume "length s = h' - l'"
    then show "length (g s) = h' - l'"
      using assms(2-4) f(1) [of "seg s (l - l') (h - l')"] by (simp add: g_def)
  next
    fix xs :: "int list"
    assume len: "h' \<le> length xs"
    have "take l xs = take l' xs @ take (l - l') (seg xs l' h')"
      using assms(2-4) len seg_append [of 0 l' l xs] by (simp add: seg_def min_def)
    moreover have "seg (seg xs l' h') (l - l') (h - l') = seg xs l h"
      using assms(2-4) len by (intro nth_equalityI) (auto simp: seg_nth)
    moreover have "drop h xs = drop (h - l') (seg xs l' h') @ drop h' xs"
      using assms(2-4) len drop_split_seg [of h h' xs] by (simp add: seg_def drop_take)
    ultimately show "a xs = take l' xs @ g (seg xs l' h') @ drop h' xs"
      using f(2) [of xs] assms(2-4) len by (simp add: g_def)
  qed
qed

lemma acts_on_commute:
  assumes "acts_on a l m" "acts_on b m h" "l \<le> m" "m \<le> h" "h \<le> length xs"
  shows "a (b xs) = b (a xs)"
proof -
  obtain f where f: "\<And>s. length s = m - l \<Longrightarrow> length (f s) = m - l"
      "\<And>xs. m \<le> length xs \<Longrightarrow> a xs = take l xs @ f (seg xs l m) @ drop m xs"
    using assms(1) by (auto simp: acts_on_def)
  obtain g where g: "\<And>s. length s = h - m \<Longrightarrow> length (g s) = h - m"
      "\<And>xs. h \<le> length xs \<Longrightarrow> b xs = take m xs @ g (seg xs m h) @ drop h xs"
    using assms(2) by (auto simp: acts_on_def)
  obtain p q r t where xs: "xs = p @ q @ r @ t" "length p = l" "length q = m - l" "length r = h - m"
  proof
    show "xs = take l xs @ seg xs l m @ seg xs m h @ drop h xs"
      using assms(3,4) by (simp flip: drop_split_seg)
  qed (use assms(3-5) in auto)
  have A: "a (p @ q @ u @ t) = p @ f q @ u @ t" if "length u = h - m" for u
    using f(2) [of "p @ q @ u @ t"] xs assms(3) that by (simp add: seg_def)
  have B: "b (p @ v @ r @ t) = p @ v @ g r @ t" if "length v = m - l" for v
    using g(2) [of "p @ v @ r @ t"] xs assms(3,4) that by (simp add: seg_def)
  show ?thesis
    unfolding xs(1) using A B f(1) [of q] g(1) [of r] xs by simp
qed

definition all_act_on :: "action list \<Rightarrow> nat \<Rightarrow> nat \<Rightarrow> bool" where
  "all_act_on t l h \<longleftrightarrow> (\<forall>a \<in> set t. acts_on a l h)"

lemma run_actions_append: "run_actions (s @ t) xs = run_actions t (run_actions s xs)"
  by (induction s arbitrary: xs) auto

lemma run_actions_length:
  "all_act_on t l h \<Longrightarrow> l \<le> h \<Longrightarrow> h \<le> length xs \<Longrightarrow> length (run_actions t xs) = length xs"
  by (induction t arbitrary: xs) (auto simp: all_act_on_def acts_on_length)

lemma run_actions_commute:
  assumes "acts_on b m h" "all_act_on t l m" "l \<le> m" "m \<le> h" "h \<le> length xs"
  shows "run_actions t (b xs) = b (run_actions t xs)"
  using assms
proof (induction t arbitrary: xs)
  case (Cons a t)
  then have a: "acts_on a l m" "all_act_on t l m" by (auto simp: all_act_on_def)
  have "a (b xs) = b (a xs)" using acts_on_commute [OF a(1) Cons.prems(1,3-5)] .
  moreover have "length (a xs) = length xs" using Cons.prems by (intro acts_on_length [OF a(1)]) auto
  ultimately show ?case using Cons.IH [OF Cons.prems(1) a(2), of "a xs"] Cons.prems by simp
qed simp

text \<open>Whatever the interleaving, the two halves end as if the first had run before the second.\<close>

lemma run_shuffle:
  assumes "t \<in> shuffles t0 t1" "all_act_on t0 l m" "all_act_on t1 m h" "l \<le> m" "m \<le> h" "h \<le> length xs"
  shows "run_actions t xs = run_actions t1 (run_actions t0 xs)"
  using assms
proof (induction t arbitrary: t0 t1 xs)
  case Nil
  then show ?case by (auto simp: Nil_in_shuffles)
next
  case (Cons a t)
  have cases: "(\<exists>u. t0 = a # u \<and> t \<in> shuffles u t1) \<or> (\<exists>u. t1 = a # u \<and> t \<in> shuffles t0 u)"
    using Cons.prems(1) by (cases t0; cases t1) auto
  then show ?case
  proof (elim disjE exE conjE)
    fix u assume u: "t0 = a # u" "t \<in> shuffles u t1"
    then have "length (a xs) = length xs"
      using Cons.prems by (intro acts_on_length [of a l m]) (auto simp: all_act_on_def)
    with u Cons.prems have "run_actions t (a xs) = run_actions t1 (run_actions u (a xs))"
      by (intro Cons.IH) (auto simp: all_act_on_def)
    with u show ?thesis by simp
  next
    fix u assume u: "t1 = a # u" "t \<in> shuffles t0 u"
    then have a: "acts_on a m h" using Cons.prems by (auto simp: all_act_on_def)
    then have "length (a xs) = length xs" using Cons.prems by (intro acts_on_length) auto
    with u Cons.prems have "run_actions t (a xs) = run_actions u (run_actions t0 (a xs))"
      by (intro Cons.IH) (auto simp: all_act_on_def)
    also have "run_actions t0 (a xs) = a (run_actions t0 xs)"
      using a Cons.prems by (intro run_actions_commute) auto
    finally show ?thesis using u by simp
  qed
qed

text \<open>What the program relies on of the C library's \<open>qsort\<close> with \<open>my_comp\<close>.\<close>

definition qsort_sorts :: "((int \<Rightarrow> int \<Rightarrow> int) \<Rightarrow> int list \<Rightarrow> int list) \<Rightarrow> bool" where
  "qsort_sorts qs \<longleftrightarrow>
     (\<forall>s. mset (qs my_comp s) = mset s \<and> sorted_wrt (\<lambda>a b. my_comp a b \<le> 0) (qs my_comp s))"

lemma my_comp_le: "my_comp a b \<le> 0 \<longleftrightarrow> a \<le> b"
  by (simp add: my_comp_def)

lemma qsort_sortsD: "qsort_sorts qs \<Longrightarrow> mset (qs my_comp s) = mset s \<and> sorted (qs my_comp s)"
  by (simp add: qsort_sorts_def my_comp_le)

lemma qsort_act_on: "qsort_sorts qs \<Longrightarrow> acts_on (qsort_act qs l n) l (l + n)"
  using qsort_sortsD [of qs] by (intro acts_onI [of _ _ "qs my_comp"]) (auto simp: qsort_act_def dest: mset_eq_length)

lemma qsort_act_sorts:
  assumes "qsort_sorts qs" "l + n \<le> length xs"
  shows "sorts_seg xs (qsort_act qs l n xs) l (l + n)"
proof -
  let ?ys = "qs my_comp (seg xs l (l + n))"
  have q: "mset ?ys = mset (seg xs l (l + n))" "sorted ?ys" using qsort_sortsD [OF assms(1)] by auto
  then have "length ?ys = n" using assms(2) by (metis add_diff_cancel_left' length_seg mset_eq_length)
  then have "qsort_act qs l n xs = blit xs l ?ys"
    using assms(2) by (simp add: qsort_act_def blit_result)
  with q assms(2) show ?thesis by (simp add: sorts_seg_blit)
qed

lemma merge_t_acts_on:
  assumes "l < r"
  shows "acts_on (\<lambda>xs. merge_t junk xs l r) l (Suc r)"
proof -
  define m where "m = l + (r - l) div 2"
  have m: "l \<le> m" "m < r" using assms by (auto simp: m_def)
  let ?f = "\<lambda>s. lmerge (\<lambda>a b. a \<le> b) (take (Suc m - l) s) (drop (Suc m - l) s)"
  show ?thesis
  proof (rule acts_onI [of _ _ ?f])
    fix xs :: "int list" assume len: "Suc r \<le> length xs"
    have "merge_t junk xs l r = blit xs l (lmerge (\<lambda>a b. a \<le> b) (seg xs l (Suc m)) (seg xs (Suc m) (Suc r)))"
      using assms len by (intro merge_t_blit) (auto simp: m_def)
    moreover have "seg xs l (Suc m) = take (Suc m - l) (seg xs l (Suc r))"
        "seg xs (Suc m) (Suc r) = drop (Suc m - l) (seg xs l (Suc r))"
      using m by (simp_all add: seg_def min_def drop_take)
    ultimately show "merge_t junk xs l r = take l xs @ ?f (seg xs l (Suc r)) @ drop (Suc r) xs"
      using m len by (simp add: blit_result)
  qed (use m in simp)
qed

lemma runs_sort:
  assumes q: "qsort_sorts qs"
  shows "thread_run qs junk l r t \<Longrightarrow> int l \<le> r + 1 \<Longrightarrow> all_act_on t l (nat (r + 1)) \<and>
      (\<forall>xs. r < int (length xs) \<longrightarrow> sorts_seg xs (run_actions t xs) l (nat (r + 1)))"
    and "half_run qs junk l r t \<Longrightarrow> int l \<le> r + 1 \<Longrightarrow> all_act_on t l (nat (r + 1)) \<and>
      (\<forall>xs. r < int (length xs) \<longrightarrow> sorts_seg xs (run_actions t xs) l (nat (r + 1)))"
proof (induction rule: thread_run_half_run.inducts)
  case (short r l)
  then have "l + nat (r - int l + 1) = nat (r + 1)" by simp
  with qsort_act_on [OF q, of l "nat (r - int l + 1)"] qsort_act_sorts [OF q, of l "nat (r - int l + 1)"]
  show ?case using short by (auto simp: all_act_on_def)
next
  case (not_created l r)
  then have "l + nat (r - int l + 1) = nat (r + 1)" by simp
  with qsort_act_on [OF q, of l "nat (r - int l + 1)"] qsort_act_sorts [OF q, of l "nat (r - int l + 1)"]
  show ?case using not_created by (auto simp: all_act_on_def)
next
  case (split r l m t0 t1 t)
  have lr: "int l < r" using split.hyps(1) by (simp add: MIN_LENGTH_def)
  have r: "nat (r + 1) = Suc (nat r)" "l < nat r" using lr by auto
  have m: "l \<le> m" "m < nat r" "m = l + (nat r - l) div 2" "int m < r"
    using split.hyps(2) lr by (auto simp: nat_diff_distrib nat_div_distrib)
  have 0: "all_act_on t0 l (Suc m)" "\<And>xs. int m < int (length xs) \<Longrightarrow> sorts_seg xs (run_actions t0 xs) l (Suc m)"
  proof -
    have "nat (int m + 1) = Suc m" "int l \<le> int m + 1" using m(1) by auto
    then show "all_act_on t0 l (Suc m)"
      "\<And>xs. int m < int (length xs) \<Longrightarrow> sorts_seg xs (run_actions t0 xs) l (Suc m)"
      using split.IH(2) by auto
  qed
  have 1: "all_act_on t1 (Suc m) (Suc (nat r))"
      "\<And>xs. r < int (length xs) \<Longrightarrow> sorts_seg xs (run_actions t1 xs) (Suc m) (Suc (nat r))"
    using split.IH(4) m r by auto
  have "all_act_on t l (Suc (nat r))"
    unfolding all_act_on_def
  proof
    fix a assume "a \<in> set t"
    then have "a \<in> set t0 \<or> a \<in> set t1" using set_shuffles [OF split.hyps(3)] by auto
    then show "acts_on a l (Suc (nat r))"
      using 0(1) 1(1) m by (auto simp: all_act_on_def intro: acts_on_widen)
  qed
  moreover have "sorts_seg xs (run_actions (t @ [\<lambda>xs. merge_t junk xs l (nat r)]) xs) l (Suc (nat r))"
    if len: "r < int (length xs)" for xs
  proof -
    have s0: "sorts_seg xs (run_actions t0 xs) l (Suc m)" using len m by (intro 0(2)) simp
    have s1: "sorts_seg (run_actions t0 xs) (run_actions t1 (run_actions t0 xs)) (Suc m) (Suc (nat r))"
      using len sorts_seg_length [OF s0] by (intro 1(2)) simp
    have "run_actions t xs = run_actions t1 (run_actions t0 xs)"
      by (rule run_shuffle [OF split.hyps(3) 0(1) 1(1)]) (use m(1,2) len lr in linarith)+
    with threaded.combine [OF m(1,2) _ m(3) s0 s1] len lr show ?thesis
      by (simp add: run_actions_append nat_less_iff)
  qed
  ultimately show ?case
    using r merge_t_acts_on [OF r(2)] by (auto simp: all_act_on_def)
qed auto

section \<open>The programs\<close>

text \<open>The elements come from the command line (\<open>argv[1]\<close> of them, after it) or from \<open>scanf\<close>, given as
  the count and the numbers typed. \<open>None\<close> is the wrong-usage exit.\<close>

definition read_array :: "string list \<Rightarrow> int \<times> int list \<Rightarrow> int list option" where
  "read_array argv stdin =
     (if length argv > 1 then
        (let size = c_atoi (argv ! 1)
         in if int (length argv) - 2 < size then None
            else Some (map c_atoi (take (nat size) (drop 2 argv))))
      else Some (take (nat (fst stdin)) (snd stdin)))"

definition usage_text :: string where
  "usage_text =
     ''Wrong Usage -> ./a.out [lenght of array] [array elements...........].'' @ [newline] @
     ''*Make sure that the number of array elements is equal to length of array.'' @ [newline]"

fun print_elements :: "int list \<Rightarrow> string" where
  "print_elements [] = []"
| "print_elements [x] = show_int x @ ''.'' @ [newline]"
| "print_elements (x # y # xs) = show_int x @ '', '' @ print_elements (y # xs)"

definition main_normal :: "(nat \<Rightarrow> int) \<Rightarrow> string list \<Rightarrow> int \<times> int list \<Rightarrow> string" where
  "main_normal junk argv stdin =
     (case read_array argv stdin of
        None \<Rightarrow> usage_text
      | Some xs \<Rightarrow>
          (if length argv > 1 then []
           else ''Enter total number of elements:'' @ ''Enter the elements:'' @ [newline]) @
          ''After merge sort:'' @ [newline] @
          print_elements (partition_n junk xs 0 (int (length xs) - 1)))"

definition main_forked :: "(nat \<Rightarrow> bool) \<Rightarrow> string list \<Rightarrow> int \<times> int list \<Rightarrow> string option" where
  \<comment> \<open>\<open>None\<close>: the program exits with status 1; the output is that of the process itself\<close>
  "main_forked forks argv stdin =
     (case read_array argv stdin of
        None \<Rightarrow> Some usage_text
      | Some xs \<Rightarrow>
          (case merge_sort_f forks 0 (int (length xs) - 1) (xs, 0) of
             (ys, c, alive) \<Rightarrow>
               if alive then
                 Some ((if length argv > 1 then [] else ''Enter n: '' @ ''Enter the shArrayay Elements: '') @
                   ''After sort'' @ [newline] @ print_elements ys)
               else None))"

inductive main_threaded ::
  "((int \<Rightarrow> int \<Rightarrow> int) \<Rightarrow> int list \<Rightarrow> int list) \<Rightarrow> (nat \<Rightarrow> int) \<Rightarrow> string list \<Rightarrow> int \<times> int list \<Rightarrow> string \<Rightarrow> bool"
  for qs junk argv stdin
where
  usage: "read_array argv stdin = None \<Longrightarrow> main_threaded qs junk argv stdin usage_text"
| sorted: "read_array argv stdin = Some xs \<Longrightarrow>
     merge_sort_run qs junk 0 (int (length xs) - 1) t joined \<Longrightarrow>
     main_threaded qs junk argv stdin
       ((if length argv > 1 then [] else ''Enter n: '' @ ''Enter the Array Elements: '') @
        ''After MergeSort.'' @ [newline] @ print_elements (run_actions t xs))"

section \<open>Properties\<close>

text \<open>C31. The recursive merge sort of q3_normal.c returns a sorted permutation of its array, for every
  array, the empty one included, and whatever the scratch array held.\<close>

theorem partition_n_correct:
  "sorted (partition_n junk xs 0 (int (length xs) - 1)) \<and>
   mset (partition_n junk xs 0 (int (length xs) - 1)) = mset xs"
  using sorts_seg_whole [OF partition_n_sorts [of "int (length xs) - 1" xs junk 0, simplified]] .

text \<open>The forked merge sort of q3_forked.c, when every fork succeeds, finishes in the calling process
  and leaves a sorted permutation of the shared array of 32-bit integers: the arithmetic exchange of
  its selection sort does not lose an element even when the sum wraps.\<close>

theorem merge_sort_f_correct:
  assumes "\<And>c. forks c" "\<forall>x \<in> set xs. in_int32 x"
  shows "\<exists>ys c. merge_sort_f forks 0 (int (length xs) - 1) (xs, 0) = (ys, c, True) \<and>
    sorted ys \<and> mset ys = mset xs"
proof -
  obtain ys c alive where r: "merge_sort_f forks 0 (int (length xs) - 1) (xs, 0) = (ys, c, alive)"
    by (rule prod_cases3)
  from merge_sort_f_sorts [OF assms(1) _ assms(2) r] have "alive" "sorts_seg xs ys 0 (length xs)"
    by auto
  with r sorts_seg_whole [OF this(2)] show ?thesis by simp
qed

theorem merge_sort_f_correct_witness:
  "\<exists>ys c. merge_sort_f (\<lambda>_. True) 0 3 ([2147483647, 5, -2147483648, 7], 0) = (ys, c, True) \<and>
    sorted ys \<and> mset ys = mset [2147483647, 5, -2147483648, 7]"
  using merge_sort_f_correct [of "\<lambda>_. True" "[2147483647, 5, -2147483648, 7]"]
  by (simp add: in_int32_def)

text \<open>A failed fork in a child process is not noticed by its parent, which ignores the exit status: the
  program goes on, ends normally and leaves the array unsorted.\<close>

theorem merge_sort_f_ignores_failed_child:
  "\<exists>ys c. merge_sort_f (\<lambda>c. c \<noteq> 1) 0 5 ([6, 5, 4, 3, 2, 1], 0) = (ys, c, True) \<and> \<not> sorted ys"
proof -
  have "merge_sort_f (\<lambda>c. c \<noteq> 1) 0 5 ([6, 5, 4, 3, 2, 1], 0) = ([1, 2, 3, 6, 5, 4], 3, True)"
    by code_simp
  then show ?thesis by simp
qed

text \<open>C12. Every run of the threaded merge sort of q3_threaded.c sorts the array: whichever threads could be
  created and however the actions of concurrent threads interleave, the final array is a sorted
  permutation, given a \<open>qsort\<close> that sorts by the comparator.\<close>

theorem merge_sort_run_sorts:
  assumes "qsort_sorts qs" "merge_sort_run qs junk 0 (int (length xs) - 1) t joined"
  shows "sorted (run_actions t xs) \<and> mset (run_actions t xs) = mset xs"
proof -
  have "half_run qs junk 0 (int (length xs) - 1) t"
    using assms(2)
  proof cases
    case main_created
    from main_created(2) show ?thesis by (rule thread_run_half_run.created)
  next
    case main_failed
    then show ?thesis using not_created [of qs junk 0 "int (length xs) - 1"] by simp
  qed
  from runs_sort(2) [OF assms(1) this] have "sorts_seg xs (run_actions t xs) 0 (length xs)" by simp
  then show ?thesis by (rule sorts_seg_whole)
qed

theorem merge_sort_run_sorts_witness:
  "\<exists>t. merge_sort_run (\<lambda>cmp s. sort s) (\<lambda>_. 0) 0 (int (length [3, 1, 2 :: int]) - 1) t True \<and>
    sorted (run_actions t [3, 1, 2]) \<and> mset (run_actions t [3, 1, 2]) = mset [3, 1, 2]"
proof -
  let ?qs = "\<lambda>(cmp :: int \<Rightarrow> int \<Rightarrow> int) (s :: int list). sort s"
  have r: "merge_sort_run ?qs (\<lambda>_. 0) 0 (int (length [3, 1, 2 :: int]) - 1)
      [qsort_act ?qs 0 (nat ((int (length [3, 1, 2 :: int]) - 1) - int 0 + 1))] True"
    by (rule main_created, rule thread_run_half_run.short) (simp add: MIN_LENGTH_def)
  have "qsort_sorts ?qs" by (simp add: qsort_sorts_def my_comp_le)
  from merge_sort_run_sorts [OF this r] r show ?thesis by blast
qed

end
