(* ===== verification/Reverse.thy ===== *)
theory Reverse
  imports Prelude
begin

text \<open>
  Assignment1: \<open>task1.c\<close> writes a file reversed and with its letter cases inverted, block by block from
  the end, seeking backwards; \<open>task2.c\<close> checks the result byte by byte. A file is the list of its
  bytes; a descriptor open for reading is a position in it, and \<open>lseek\<close> fails (-1, position unchanged)
  when the target is negative.
\<close>

section \<open>Descriptors\<close>

definition lseek_cur :: "int \<Rightarrow> int \<Rightarrow> int \<times> int" where
  \<comment> \<open>\<open>lseek(fd, d, SEEK_CUR)\<close> at position \<open>pos\<close>: the result and the new position\<close>
  "lseek_cur pos d = (if pos + d < 0 then (- 1, pos) else (pos + d, pos + d))"

definition read_at :: "string \<Rightarrow> int \<Rightarrow> int \<Rightarrow> string" where
  "read_at file pos n = take (nat n) (drop (nat pos) file)"

section \<open>task1.c\<close>

text \<open>Inverting the case of one character, written with the conditional of the source.\<close>

definition shift_char :: "char \<Rightarrow> int \<Rightarrow> char" where
  "shift_char c d = char_of (nat ((of_char c + d) mod 256))"

definition invChar :: "char \<Rightarrow> char" where
  "invChar c =
     (if (97::nat) \<le> of_char c \<and> of_char c \<le> (122::nat) then shift_char c (- 32)
      else if (65::nat) \<le> of_char c \<and> of_char c \<le> (90::nat) then shift_char c 32
      else c)"

text \<open>\<open>reverse(str1, index, size)\<close>: \<open>None\<close> for an access outside the buffer. \<open>size\<close> is the last index,
  -1 for an empty block; C division truncates, so -1 / 2 is 0.\<close>

definition swap_at :: "string \<Rightarrow> int \<Rightarrow> int \<Rightarrow> string option" where
  "swap_at s i j =
     (if 0 \<le> i \<and> i < int (length s) \<and> 0 \<le> j \<and> j < int (length s)
      then Some (s[nat i := s ! nat j, nat j := s ! nat i]) else None)"

definition c_half :: "int \<Rightarrow> int" where
  "c_half n = (if n < 0 then - ((- n) div 2) else n div 2)"

function reverse :: "string \<Rightarrow> int \<Rightarrow> int \<Rightarrow> string option" where
  "reverse s index size1 =
     (case swap_at s index (size1 - index) of
        None \<Rightarrow> None
      | Some s' \<Rightarrow> if index = c_half size1 then Some s' else reverse s' (index + 1) size1)"
  by pat_completeness auto
termination
  by (relation "measure (\<lambda>(s, index, size1). nat (size1 + 1 - index))")
    (auto simp: swap_at_def split: if_splits)

declare reverse.simps [simp del]

text \<open>
  The search for the first seek that succeeds in the last round: \<open>for(i = bufrSize-1; i > 0; i--)\<close>
  tries \<open>lseek(-i)\<close> and sets \<open>bufrSize = i\<close> at the first success.
\<close>

fun find_start :: "nat \<Rightarrow> int \<Rightarrow> int \<Rightarrow> int \<times> int" where
  "find_start 0 pos bufrSize = (pos, bufrSize)"
| "find_start (Suc i) pos bufrSize =
     (if fst (lseek_cur pos (- int (Suc i))) \<noteq> - 1
      then (snd (lseek_cur pos (- int (Suc i))), int (Suc i))
      else find_start i pos bufrSize)"

text \<open>The state of the copying loop: the position of the input, the heap buffer of \<open>bufrSize\<close> bytes, the
  size in use, \<open>b\<close> and the bytes written so far.\<close>

record copy_state =
  pos :: int
  bufr :: string
  bufrSize :: int
  b :: int
  written :: string

text \<open>One round of \<open>while(flg)\<close>; the flag says whether the loop goes on. \<open>None\<close>: an access outside the
  buffer.\<close>

definition copy_round :: "string \<Rightarrow> copy_state \<Rightarrow> (copy_state \<times> bool) option" where
  "copy_round file s =
     (let (a, p1) = lseek_cur (pos s) (- (bufrSize s + b s));
          (p2, size2, flg) =
            (if a < 0 then
               (let (a2, q) = lseek_cur p1 (- bufrSize s);
                    (q2, sz) = find_start (nat (bufrSize s - 1)) q (bufrSize s)
                in (q2, sz, False))
             else (p1, bufrSize s, True));
          got = read_at file p2 size2;
          buf1 = got @ drop (length got) (bufr s);
          b1 = (if flg then int (length got) else size2);
          buf2 = map invChar (take (nat b1) buf1) @ drop (nat b1) buf1
      in case reverse buf2 0 (b1 - 1) of
           None \<Rightarrow> None
         | Some buf3 \<Rightarrow>
             Some (\<lparr>pos = p2 + int (length got), bufr = buf3, bufrSize = size2, b = b1,
                    written = written s @ take (nat b1) buf3\<rparr>, flg))"

text \<open>The loop with fuel; \<open>None\<close> also when the fuel runs out.\<close>

fun copy_loop :: "nat \<Rightarrow> string \<Rightarrow> copy_state \<Rightarrow> copy_state option" where
  "copy_loop 0 file s = None"
| "copy_loop (Suc n) file s =
     (case copy_round file s of
        None \<Rightarrow> None
      | Some (s', flg) \<Rightarrow> if flg then copy_loop n file s' else Some s')"

text \<open>\<open>main\<close> from the first \<open>lseek\<close> on: the buffer comes from \<open>malloc\<close>, with unknown content \<open>junk\<close>. The
  result is what the program writes to the output descriptor. The bytes written replace the first
  bytes of an output file that was there before and was opened without \<open>O_TRUNC\<close>.\<close>

definition buffer_size :: nat where
  "buffer_size = 10000"

definition copy_init :: "nat \<Rightarrow> string \<Rightarrow> string \<Rightarrow> copy_state" where
  "copy_init size0 junk file =
     \<lparr>pos = int (length file), bufr = junk, bufrSize = int size0, b = 0, written = []\<rparr>"

definition task1_output :: "nat \<Rightarrow> string \<Rightarrow> string \<Rightarrow> string option" where
  "task1_output size0 junk file =
     map_option written (copy_loop (length file + 1) file (copy_init size0 junk file))"

definition overwrite :: "string \<Rightarrow> string \<Rightarrow> string" where
  "overwrite old out = out @ drop (length out) old"

text \<open>The whole program: argument count, the input if it can be opened, whether \<open>mkdir\<close> succeeded and the
  output file that was there. The result: the messages and the output file afterwards.\<close>

definition task1_main ::
  "nat \<Rightarrow> string option \<Rightarrow> bool \<Rightarrow> string option \<Rightarrow> string \<Rightarrow> string \<times> string option option" where
  "task1_main argc input mkdir_ok old junk =
     (if argc < 2 then (''Enter the file name also like : ./a.out fileName '' @ [newline], Some old)
      else
        (case input of
           None \<Rightarrow> ('' Not able to open the file '' @ [newline], Some old)
         | Some file \<Rightarrow>
             (let before = (if mkdir_ok then [] else (case old of None \<Rightarrow> [] | Some f \<Rightarrow> f))
              in (''Reversed the File you can see it at Assignment/rev1.txt'' @ [newline],
                  map_option (\<lambda>out. Some (overwrite before out)) (task1_output buffer_size junk file)))))"

section \<open>task2.c\<close>

text \<open>\<open>chkFileCorrectness\<close>: \<open>rp\<close> is the position in the result file, \<open>tp\<close> in the tested file. A \<open>read\<close> at
  the end of a file leaves the character variable as it was.\<close>

definition read_char :: "string \<Rightarrow> int \<Rightarrow> char \<Rightarrow> char \<times> int" where
  "read_char file p old =
     (if 0 \<le> p \<and> p < int (length file) then (file ! nat p, p + 1) else (old, p))"

fun chk_loop :: "nat \<Rightarrow> string \<Rightarrow> string \<Rightarrow> int \<Rightarrow> int \<Rightarrow> int \<Rightarrow> char \<Rightarrow> char \<Rightarrow> bool option" where
  "chk_loop 0 testf resf a tp rp testChar resChar = None"
| "chk_loop (Suc n) testf resf a tp rp testChar resChar =
     (if a > 0 then
        (let (resChar', rp') = read_char resf rp resChar;
             (testChar', tp') = read_char testf tp testChar;
             (a', tp'') = lseek_cur tp' (- 2)
         in if testChar' \<noteq> invChar resChar' then Some False
            else chk_loop n testf resf a' tp'' rp' testChar' resChar')
      else Some True)"

definition chkFileCorrectness :: "string \<Rightarrow> string \<Rightarrow> char \<Rightarrow> char \<Rightarrow> bool option" where
  "chkFileCorrectness testf resf testChar resChar =
     (let (a, tp) = lseek_cur (int (length testf)) (- 1)
      in chk_loop (length testf + 1) testf resf a tp 0 testChar resChar)"

text \<open>If the tested file cannot be opened, every \<open>lseek\<close> on the descriptor -1 fails and the loop is not
  entered; if the result file cannot be opened, its reads fail, like reads at the end.\<close>

definition chk_files :: "string option \<Rightarrow> string option \<Rightarrow> char \<Rightarrow> char \<Rightarrow> bool option" where
  "chk_files testf resf testChar resChar =
     (case testf of
        None \<Rightarrow> Some True
      | Some t \<Rightarrow> chkFileCorrectness t (case resf of None \<Rightarrow> [] | Some r \<Rightarrow> r) testChar resChar)"

definition fileExists :: "(string \<Rightarrow> u32 option) \<Rightarrow> string \<Rightarrow> bool" where
  "fileExists modes f \<longleftrightarrow> modes f \<noteq> None"

definition printRes :: "bool \<Rightarrow> string" where
  "printRes a = (if a then ''Yes'' @ [newline] else ''No'' @ [newline])"

text \<open>The nine permission lines, the same for the file and the directory: the bits \<open>S_IRUSR\<close> to \<open>S_IXOTH\<close>
  of \<open>st_mode\<close> from \<open>0400\<close> down to \<open>0001\<close>.\<close>

definition perm_line :: "string \<Rightarrow> u32 \<Rightarrow> nat \<Rightarrow> string" where
  "perm_line what mode k = what @ (if bit mode k then ''Yes'' @ [newline] else ''No'' @ [newline])"

definition perm_report :: "u32 \<Rightarrow> string" where
  "perm_report mode =
     perm_line ([newline] @ ''User has read permission on file: '') mode 8 @
     perm_line ''User has write permission on file: '' mode 7 @
     perm_line ''User has execute permission on file: '' mode 6 @
     perm_line ([newline, newline] @ ''Group has read permission on file: '') mode 5 @
     perm_line ''Group has write permission on file: '' mode 4 @
     perm_line ''Group has execute permission on file: '' mode 3 @
     perm_line ([newline, newline] @ ''Others has read permission on file: '') mode 2 @
     perm_line ''Others has write permission on file: '' mode 1 @
     perm_line ''Others has execute permission on file: '' mode 0"

text \<open>\<open>main\<close> of \<open>task2.c\<close>: \<open>modes\<close> is what \<open>stat\<close> finds after the symbolic link was or was not made, the two
  files are what \<open>open\<close> finds. The text of the messages printed through \<open>write\<close> is the result; the text of
  a mismatch that goes through \<open>printf\<close> is left out.\<close>

definition task2_main ::
  "nat \<Rightarrow> bool \<Rightarrow> (string \<Rightarrow> u32 option) \<Rightarrow> string option \<Rightarrow> string option \<Rightarrow> char \<Rightarrow> char \<Rightarrow> string option" where
  "task2_main argc symlink_ok modes testf resf testChar resChar =
     (if argc < 2 then Some (''Enter the file name to check reverse like : ./a.out fileName '' @ [newline])
      else
        map_option (\<lambda>ok.
          (if symlink_ok then []
           else ''Unable to Create a Symlink,'' @ [newline] @
                ''There maybe another SymLink already present of the name Assignment_symlink'' @ [newline]) @
          [newline] @ ''Checking whether the directory has been created: '' @
          printRes (fileExists modes ''Assignment'') @
          ''Checking whether the file has been created: '' @
          printRes (fileExists modes ''Assignment/rev1.txt'') @
          ''Checking whether the symlink has been created: '' @
          printRes (fileExists modes ''Assignment_symlink'') @
          ''Checking whether file contents have been reversed and case-inverted: '' @
          printRes ok @
          (case modes ''Assignment/rev1.txt'' of
             None \<Rightarrow> ''Unable to access stats of Assignment/rev1.txt File'' @ [newline]
           | Some m \<Rightarrow>
               [newline, newline] @ ''These are the permissions for File: Assignment/rev1.txt '' @ [newline] @
               perm_report m @
               (case modes ''Assignment'' of
                  None \<Rightarrow> ''Unable to access stats of Assignment Directory'' @ [newline]
                | Some d \<Rightarrow>
                    [newline, newline] @ ''These are the permissions for File: Assignment Directory '' @
                    [newline] @ perm_report d)))
          (chk_files testf resf testChar resChar))"

section \<open>Reversing\<close>

lemma c_half_div: "0 \<le> n \<Longrightarrow> c_half n = n div 2"
  by (simp add: c_half_def)

text \<open>The state of \<open>reverse\<close> at \<open>index\<close>: the outer pairs are exchanged, the middle is not.\<close>

lemma reverse_from:
  assumes "length s = Suc n" "2 * k \<le> n" 
    "\<And>i. i \<le> n \<Longrightarrow> s ! i = (if i < k \<or> n - k < i then t ! (n - i) else t ! i)" "length t = Suc n"
  shows "reverse s (int k) (int n) = Some (rev t)"
  using assms
proof (induction "n - 2 * k" arbitrary: s k rule: less_induct)
  case less
  let ?s = "s[k := s ! (n - k), n - k := s ! k]"
  have sw: "swap_at s (int k) (int n - int k) = Some ?s"
    using less.prems by (auto simp: swap_at_def nat_diff_distrib)
  have nth: "?s ! i = (if i < Suc k \<or> n - Suc k < i then t ! (n - i) else t ! i)" if "i \<le> n" for i
    using less.prems that by (auto simp: nth_list_update)
  show ?case
  proof (cases "k = n div 2")
    case True
    then have "?s = rev t"
      using less.prems nth by (intro nth_equalityI) (auto simp: rev_nth less_Suc_eq_le)
    moreover have "int k = c_half (int n)"
      using True by (simp add: c_half_div zdiv_int)
    ultimately show ?thesis
      using sw by (subst reverse.simps) simp
  next
    case False
    with less.prems(2) have k: "2 * Suc k \<le> n" by presburger
    have "reverse ?s (int (Suc k)) (int n) = Some (rev t)"
      by (rule less.hyps) (use less.prems k nth in auto)
    moreover have "int k \<noteq> c_half (int n)"
      using False by (simp add: c_half_div zdiv_int [of n 2, simplified, symmetric])
    ultimately show ?thesis
      using sw by (subst reverse.simps) (simp add: add.commute)
  qed
qed

lemma reverse_whole: "t \<noteq> [] \<Longrightarrow> reverse t 0 (int (length t) - 1) = Some (rev t)"
  using reverse_from [of t "length t - 1" 0 t] by (cases t) auto

text \<open>What lies behind the reversed part is not touched.\<close>

lemma swap_at_append:
  "swap_at s i j = Some s' \<Longrightarrow> swap_at (s @ u) i j = Some (s' @ u)"
  by (auto simp: swap_at_def list_update_append nth_append split: if_splits)

lemma reverse_append:
  "reverse s k n = Some r \<Longrightarrow> reverse (s @ u) k n = Some (r @ u)"
proof (induction s k n arbitrary: r rule: reverse.induct)
  case (1 s k n)
  from "1.prems" obtain s' where sw: "swap_at s k (n - k) = Some s'"
    by (subst (asm) reverse.simps) (auto split: option.splits)
  show ?case
    using "1.prems" "1.IH" [OF sw] sw swap_at_append [OF sw, of u]
    by (subst reverse.simps, subst (asm) (3) reverse.simps) (auto split: if_splits)
qed

lemma reverse_block:
  assumes "0 < n" "n \<le> length s"
  shows "reverse s 0 (int n - 1) = Some (rev (take n s) @ drop n s)"
proof -
  have "reverse (take n s) 0 (int n - 1) = Some (rev (take n s))"
    using assms reverse_whole [of "take n s"] by (cases s) auto
  from reverse_append [OF this, of "drop n s"] show ?thesis by simp
qed

section \<open>The copying loop\<close>

lemma find_start_hit: "0 < p \<Longrightarrow> p \<le> n \<Longrightarrow> find_start n (int p) z = (0, int p)"
  by (induction n) (auto simp: lseek_cur_def le_Suc_eq)

lemma find_start_none: "find_start n 0 z = (0, z)"
  by (induction n) (auto simp: lseek_cur_def)

text \<open>Between rounds: the part of the file from \<open>st\<close> on has been written, the descriptor stands one block
  further.\<close>

definition copy_inv :: "nat \<Rightarrow> string \<Rightarrow> string \<Rightarrow> nat \<Rightarrow> copy_state \<Rightarrow> bool" where
  "copy_inv S junk file st s \<longleftrightarrow>
     length (bufr s) = S \<and> bufrSize s = int S \<and> st \<le> length file \<and>
     pos s = int st + b s \<and> written s = rev (map invChar (drop st file)) \<and>
     (b s = 0 \<and> st = length file \<and> bufr s = junk \<or> b s = int S \<and> st + S \<le> length file)"

lemma copy_inv_init: "length junk = S \<Longrightarrow> copy_inv S junk file (length file) (copy_init S junk file)"
  by (simp add: copy_inv_def copy_init_def)

lemma copy_round_full:
  assumes inv: "copy_inv S junk file st s" and S: "0 < S" "S \<le> st"
  shows "\<exists>s'. copy_round file s = Some (s', True) \<and> copy_inv S junk file (st - S) s'"
proof -
  define blk where "blk = take S (drop (st - S) file)"
  have seek: "lseek_cur (pos s) (- int S - b s) = (int st - int S, int st - int S)"
    using inv S by (auto simp: lseek_cur_def copy_inv_def)
  have blk: "read_at file (int st - int S) (int S) = blk" "length blk = S"
    using inv S by (auto simp: read_at_def blk_def copy_inv_def nat_diff_distrib)
  have rev: "reverse (map invChar blk) 0 (int S - 1) = Some (rev (map invChar blk))"
    using reverse_block [of S "map invChar blk"] blk S by simp
  have "drop (st - S) file = blk @ drop st file"
    using S by (simp add: blk_def) (metis append_take_drop_id drop_drop le_add_diff_inverse)
  then have out: "rev (map invChar (drop (st - S) file)) = rev (map invChar (drop st file)) @ rev (map invChar blk)"
    by simp
  from inv have *: "bufrSize s = int S" "length (bufr s) = S" "written s = rev (map invChar (drop st file))"
    "st \<le> length file"
    by (auto simp: copy_inv_def)
  have "copy_round file s = Some (\<lparr>pos = int st - int S + int S, bufr = rev (map invChar blk), bufrSize = int S,
      b = int S, written = written s @ rev (map invChar blk)\<rparr>, True)"
    using rev S by (simp add: copy_round_def seek blk * Let_def)
  then show ?thesis
    using S * out by (auto simp: copy_inv_def blk)
qed

lemma copy_round_last:
  assumes inv: "copy_inv S junk file st s" and S: "0 < S" "st < S" "length junk = S"
  shows "\<exists>s'. copy_round file s = Some (s', False) \<and>
    written s' = (if 0 < st then rev (map invChar file)
                  else rev (map invChar file) @ rev (map invChar (take S (file @ junk))))"
proof -
  define n where "n = (if 0 < st then st else S)"
  define got where "got = take n file"
  define buf1 where "buf1 = got @ drop (length got) (bufr s)"
  from inv have *: "bufrSize s = int S" "length (bufr s) = S" "written s = rev (map invChar (drop st file))"
    "st \<le> length file"
    by (auto simp: copy_inv_def)
  have seek1: "lseek_cur (pos s) (- int S - b s) = (- 1, pos s)"
    using inv S by (auto simp: lseek_cur_def copy_inv_def)
  obtain a2 where seek2: "lseek_cur (pos s) (- int S) = (a2, int st)"
    using inv S by (fastforce simp: lseek_cur_def copy_inv_def)
  have find: "find_start (nat (int S - 1)) (int st) (int S) = (0, int n)"
    using S find_start_hit [of st "S - 1"] find_start_none by (auto simp: n_def nat_diff_distrib')
  have got: "read_at file 0 (int n) = got"
    by (simp add: read_at_def got_def)
  have len: "length buf1 = S" "n \<le> S" "0 < n"
    using S * by (auto simp: buf1_def got_def n_def)
  have blk: "take n buf1 = (if 0 < st then take st file else take S (file @ junk))"
    using inv S by (auto simp: buf1_def got_def n_def copy_inv_def)
  have rev: "reverse (map invChar (take n buf1) @ drop n buf1) 0 (int n - 1)
      = Some (rev (map invChar (take n buf1)) @ drop n buf1)"
    using reverse_block [of n "map invChar (take n buf1) @ drop n buf1"] len by simp
  have tk: "take n (rev (map invChar (take n buf1)) @ drop n buf1) = rev (map invChar (take n buf1))"
    using len by simp
  have all: "rev (map invChar (drop st file)) @ rev (map invChar (take st file)) = rev (map invChar file)"
    by (metis append_take_drop_id map_append rev_append)
  have "copy_round file s = Some (\<lparr>pos = int (length got), bufr = rev (map invChar (take n buf1)) @ drop n buf1,
      bufrSize = int n, b = int n, written = written s @ rev (map invChar (take n buf1))\<rparr>, False)"
    using rev
    by (simp add: copy_round_def tk seek1 seek2 find got * Let_def flip: buf1_def del: take_append drop_append)
  then show ?thesis
    using all by (auto simp: * blk)
qed

lemma copy_loop_result:
  assumes "copy_inv S junk file st s" "0 < S" "length junk = S" "st < n"
  shows "\<exists>s'. copy_loop n file s = Some s' \<and>
    written s' = (if st mod S \<noteq> 0 then rev (map invChar file)
                  else rev (map invChar file) @ rev (map invChar (take S (file @ junk))))"
  using assms
proof (induction n arbitrary: st s)
  case (Suc n)
  show ?case
  proof (cases "S \<le> st")
    case True
    obtain s' where "copy_round file s = Some (s', True)" "copy_inv S junk file (st - S) s'"
      using copy_round_full [OF Suc.prems(1,2) True] by blast
    with Suc.IH [of "st - S" s'] Suc.prems True show ?thesis
      by (simp add: le_mod_geq)
  next
    case False
    with Suc.prems copy_round_last [of S junk "file" st s] show ?thesis
      by fastforce
  qed
qed simp

text \<open>C27. For a buffer of \<open>S\<close> bytes with arbitrary content after \<open>malloc\<close>, \<open>task1.c\<close> always finishes, never
  indexes outside the buffer and writes the file reversed with the letter cases inverted; when the length of
  the file is a multiple of the buffer size the last seek fails for every step and one more reversed block
  follows: the first block of the file again or, for an empty file, the raw content of the buffer.\<close>

theorem task1_output_spec:
  assumes "0 < S" "length junk = S"
  shows "task1_output S junk file = Some (
    rev (map invChar file) @
    (if length file mod S = 0 then rev (map invChar (take S (file @ junk))) else []))"
  using copy_loop_result [OF copy_inv_init, of junk S "file" "length file + 1"] assms
  by (auto simp: task1_output_def)

theorem task1_output_spec_witness:
  "task1_output 2 ''??'' ''aBc'' = Some ''CbA'' \<and>
   task1_output 2 ''??'' ''aBcD'' = Some ''dCbAbA''"
proof -
  have "invChar CHR ''a'' = CHR ''A'' \<and> invChar CHR ''B'' = CHR ''b'' \<and> invChar CHR ''c'' = CHR ''C''
      \<and> invChar CHR ''D'' = CHR ''d''"
    by code_simp
  then show ?thesis
    using task1_output_spec [of 2 "''??''" "''aBc''"] task1_output_spec [of 2 "''??''" "''aBcD''"]
    by simp
qed

section \<open>Inverting the case\<close>

lemma of_char_int: "(of_char c :: int) = int (of_char c)"
  by (metis of_nat_of_char)

lemma of_char_shift:
  assumes "0 \<le> int (of_char c) + d" "int (of_char c) + d < 256"
  shows "(of_char (shift_char c d) :: nat) = nat (of_char c + d)"
  using assms by (simp add: shift_char_def of_char_int)

lemma shift_back:
  assumes "0 \<le> int (of_char c) + d" "int (of_char c) + d < 256"
  shows "shift_char (shift_char c d) (- d) = c"
proof -
  have "shift_char (shift_char c d) (- d) = char_of (nat ((int (of_char (shift_char c d)) - d) mod 256))"
    by (simp add: shift_char_def [of "shift_char c d"] of_char_int)
  also have "int (of_char (shift_char c d)) - d = int (of_char c)"
    using assms by (simp add: of_char_shift of_char_int)
  finally show ?thesis by simp
qed

lemma invChar_twice: "invChar (invChar c) = c"
  using shift_back [of c 32] shift_back [of c "- 32"] of_char_shift [of c 32] of_char_shift [of c "- 32"]
  by (auto simp: invChar_def of_char_int)

section \<open>The checker\<close>

lemma chk_loop_result:
  assumes "k < length testf" "length testf - 1 \<le> length resf" "length testf - k \<le> n"
  shows "chk_loop n testf resf (int (length testf) - 1 - int k) (int (length testf) - 1 - int k) (int k) c d
    = Some (\<forall>i. k \<le> i \<and> i < length testf - 1 \<longrightarrow> testf ! (length testf - 1 - i) = invChar (resf ! i))"
  using assms
proof (induction n arbitrary: k c d)
  case (Suc n)
  let ?L = "length testf"
  show ?case
  proof (cases "k = ?L - 1")
    case True
    with Suc.prems show ?thesis by auto
  next
    case False
    with Suc.prems have k: "Suc k < ?L" by linarith
    have n: "nat (int ?L - 1 - int k) = ?L - 1 - k"
      using k by simp
    have rd: "read_char resf (int k) d = (resf ! k, int (Suc k))"
        "read_char testf (int ?L - 1 - int k) c = (testf ! (?L - 1 - k), int ?L - int k)"
      using k Suc.prems unfolding read_char_def n by auto
    have sk: "lseek_cur (int ?L - int k) (- 2) = (int ?L - 1 - int (Suc k), int ?L - 1 - int (Suc k))"
      using k by (simp add: lseek_cur_def)
    have IH: "chk_loop n testf resf (int ?L - 1 - int (Suc k)) (int ?L - 1 - int (Suc k)) (int (Suc k))
        (testf ! (?L - 1 - k)) (resf ! k)
      = Some (\<forall>i. Suc k \<le> i \<and> i < ?L - 1 \<longrightarrow> testf ! (?L - 1 - i) = invChar (resf ! i))"
      by (rule Suc.IH) (use k Suc.prems in auto)
    have split: "(\<forall>i. k \<le> i \<and> i < ?L - 1 \<longrightarrow> P i) \<longleftrightarrow> P k \<and> (\<forall>i. Suc k \<le> i \<and> i < ?L - 1 \<longrightarrow> P i)" for P
      using k by (metis Suc_leD Suc_leI Suc_lessE diff_Suc_1 le_neq_implies_less less_imp_le_nat order_refl)
    have pos: "0 < int ?L - 1 - int k" using k by simp
    show ?thesis
      unfolding chk_loop.simps(2) rd sk Let_def prod.case IH split
        [of "\<lambda>i. testf ! (?L - 1 - i) = invChar (resf ! i)"]
      using pos by simp
  qed
qed simp

lemma rev_match:
  assumes "length testf - 1 \<le> length resf"
  shows "(\<forall>i < length testf - 1. testf ! (length testf - 1 - i) = invChar (resf ! i)) \<longleftrightarrow>
    tl testf = rev (map invChar (take (length testf - 1) resf))" (is "?A \<longleftrightarrow> ?B")
proof -
  let ?n = "length testf - 1"
  have "?B \<longleftrightarrow> (\<forall>j < ?n. tl testf ! j = invChar (resf ! (?n - Suc j)))"
    using assms by (auto simp: list_eq_iff_nth_eq rev_nth)
  also have "\<dots> \<longleftrightarrow> ?A"
  proof (intro iffI allI impI)
    fix i assume *: "\<forall>j < ?n. tl testf ! j = invChar (resf ! (?n - Suc j))" "i < ?n"
    then have "tl testf ! (?n - Suc i) = invChar (resf ! (?n - Suc (?n - Suc i)))" by simp
    with \<open>i < ?n\<close> show "testf ! (?n - i) = invChar (resf ! i)"
      by (simp add: nth_tl Suc_diff_Suc)
  next
    fix j assume *: "?A" "j < ?n"
    then have "testf ! (?n - (?n - Suc j)) = invChar (resf ! (?n - Suc j))"
      by (metis diff_Suc_less less_nat_zero_code neq0_conv zero_less_diff)
    moreover have "?n - (?n - Suc j) = Suc j" using \<open>j < ?n\<close> by linarith
    ultimately show "tl testf ! j = invChar (resf ! (?n - Suc j))"
      by (simp add: nth_tl)
  qed
  finally show ?thesis by simp
qed

text \<open>\<open>chkFileCorrectness\<close> in \<open>task2.c\<close> ends, and on a result file that is at most one byte shorter
  than the tested file it says yes exactly when the tested file without its first byte is the result's
  prefix reversed and case-inverted: the byte at offset 0, and everything in the result file behind that
  prefix, is never compared.\<close>

theorem chkFileCorrectness_spec:
  assumes "length testf - 1 \<le> length resf"
  shows "chkFileCorrectness testf resf c d =
    Some (tl testf = rev (map invChar (take (length testf - 1) resf)))"
proof (cases "testf = []")
  case True
  then show ?thesis by (simp add: chkFileCorrectness_def lseek_cur_def)
next
  case False
  then have "lseek_cur (int (length testf)) (- 1) = (int (length testf) - 1, int (length testf) - 1)"
    by (cases testf) (auto simp: lseek_cur_def)
  then show ?thesis
    using chk_loop_result [of 0 testf resf "length testf + 1" c d] rev_match [OF assms] assms False
    by (simp add: chkFileCorrectness_def)
qed

theorem chkFileCorrectness_spec_witness:
  "chkFileCorrectness ''xbc'' ''CBA'' NUL NUL = Some True"
proof -
  have "invChar CHR ''C'' = CHR ''c'' \<and> invChar CHR ''B'' = CHR ''b''"
    by code_simp
  then show ?thesis
    using chkFileCorrectness_spec [of "''xbc''" "''CBA''" NUL NUL] by (simp add: eval_nat_numeral)
qed

text \<open>C30. Whatever \<open>task1.c\<close> writes for a file, \<open>task2.c\<close> accepts: also the extra block it appends when the
  length of the file is a multiple of the buffer size.\<close>

theorem task2_accepts_task1:
  assumes "0 < S" "length junk = S"
  shows "\<exists>out. task1_output S junk file = Some out \<and> chkFileCorrectness file out c d = Some True"
proof -
  obtain out rest where out: "task1_output S junk file = Some out" "out = rev (map invChar file) @ rest"
    using copy_loop_result [OF copy_inv_init, of junk S "file" "length file + 1"] assms
    by (auto simp: task1_output_def split: if_splits)
  have "tl file = map (invChar \<circ> invChar) (tl file)"
    by (simp add: comp_def invChar_twice)
  then have "tl file = rev (map invChar (take (length file - 1) out))"
    by (cases "file") (simp_all add: out(2) rev_map)
  moreover have "length file - 1 \<le> length out"
    by (simp add: out(2))
  ultimately show ?thesis
    using out chk_loop_result [of 0 "file" out "length file + 1" c d] rev_match [of "file" out]
    by (cases "file") (auto simp: chkFileCorrectness_def lseek_cur_def)
qed

theorem task2_accepts_task1_witness:
  "\<exists>out. task1_output 3 ''???'' ''abc'' = Some out \<and> chkFileCorrectness ''abc'' out NUL NUL = Some True"
  by (rule task2_accepts_task1) simp_all

end
