(* ===== verification/Locks.thy ===== *)
theory Locks
  imports Prelude
begin

text \<open>
  \<open>spinlock.c\<close> and \<open>sleeplock.c\<close>: the nesting of disabled interrupts on one CPU, the spin lock as code of
  one CPU and as a step relation over all CPUs (the \<open>xchg\<close> and the store that releases are the atomic
  steps), the walk along the frame pointers, and the sleep lock built on the spin lock.
\<close>

section \<open>Disabling interrupts\<close>

text \<open>The state of one CPU: the interrupt flag in \<open>eflags\<close>, and \<open>ncli\<close> and \<open>intena\<close> of \<open>struct cpu\<close>.\<close>

record cpu_state =
  ifl :: bool
  ncli :: int
  intena :: bool

definition pushcli :: "cpu_state \<Rightarrow> cpu_state" where
  "pushcli c =
     (let eflags = ifl c;
          c1 = c\<lparr>ifl := False\<rparr>;
          c2 = (if ncli c1 = 0 then c1\<lparr>intena := eflags\<rparr> else c1)
      in c2\<lparr>ncli := ncli c2 + 1\<rparr>)"

definition popcli :: "cpu_state \<Rightarrow> cpu_state kres" where
  "popcli c =
     (if ifl c then Inl (Panic ''popcli - interruptible'')
      else
        (let c1 = c\<lparr>ncli := ncli c - 1\<rparr>
         in if ncli c1 < 0 then Inl (Panic ''popcli'')
            else if ncli c1 = 0 \<and> intena c1 then Inr (c1\<lparr>ifl := True\<rparr>)
            else Inr c1))"

section \<open>Spin locks\<close>

record spinlock =
  lname :: string
  locked :: bool
  lcpu :: "nat option"
  pcs :: "u32 list"

definition initlock :: "spinlock \<Rightarrow> string \<Rightarrow> spinlock" where
  "initlock lk n = lk\<lparr>lname := n, locked := False, lcpu := None\<rparr>"

text \<open>\<open>holding(lock)\<close> on CPU \<open>me\<close>.\<close>

definition holding :: "nat \<Rightarrow> spinlock \<Rightarrow> cpu_state \<Rightarrow> (bool \<times> cpu_state) kres" where
  "holding me lk c =
     kbind (popcli (pushcli c)) (\<lambda>c2. Inr (locked lk \<and> lcpu lk = Some me, c2))"

text \<open>\<open>getcallerpcs(v, pcs)\<close>: the memory is read as words; the pointer arithmetic is on byte addresses. The
  walk stops at a null, a user or the all-ones frame pointer.\<close>

definition KERNBASE :: u32 where
  "KERNBASE = 0x80000000"

fun walk_frames :: "(u32 \<Rightarrow> u32) \<Rightarrow> nat \<Rightarrow> u32 \<Rightarrow> u32 list" where
  "walk_frames mem 0 ebp = []"
| "walk_frames mem (Suc n) ebp =
     (if ebp = 0 \<or> ebp < KERNBASE \<or> ebp = 0xffffffff then replicate (Suc n) 0
      else mem (ebp + 4) # walk_frames mem n (mem ebp))"

definition getcallerpcs :: "(u32 \<Rightarrow> u32) \<Rightarrow> u32 \<Rightarrow> u32 list" where
  "getcallerpcs mem v = walk_frames mem 10 (v - 8)"

text \<open>\<open>acquire\<close> in its three parts: up to the spinning loop, one \<open>xchg\<close>, and what follows it; \<open>release\<close> up to
  the releasing store, and the rest. The frames are the result of \<open>getcallerpcs\<close>.\<close>

definition acquire_enter :: "nat \<Rightarrow> spinlock \<Rightarrow> cpu_state \<Rightarrow> cpu_state kres" where
  "acquire_enter me lk c =
     kbind (holding me lk (pushcli c)) (\<lambda>(h, c2). if h then Inl (Panic ''acquire'') else Inr c2)"

definition xchg_locked :: "spinlock \<Rightarrow> bool \<times> spinlock" where
  "xchg_locked lk = (locked lk, lk\<lparr>locked := True\<rparr>)"

definition acquire_record :: "nat \<Rightarrow> u32 list \<Rightarrow> spinlock \<Rightarrow> spinlock" where
  "acquire_record me frames lk = lk\<lparr>lcpu := Some me, pcs := frames\<rparr>"

definition release_enter :: "nat \<Rightarrow> spinlock \<Rightarrow> cpu_state \<Rightarrow> (spinlock \<times> cpu_state) kres" where
  "release_enter me lk c =
     kbind (holding me lk c)
       (\<lambda>(h, c2). if \<not> h then Inl (Panic ''release'')
                  else Inr (lk\<lparr>pcs := (pcs lk)[0 := 0], lcpu := None\<rparr>, c2))"

definition release_leave :: "spinlock \<Rightarrow> cpu_state \<Rightarrow> (spinlock \<times> cpu_state) kres" where
  "release_leave lk c = kbind (popcli c) (\<lambda>c2. Inr (lk\<lparr>locked := False\<rparr>, c2))"

text \<open>The calls as one CPU runs them with nobody interfering; \<open>None\<close> for spinning on a lock that stays
  taken.\<close>

definition acquire :: "nat \<Rightarrow> u32 list \<Rightarrow> spinlock \<Rightarrow> cpu_state \<Rightarrow> (spinlock \<times> cpu_state) option kres" where
  "acquire me frames lk c =
     kbind (acquire_enter me lk c)
       (\<lambda>c2. let (old, lk1) = xchg_locked lk
             in if old then Inr None else Inr (Some (acquire_record me frames lk1, c2)))"

definition release :: "nat \<Rightarrow> spinlock \<Rightarrow> cpu_state \<Rightarrow> (spinlock \<times> cpu_state) kres" where
  "release me lk c = kbind (release_enter me lk c) (\<lambda>(lk1, c2). release_leave lk1 c2)"

section \<open>Nesting\<close>

text \<open>A sequence of calls: \<open>True\<close> for \<open>pushcli\<close>, \<open>False\<close> for \<open>popcli\<close>.\<close>

fun cli_run :: "bool list \<Rightarrow> cpu_state \<Rightarrow> cpu_state kres" where
  "cli_run [] c = Inr c"
| "cli_run (True # ops) c = cli_run ops (pushcli c)"
| "cli_run (False # ops) c = kbind (popcli c) (cli_run ops)"

fun depth :: "bool list \<Rightarrow> int" where
  "depth [] = 0"
| "depth (op # ops) = (if op then 1 else - 1) + depth ops"

text \<open>The state inside: interrupts are off while the depth is positive and \<open>intena\<close> remembers the flag that
  was found at depth 0.\<close>

definition cli_ok :: "bool \<Rightarrow> cpu_state \<Rightarrow> bool" where
  "cli_ok orig c \<longleftrightarrow> 0 \<le> ncli c \<and> ifl c = (ncli c = 0 \<and> orig) \<and> (0 < ncli c \<longrightarrow> intena c = orig)"

lemma cli_ok_pushcli: "cli_ok orig c \<Longrightarrow> cli_ok orig (pushcli c) \<and> ncli (pushcli c) = ncli c + 1"
  by (auto simp: cli_ok_def pushcli_def Let_def)

lemma popcli_pos:
  assumes "cli_ok orig c" "0 < ncli c"
  shows "\<exists>d. popcli c = Inr d \<and> cli_ok orig d \<and> ncli d = ncli c - 1"
  using assms by (auto simp: cli_ok_def popcli_def Let_def)

lemma popcli_zero: "cli_ok orig c \<Longrightarrow> ncli c = 0 \<Longrightarrow> \<exists>e. popcli c = Inl e"
  by (auto simp: cli_ok_def popcli_def Let_def)

text \<open>Starting from depth 0 with interrupts on or off, any sequence of \<open>pushcli\<close> and \<open>popcli\<close> in which
  no prefix pops more often than it pushes runs without panic, ends with the depth as nesting count, with
  interrupts off inside and, at depth 0, exactly as they were at the start; the first pop too many panics.\<close>

theorem cli_nesting:
  assumes "ncli c = 0"
  shows "(\<forall>k \<le> length ops. 0 \<le> depth (take k ops)) \<longleftrightarrow>
    (\<exists>d. cli_run ops c = Inr d \<and> ncli d = depth ops \<and> ifl d = (depth ops = 0 \<and> ifl c))"
proof -
  have *: "if (\<forall>k \<le> length ops. 0 \<le> ncli c + depth (take k ops))
    then \<exists>d. cli_run ops c = Inr d \<and> cli_ok orig d \<and> ncli d = ncli c + depth ops
    else \<exists>e. cli_run ops c = Inl e" if "cli_ok orig c" for orig c
    using that
  proof (induction ops arbitrary: c)
    case Nil
    then show ?case by (auto simp: cli_ok_def)
  next
    case (Cons op ops)
    have split: "(\<forall>k \<le> length (op # ops). 0 \<le> ncli c + depth (take k (op # ops))) \<longleftrightarrow>
        (\<forall>k \<le> length ops. 0 \<le> ncli c + (if op then 1 else - 1) + depth (take k ops))"
      (is "?L \<longleftrightarrow> ?R")
    proof
      assume ?L
      then show ?R by (intro allI impI) (drule_tac x = "Suc k" in spec, simp add: add.assoc)
    next
      assume R: ?R
      show ?L
      proof (intro allI impI)
        fix k assume "k \<le> length (op # ops)"
        with R Cons.prems show "0 \<le> ncli c + depth (take k (op # ops))"
          by (cases k) (auto simp: cli_ok_def add.assoc)
      qed
    qed
    show ?case
    proof (cases op)
      case True
      with Cons.IH [of "pushcli c"] cli_ok_pushcli [OF Cons.prems] show ?thesis
        unfolding split by (auto simp: add.assoc)
    next
      case False
      show ?thesis
      proof (cases "ncli c = 0")
        case True
        then have "\<not> (\<forall>k \<le> length ops. 0 \<le> ncli c + (if op then 1 else - 1) + depth (take k ops))"
          using False by (intro notI, drule_tac x = 0 in spec) simp
        with popcli_zero [OF Cons.prems True] False show ?thesis
          unfolding split by auto
      next
        case nz: False
        with Cons.prems have "0 < ncli c" by (simp add: cli_ok_def)
        with Cons.prems obtain d where "popcli c = Inr d" "cli_ok orig d" "ncli d = ncli c - 1"
          using popcli_pos [of orig c] by blast
        with Cons.IH [of d] False show ?thesis
          unfolding split by (auto simp: algebra_simps)
      qed
    qed
  qed
  have "cli_ok (ifl c) c"
    using assms by (simp add: cli_ok_def)
  from * [OF this] assms show ?thesis
    by (fastforce simp: cli_ok_def split: if_splits)
qed

theorem cli_nesting_witness:
  "cli_run [True, True, False, False] \<lparr>ifl = True, ncli = 0, intena = False\<rparr> =
     Inr \<lparr>ifl = True, ncli = 0, intena = True\<rparr> \<and>
   (\<exists>d. cli_run [True, False, True] \<lparr>ifl = True, ncli = 0, intena = False\<rparr> = Inr d \<and> ncli d = 1 \<and> \<not> ifl d)"
proof -
  have "\<forall>k \<le> length [True, False, True]. 0 \<le> depth (take k [True, False, True])"
    by (auto simp: le_Suc_eq numeral_eq_Suc)
  then show ?thesis
    using cli_nesting [of "\<lparr>ifl = True, ncli = 0, intena = False\<rparr>" "[True, False, True]"]
    by (simp add: pushcli_def popcli_def)
qed

section \<open>The call stack\<close>

lemma length_walk_frames: "length (walk_frames mem n ebp) = n"
  by (induction mem n ebp rule: walk_frames.induct) auto

text \<open>The frames reached from \<open>ebp\<close> before the walk stops.\<close>

fun frame_chain :: "(u32 \<Rightarrow> u32) \<Rightarrow> nat \<Rightarrow> u32 \<Rightarrow> u32 list" where
  "frame_chain mem 0 ebp = []"
| "frame_chain mem (Suc n) ebp =
     (if KERNBASE \<le> ebp \<and> ebp \<noteq> - 1 then ebp # frame_chain mem n (mem ebp) else [])"

lemma walk_frames_chain:
  "walk_frames mem n ebp =
     map (\<lambda>e. mem (e + 4)) (frame_chain mem n ebp) @ replicate (n - length (frame_chain mem n ebp)) 0"
  by (induction mem n ebp rule: walk_frames.induct) (auto simp: KERNBASE_def not_less)

text \<open>Whatever the stack holds, also a cyclic chain of frame pointers, \<open>getcallerpcs\<close> stores exactly ten
  words: the return addresses of the chain of kernel frames in order, at most ten, then zeros; it reads
  through no pointer that is null, below the kernel or all ones.\<close>

theorem getcallerpcs_fills:
  "length (getcallerpcs mem v) = 10 \<and>
   (\<exists>frames. length frames \<le> 10 \<and> (\<forall>e \<in> set frames. KERNBASE \<le> e \<and> e \<noteq> - 1) \<and>
     (\<forall>i. Suc i < length frames \<longrightarrow> frames ! Suc i = mem (frames ! i)) \<and> (frames \<noteq> [] \<longrightarrow> hd frames = v - 8) \<and>
     getcallerpcs mem v = map (\<lambda>e. mem (e + 4)) frames @ replicate (10 - length frames) 0)"
proof (intro conjI exI [of _ "frame_chain mem 10 (v - 8)"])
  have *: "length (frame_chain mem n e) \<le> n \<and> (\<forall>x \<in> set (frame_chain mem n e). KERNBASE \<le> x \<and> x \<noteq> - 1) \<and>
      (\<forall>i. Suc i < length (frame_chain mem n e) \<longrightarrow> frame_chain mem n e ! Suc i = mem (frame_chain mem n e ! i)) \<and>
      (frame_chain mem n e \<noteq> [] \<longrightarrow> frame_chain mem n e ! 0 = e)" for n e
  proof (induction mem n e rule: frame_chain.induct)
    case (2 mem n ebp)
    show ?case
    proof (cases "KERNBASE \<le> ebp \<and> ebp \<noteq> - 1")
      case True
      let ?c = "frame_chain mem n (mem ebp)"
      have "(ebp # ?c) ! Suc i = mem ((ebp # ?c) ! i)" if "Suc i < length (ebp # ?c)" for i
        using 2 [OF True] that by (cases i) auto
      then show ?thesis using 2 [OF True] True by simp
    next
      case False
      then show ?thesis by auto
    qed
  qed simp
  show "length (getcallerpcs mem v) = 10"
    by (simp add: getcallerpcs_def length_walk_frames)
  show "getcallerpcs mem v = map (\<lambda>e. mem (e + 4)) (frame_chain mem 10 (v - 8)) @
      replicate (10 - length (frame_chain mem 10 (v - 8))) 0"
    by (simp only: getcallerpcs_def walk_frames_chain)
  show "length (frame_chain mem 10 (v - 8)) \<le> 10"
    "\<forall>e \<in> set (frame_chain mem 10 (v - 8)). KERNBASE \<le> e \<and> e \<noteq> - 1"
    "\<forall>i. Suc i < length (frame_chain mem 10 (v - 8)) \<longrightarrow>
      frame_chain mem 10 (v - 8) ! Suc i = mem (frame_chain mem 10 (v - 8) ! i)"
    "frame_chain mem 10 (v - 8) \<noteq> [] \<longrightarrow> hd (frame_chain mem 10 (v - 8)) = v - 8"
    using * [of 10 "v - 8"] by (auto simp: hd_conv_nth)
qed

theorem getcallerpcs_fills_witness:
  "\<exists>frames :: u32 list. length frames \<le> 10 \<and>
     getcallerpcs (\<lambda>a. 0x80100000) 0x80200008 = map (\<lambda>e. 0x80100000) frames @ replicate (10 - length frames) 0"
proof -
  obtain frames :: "u32 list" where f: "length frames \<le> 10"
    "getcallerpcs (\<lambda>a. 0x80100000) 0x80200008 = map (\<lambda>e. 0x80100000) frames @ replicate (10 - length frames) 0"
    using getcallerpcs_fills [of "\<lambda>a. 0x80100000" "0x80200008"] by (elim conjE exE) rule
  show ?thesis
    by (rule exI [of _ frames], rule conjI) (rule f)+
qed

section \<open>One lock, many CPUs\<close>

text \<open>Where a CPU is with respect to the lock: outside, spinning, just after its \<open>xchg\<close> returned 0, inside,
  or in \<open>release\<close> before the releasing store; \<open>Panicked\<close> stops the system.\<close>

datatype phase = Outside | Spinning | Won | Inside | Leaving

record lock_sys =
  lk :: spinlock
  cpus :: "nat \<Rightarrow> cpu_state"
  ph :: "nat \<Rightarrow> phase"
  paniced :: bool

definition lock_sys_init :: "spinlock \<Rightarrow> (nat \<Rightarrow> cpu_state) \<Rightarrow> lock_sys" where
  "lock_sys_init lk0 cs = \<lparr>lk = initlock lk0 ''lock'', cpus = cs, ph = (\<lambda>_. Outside), paniced = False\<rparr>"

text \<open>A CPU calls \<open>acquire\<close> when it is outside and \<open>release\<close> when it is inside; between, and outside, it may
  run other code that nests \<open>pushcli\<close> and returns to the depth at which it started.\<close>

inductive lstep :: "lock_sys \<Rightarrow> lock_sys \<Rightarrow> bool" where
  enter: "\<not> paniced s \<Longrightarrow> ph s i = Outside \<Longrightarrow> acquire_enter i (lk s) (cpus s i) = Inr c \<Longrightarrow>
    lstep s (s\<lparr>cpus := (cpus s)(i := c), ph := (ph s)(i := Spinning)\<rparr>)"
| enter_panic: "\<not> paniced s \<Longrightarrow> ph s i = Outside \<Longrightarrow> acquire_enter i (lk s) (cpus s i) = Inl e \<Longrightarrow>
    lstep s (s\<lparr>paniced := True\<rparr>)"
| xchg: "\<not> paniced s \<Longrightarrow> ph s i = Spinning \<Longrightarrow> xchg_locked (lk s) = (old, l) \<Longrightarrow>
    lstep s (s\<lparr>lk := l, ph := (ph s)(i := (if old then Spinning else Won))\<rparr>)"
| record_cpu: "\<not> paniced s \<Longrightarrow> ph s i = Won \<Longrightarrow>
    lstep s (s\<lparr>lk := acquire_record i frames (lk s), ph := (ph s)(i := Inside)\<rparr>)"
| leave1: "\<not> paniced s \<Longrightarrow> ph s i = Inside \<Longrightarrow> release_enter i (lk s) (cpus s i) = Inr (l, c) \<Longrightarrow>
    lstep s (s\<lparr>lk := l, cpus := (cpus s)(i := c), ph := (ph s)(i := Leaving)\<rparr>)"
| leave1_panic: "\<not> paniced s \<Longrightarrow> ph s i = Inside \<Longrightarrow> release_enter i (lk s) (cpus s i) = Inl e \<Longrightarrow>
    lstep s (s\<lparr>paniced := True\<rparr>)"
| leave2: "\<not> paniced s \<Longrightarrow> ph s i = Leaving \<Longrightarrow> release_leave (lk s) (cpus s i) = Inr (l, c) \<Longrightarrow>
    lstep s (s\<lparr>lk := l, cpus := (cpus s)(i := c), ph := (ph s)(i := Outside)\<rparr>)"
| leave2_panic: "\<not> paniced s \<Longrightarrow> ph s i = Leaving \<Longrightarrow> release_leave (lk s) (cpus s i) = Inl e \<Longrightarrow>
    lstep s (s\<lparr>paniced := True\<rparr>)"

inductive lreach :: "spinlock \<Rightarrow> (nat \<Rightarrow> cpu_state) \<Rightarrow> lock_sys \<Rightarrow> bool" for lk0 cs where
  init: "lreach lk0 cs (lock_sys_init lk0 cs)"
| step: "lreach lk0 cs s \<Longrightarrow> lstep s t \<Longrightarrow> lreach lk0 cs t"

text \<open>The invariant, with the interrupt flag and depth the CPUs had before the lock: \<open>owns\<close> says that a CPU is
  past its successful \<open>xchg\<close> and before its releasing store.\<close>

definition owns :: "phase \<Rightarrow> bool" where
  "owns p \<longleftrightarrow> p \<in> {Won, Inside, Leaving}"

definition owners :: "lock_sys \<Rightarrow> nat set" where
  "owners s = {i. owns (ph s i)}"

definition linv :: "(nat \<Rightarrow> cpu_state) \<Rightarrow> lock_sys \<Rightarrow> bool" where
  "linv cs s \<longleftrightarrow>
     \<not> paniced s \<and>
     (if locked (lk s) then \<exists>i. owners s = {i} else owners s = {}) \<and>
     (\<forall>i. lcpu (lk s) = Some i \<longleftrightarrow> ph s i = Inside) \<and>
     (\<forall>i. cli_ok (ifl (cs i)) (cpus s i) \<and> ncli (cpus s i) = (if ph s i = Outside then 0 else 1))"

lemma owns_simps [simp]:
  "\<not> owns Outside" "\<not> owns Spinning" "owns Won" "owns Inside" "owns Leaving"
  by (simp_all add: owns_def)

lemma owners_upd:
  "owners (s\<lparr>cpus := c, ph := (ph s)(i := p)\<rparr>) = (if owns p then insert i (owners s) else owners s - {i})"
  "owners (s\<lparr>lk := l, ph := (ph s)(i := p)\<rparr>) = (if owns p then insert i (owners s) else owners s - {i})"
  "owners (s\<lparr>lk := l, cpus := c, ph := (ph s)(i := p)\<rparr>) = (if owns p then insert i (owners s) else owners s - {i})"
  by (auto simp: owners_def)

lemma in_owners: "i \<in> owners s \<longleftrightarrow> owns (ph s i)"
  by (simp add: owners_def)

lemma linv_cpu:
  "linv cs s \<Longrightarrow> cli_ok (ifl (cs i)) (cpus s i) \<and> ncli (cpus s i) = (if ph s i = Outside then 0 else 1)"
  by (simp add: linv_def)

lemma holding_ok:
  "cli_ok orig c \<Longrightarrow> \<exists>d. holding me l c = Inr (locked l \<and> lcpu l = Some me, d) \<and> cli_ok orig d \<and> ncli d = ncli c"
  using cli_ok_pushcli [of orig c] popcli_pos [of orig "pushcli c"]
  by (auto simp: holding_def cli_ok_def)

lemma linv_upd:
  assumes "linv cs s" "\<not> paniced t"
    and "if locked (lk t) then \<exists>i. owners t = {i} else owners t = {}"
    and "\<forall>i. lcpu (lk t) = Some i \<longleftrightarrow> ph t i = Inside"
    and "\<forall>j. j \<noteq> i \<longrightarrow> cpus t j = cpus s j \<and> ph t j = ph s j"
    and "cli_ok (ifl (cs i)) (cpus t i) \<and> ncli (cpus t i) = (if ph t i = Outside then 0 else 1)"
  shows "linv cs t"
proof -
  have "cli_ok (ifl (cs j)) (cpus t j) \<and> ncli (cpus t j) = (if ph t j = Outside then 0 else 1)" for j
    using assms(1,5,6) unfolding linv_def by (cases "j = i") simp_all
  then show ?thesis
    using assms(2-4) unfolding linv_def by blast
qed

lemma linv_owner_unique: "linv cs s \<Longrightarrow> i \<in> owners s \<Longrightarrow> j \<in> owners s \<Longrightarrow> i = j"
  unfolding linv_def by (auto split: if_splits)

lemma owners_not_in: "i \<notin> owners s \<Longrightarrow> owners s - {i} = owners s"
  by blast

lemma linv_step: "lstep s t \<Longrightarrow> linv cs s \<Longrightarrow> linv cs t"
proof (induction rule: lstep.induct)
  case (enter s i c)
  then have ok: "cli_ok (ifl (cs i)) (cpus s i)" "ncli (cpus s i) = 0" "i \<notin> owners s"
    using linv_cpu by (auto simp: in_owners)
  with cli_ok_pushcli obtain d where
    "holding i (lk s) (pushcli (cpus s i)) = Inr (locked (lk s) \<and> lcpu (lk s) = Some i, d)"
    "cli_ok (ifl (cs i)) d" "ncli d = 1"
    using holding_ok [of "ifl (cs i)" "pushcli (cpus s i)" i "lk s"] by auto
  then have "cli_ok (ifl (cs i)) c" "ncli c = 1"
    using enter by (auto simp: acquire_enter_def split: if_splits)
  with enter ok show ?case
    by (intro linv_upd [where i = i, OF enter.prems]) (auto simp: owners_upd owners_not_in linv_def)
next
  case (enter_panic s i e)
  then have ok: "cli_ok (ifl (cs i)) (cpus s i)" and no: "lcpu (lk s) \<noteq> Some i" by (auto simp: linv_def)
  with enter_panic(3) show ?case
    using holding_ok [of "ifl (cs i)" "pushcli (cpus s i)" i "lk s"] cli_ok_pushcli [OF ok]
    by (auto simp: acquire_enter_def split: if_splits)
next
  case (xchg s i old l)
  then have "i \<notin> owners s" by (simp add: in_owners)
  with xchg show ?case
    by (intro linv_upd [where i = i, OF xchg.prems])
      (cases old; auto simp: owners_upd owners_not_in linv_def xchg_locked_def)+
next
  case (record_cpu s i frames)
  then have i: "i \<in> owners s" by (simp add: in_owners)
  then have only: "ph s j \<noteq> Inside" for j
    using record_cpu linv_owner_unique [OF record_cpu.prems i, of j] by (auto simp: in_owners)
  have "insert i (owners s) = owners s" using i by blast
  with record_cpu i only show ?case
    by (intro linv_upd [where i = i, OF record_cpu.prems])
      (auto simp: owners_upd linv_def acquire_record_def split: if_splits)
next
  case (leave1 s i l c)
  then have ok: "cli_ok (ifl (cs i)) (cpus s i)" "ncli (cpus s i) = 1" "i \<in> owners s"
    using linv_cpu by (auto simp: in_owners)
  then have l: "cli_ok (ifl (cs i)) c \<and> ncli c = 1" "l = (lk s)\<lparr>pcs := (pcs (lk s))[0 := 0], lcpu := None\<rparr>"
    using leave1 holding_ok [OF ok(1), of i "lk s"] by (auto simp: release_enter_def split: if_splits)
  have own: "locked (lk s)" "owners s = {i}"
    using ok(3) leave1.prems by (auto simp: linv_def split: if_splits)
  have out: "\<forall>j. j \<noteq> i \<longrightarrow> ph s j \<noteq> Inside"
    using own(2) in_owners [of _ s] by (metis owns_simps(4) singletonD)
  show ?case
    by (rule linv_upd [where i = i, OF leave1.prems])
      (use leave1.hyps(1) own out l in \<open>simp_all add: owners_upd\<close>)
next
  case (leave1_panic s i e)
  then have ok: "cli_ok (ifl (cs i)) (cpus s i)" and yes: "lcpu (lk s) = Some i" "i \<in> owners s"
    by (auto simp: linv_def in_owners)
  with leave1_panic have "locked (lk s)" by (auto simp: linv_def split: if_splits)
  with leave1_panic(3) yes show ?case
    using holding_ok [OF ok, of i "lk s"] by (auto simp: release_enter_def split: if_splits)
next
  case (leave2 s i l c)
  then have ok: "cli_ok (ifl (cs i)) (cpus s i)" "ncli (cpus s i) = 1" "i \<in> owners s"
    using linv_cpu by (auto simp: in_owners)
  then have l: "cli_ok (ifl (cs i)) c \<and> ncli c = 0" "l = (lk s)\<lparr>locked := False\<rparr>"
    using leave2 popcli_pos [OF ok(1)] by (auto simp: release_leave_def)
  have "owners s - {i} = {}"
    using ok leave2.prems by (auto simp: linv_def split: if_splits)
  then show ?case
    using leave2 ok l
    by (intro linv_upd [where i = i, OF leave2.prems]) (auto simp: owners_upd linv_def)
next
  case (leave2_panic s i e)
  then have ok: "cli_ok (ifl (cs i)) (cpus s i)" "ncli (cpus s i) = 1"
    using linv_cpu by auto
  with leave2_panic(3) show ?case
    using popcli_pos [OF ok(1)] by (auto simp: release_leave_def)
qed

text \<open>The spin lock excludes: the CPUs past their \<open>xchg\<close> are its holders.\<close>

lemma linv_init: "\<forall>i. ncli (cs i) = 0 \<Longrightarrow> linv cs (lock_sys_init lk0 cs)"
  by (auto simp: linv_def lock_sys_init_def initlock_def owners_def cli_ok_def)

interpretation spin: exclusive "\<lambda>s. s = lock_sys_init lk0 cs \<and> (\<forall>i. ncli (cs i) = 0)" lstep
    "\<lambda>s. lreach lk0 cs s \<and> (\<forall>i. ncli (cs i) = 0)" "\<lambda>s i. owns (ph s i)" "linv cs" for lk0 cs
proof
  fix s Q assume "lreach lk0 cs s \<and> (\<forall>i. ncli (cs i) = 0)"
  then show "Q s" if "\<And>s. s = lock_sys_init lk0 cs \<and> (\<forall>i. ncli (cs i) = 0) \<Longrightarrow> Q s" "\<And>s t. lstep s t \<Longrightarrow> Q s \<Longrightarrow> Q t"
    using lreach.induct [of lk0 cs s Q] that by blast
qed (auto intro: lreach.intros linv_init linv_step linv_owner_unique simp: in_owners)

text \<open>C15. Mutual exclusion: from CPUs at depth 0, on every interleaving of any number of CPUs that call
  \<open>acquire\<close> and \<open>release\<close> in turn, at most one CPU is between its successful \<open>xchg\<close> and its releasing store, no
  call panics, and a CPU has interrupts off from entering \<open>acquire\<close> until the lock is released, and has its
  interrupt flag back afterwards.\<close>

theorem spinlock_mutual_exclusion:
  assumes "lreach lk0 cs s" "\<forall>i. ncli (cs i) = 0"
  shows "\<not> paniced s \<and> (owns (ph s i) \<and> owns (ph s j) \<longrightarrow> i = j) \<and>
    ifl (cpus s i) = (ph s i = Outside \<and> ifl (cs i))"
proof -
  have r: "lreach lk0 cs s \<and> (\<forall>i. ncli (cs i) = 0)" using assms by blast
  have "linv cs s" using r by (rule spin.always_guarded)
  moreover have "owns (ph s i) \<and> owns (ph s j) \<longrightarrow> i = j" using spin.at_most_one [OF r] by blast
  ultimately show ?thesis
    using linv_cpu [of cs s i] by (auto simp: linv_def cli_ok_def)
qed

theorem spinlock_mutual_exclusion_witness:
  "\<exists>s. lreach \<lparr>lname = [], locked = True, lcpu = None, pcs = []\<rparr> (\<lambda>_. \<lparr>ifl = True, ncli = 0, intena = False\<rparr>) s \<and>
    ph s 0 = Spinning \<and> \<not> ifl (cpus s 0)"
proof -
  let ?lk = "\<lparr>lname = [], locked = True, lcpu = None, pcs = []\<rparr>"
  let ?cs = "\<lambda>_. \<lparr>ifl = True, ncli = 0, intena = False\<rparr>"
  have "lreach ?lk ?cs ((lock_sys_init ?lk ?cs)\<lparr>cpus := (cpus (lock_sys_init ?lk ?cs))
      (0 := \<lparr>ifl = False, ncli = 1, intena = True\<rparr>), ph := (ph (lock_sys_init ?lk ?cs))(0 := Spinning)\<rparr>)"
    by (rule lreach.step [OF lreach.init lstep.enter])
      (simp_all add: lock_sys_init_def initlock_def acquire_enter_def holding_def pushcli_def popcli_def)
  from spinlock_mutual_exclusion [OF this, of 0 0] this show ?thesis
    by fastforce
qed

text \<open>A second \<open>acquire\<close> by the CPU that holds the lock does not spin for ever but panics, and so does a
  \<open>release\<close> by a CPU that does not hold it; an acquire and release pair on a free lock leaves the lock free
  and the CPU as it was.\<close>

theorem acquire_release:
  assumes "cli_ok orig c" "\<not> locked l"
  shows "\<exists>l1 c1. acquire me frames l c = Inr (Some (l1, c1)) \<and> locked l1 \<and> \<not> ifl c1 \<and>
    acquire me frames l1 c1 = Inl (Panic ''acquire'') \<and>
    (other \<noteq> me \<longrightarrow> release other l1 c1 = Inl (Panic ''release'')) \<and>
    (\<exists>l2 c2. release me l1 c1 = Inr (l2, c2) \<and> \<not> locked l2 \<and> lcpu l2 = None \<and>
      ncli c2 = ncli c \<and> ifl c2 = ifl c)"
proof -
  have p: "cli_ok orig (pushcli c)" "ncli (pushcli c) = ncli c + 1"
    using cli_ok_pushcli [OF assms(1)] by auto
  obtain c1 where c1: "holding me l (pushcli c) = Inr (False, c1)" "cli_ok orig c1" "ncli c1 = ncli c + 1"
    using holding_ok [OF p(1), of me l] p assms by auto
  define l1 where "l1 = acquire_record me frames (l\<lparr>locked := True\<rparr>)"
  have l1: "locked l1" "lcpu l1 = Some me" by (simp_all add: l1_def acquire_record_def)
  have acq: "acquire me frames l c = Inr (Some (l1, c1))"
    using assms c1 by (simp add: acquire_def acquire_enter_def xchg_locked_def l1_def)
  have pos: "0 < ncli c1" "\<not> ifl c1"
    using c1 assms by (auto simp: cli_ok_def)
  have again: "acquire me frames l1 c1 = Inl (Panic ''acquire'')"
    using holding_ok [of orig "pushcli c1" me l1] cli_ok_pushcli [OF c1(2)] l1
    by (auto simp: acquire_def acquire_enter_def)
  have oth: "release other l1 c1 = Inl (Panic ''release'')" if "other \<noteq> me"
    using holding_ok [OF c1(2), of other l1] l1 that by (auto simp: release_def release_enter_def)
  obtain c2 where c2: "holding me l1 c1 = Inr (True, c2)" "cli_ok orig c2" "ncli c2 = ncli c1"
    using holding_ok [OF c1(2), of me l1] l1 by auto
  with pos obtain c3 where c3: "popcli c2 = Inr c3" "cli_ok orig c3" "ncli c3 = ncli c"
    using popcli_pos [OF c2(2)] c1 by auto
  have "release me l1 c1 = Inr (l1\<lparr>pcs := (pcs l1)[0 := 0], lcpu := None, locked := False\<rparr>, c3)"
    using c2 c3 by (simp add: release_def release_enter_def release_leave_def)
  moreover have "ifl c3 = ifl c" using c3 assms by (simp add: cli_ok_def)
  ultimately show ?thesis
    using acq l1 pos again oth c3 by auto
qed

theorem acquire_release_witness:
  "\<exists>l1 c1. acquire 0 [] \<lparr>lname = [], locked = False, lcpu = None, pcs = []\<rparr> \<lparr>ifl = True, ncli = 0, intena = False\<rparr> =
     Inr (Some (l1, c1)) \<and> release 1 l1 c1 = Inl (Panic ''release'')"
proof -
  have "cli_ok True \<lparr>ifl = True, ncli = 0, intena = False\<rparr>" by (simp add: cli_ok_def)
  from acquire_release [OF this, of "\<lparr>lname = [], locked = False, lcpu = None, pcs = []\<rparr>" 0 "[]" 1]
  show ?thesis by auto
qed

section \<open>Sleep locks\<close>

record sleeplock =
  slk :: spinlock
  slocked :: bool
  sname :: string
  spid :: nat

definition initsleeplock :: "sleeplock \<Rightarrow> string \<Rightarrow> sleeplock" where
  "initsleeplock l n =
     l\<lparr>slk := initlock (slk l) ''sleep lock'', sname := n, slocked := False, spid := 0\<rparr>"

text \<open>What the calls do between taking and dropping the inner spin lock. \<open>None\<close>: the caller sleeps on the lock
  and tries again when it is woken.\<close>

definition acquiresleep_try :: "nat \<Rightarrow> sleeplock \<Rightarrow> sleeplock option" where
  "acquiresleep_try pid l = (if slocked l then None else Some (l\<lparr>slocked := True, spid := pid\<rparr>))"

definition releasesleep_body :: "sleeplock \<Rightarrow> sleeplock" where
  "releasesleep_body l = l\<lparr>slocked := False, spid := 0\<rparr>"

definition holdingsleep_body :: "nat \<Rightarrow> sleeplock \<Rightarrow> bool" where
  "holdingsleep_body pid l \<longleftrightarrow> slocked l \<and> spid l = pid"

text \<open>The calls on a CPU with nobody interfering, from \<open>acquire\<close> to \<open>release\<close> of the inner lock; a sleeping
  \<open>acquiresleep\<close> stops inside \<open>sleep(lk, &lk->lk)\<close>, still with the inner lock (the flag is \<open>False\<close>).\<close>

definition with_inner ::
  "nat \<Rightarrow> u32 list \<Rightarrow> sleeplock \<Rightarrow> cpu_state \<Rightarrow> (sleeplock \<Rightarrow> cpu_state \<Rightarrow> 'a option kres) \<Rightarrow> 'a option kres" where
  "with_inner me frames l c body =
     kbind (acquire me frames (slk l) c)
       (\<lambda>r. case r of None \<Rightarrow> Inr None | Some (s1, c1) \<Rightarrow> body (l\<lparr>slk := s1\<rparr>) c1)"

definition drop_inner :: "nat \<Rightarrow> sleeplock \<Rightarrow> cpu_state \<Rightarrow> (sleeplock \<times> cpu_state) kres" where
  "drop_inner me l c = kbind (release me (slk l) c) (\<lambda>(s1, c1). Inr (l\<lparr>slk := s1\<rparr>, c1))"

definition acquiresleep ::
  "nat \<Rightarrow> u32 list \<Rightarrow> nat \<Rightarrow> sleeplock \<Rightarrow> cpu_state \<Rightarrow> (bool \<times> sleeplock \<times> cpu_state) option kres" where
  "acquiresleep me frames pid l c =
     with_inner me frames l c (\<lambda>l1 c1.
       case acquiresleep_try pid l1 of
         None \<Rightarrow> Inr (Some (False, l1, c1))
       | Some l2 \<Rightarrow> kbind (drop_inner me l2 c1) (\<lambda>(l3, c3). Inr (Some (True, l3, c3))))"

definition releasesleep ::
  "nat \<Rightarrow> u32 list \<Rightarrow> sleeplock \<Rightarrow> cpu_state \<Rightarrow> (sleeplock \<times> cpu_state) option kres" where
  "releasesleep me frames l c =
     with_inner me frames l c (\<lambda>l1 c1. kbind (drop_inner me (releasesleep_body l1) c1) (\<lambda>r. Inr (Some r)))"

definition holdingsleep ::
  "nat \<Rightarrow> u32 list \<Rightarrow> nat \<Rightarrow> sleeplock \<Rightarrow> cpu_state \<Rightarrow> (bool \<times> sleeplock \<times> cpu_state) option kres" where
  "holdingsleep me frames pid l c =
     with_inner me frames l c (\<lambda>l1 c1.
       kbind (drop_inner me l1 c1) (\<lambda>(l2, c2). Inr (Some (holdingsleep_body pid l1, l2, c2))))"

text \<open>Processes around one sleep lock, at the granularity of the inner critical sections; the process number
  is its pid.\<close>

datatype sstat = SOut | SWant | SAsleep | SHold

record sleep_sys =
  sl :: sleeplock
  st :: "nat \<Rightarrow> sstat"

definition wake_sleepers :: "(nat \<Rightarrow> sstat) \<Rightarrow> nat \<Rightarrow> sstat" where
  "wake_sleepers f = (\<lambda>i. if f i = SAsleep then SWant else f i)"

inductive sstep :: "sleep_sys \<Rightarrow> sleep_sys \<Rightarrow> bool" where
  call: "st s i = SOut \<Longrightarrow> sstep s (s\<lparr>st := (st s)(i := SWant)\<rparr>)"
| got: "st s i = SWant \<Longrightarrow> acquiresleep_try i (sl s) = Some l \<Longrightarrow>
    sstep s (s\<lparr>sl := l, st := (st s)(i := SHold)\<rparr>)"
| sleep: "st s i = SWant \<Longrightarrow> acquiresleep_try i (sl s) = None \<Longrightarrow> sstep s (s\<lparr>st := (st s)(i := SAsleep)\<rparr>)"
| wake: "st s i = SAsleep \<Longrightarrow> sstep s (s\<lparr>st := (st s)(i := SWant)\<rparr>)"
| releases: "st s i = SHold \<Longrightarrow>
    sstep s (s\<lparr>sl := releasesleep_body (sl s), st := wake_sleepers ((st s)(i := SOut))\<rparr>)"

inductive sreach :: "sleeplock \<Rightarrow> sleep_sys \<Rightarrow> bool" for l0 where
  init: "sreach l0 \<lparr>sl = initsleeplock l0 n, st = (\<lambda>_. SOut)\<rparr>"
| step: "sreach l0 s \<Longrightarrow> sstep s t \<Longrightarrow> sreach l0 t"

definition sinv :: "sleep_sys \<Rightarrow> bool" where
  "sinv s \<longleftrightarrow>
     (if slocked (sl s) then st s (spid (sl s)) = SHold \<and> (\<forall>i. st s i = SHold \<longrightarrow> i = spid (sl s))
      else (\<forall>i. st s i \<noteq> SHold \<and> st s i \<noteq> SAsleep))"

lemma sinv_holder: "sinv s \<Longrightarrow> slocked (sl s) \<Longrightarrow> st s i \<noteq> SHold \<Longrightarrow> spid (sl s) \<noteq> i"
  unfolding sinv_def by metis

lemma sinv_step: "sstep s t \<Longrightarrow> sinv s \<Longrightarrow> sinv t"
proof (induction rule: sstep.induct)
  case (got s i l)
  then show ?case by (auto simp: sinv_def acquiresleep_try_def split: if_splits)
next
  case (releases s i)
  then have "slocked (sl s)" "\<forall>j. st s j = SHold \<longrightarrow> j = i"
    unfolding sinv_def by (metis (full_types))+
  then show ?case by (simp add: sinv_def releasesleep_body_def wake_sleepers_def) blast
next
  case (call s i)
  then have "slocked (sl s) \<Longrightarrow> spid (sl s) \<noteq> i" using sinv_holder [OF call.prems, of i] by simp
  with call show ?case by (simp add: sinv_def)
next
  case (sleep s i)
  then have "slocked (sl s)" by (simp add: acquiresleep_try_def split: if_splits)
  moreover from this sleep have "spid (sl s) \<noteq> i" using sinv_holder [OF sleep.prems, of i] by simp
  ultimately show ?case using sleep by (simp add: sinv_def)
next
  case (wake s i)
  then have "slocked (sl s)" unfolding sinv_def by metis
  moreover from this wake have "spid (sl s) \<noteq> i" using sinv_holder [OF wake.prems, of i] by simp
  ultimately show ?case using wake by (simp add: sinv_def)
qed

interpretation sleeper: exclusive "\<lambda>s. \<exists>n. s = \<lparr>sl = initsleeplock l0 n, st = (\<lambda>_. SOut)\<rparr>" sstep "sreach l0"
    "\<lambda>s i. st s i = SHold" sinv for l0
proof
  show "sinv s" if "\<exists>n. s = \<lparr>sl = initsleeplock l0 n, st = (\<lambda>_. SOut)\<rparr>" for s
    using that by (auto simp: sinv_def initsleeplock_def)
  show "i = j" if "sinv s" "st s i = SHold" "st s j = SHold" for s i j
    using that unfolding sinv_def by (metis (full_types))
  show "Q s" if "sreach l0 s" "\<And>s. \<exists>n. s = \<lparr>sl = initsleeplock l0 n, st = (\<lambda>_. SOut)\<rparr> \<Longrightarrow> Q s"
    "\<And>s t. sstep s t \<Longrightarrow> Q s \<Longrightarrow> Q t" for s Q
    using that(1) by induction (use that(2-) in blast)+
qed (auto intro: sreach.intros sinv_step)

text \<open>C38. On every run of any number of processes that take and drop one sleep lock, at most one holds it,
  \<open>holdingsleep\<close> is true for exactly that one, and no process sleeps while the lock is free.\<close>

theorem sleeplock_exclusion:
  assumes "sreach l0 s"
  shows "(st s i = SHold \<and> st s j = SHold \<longrightarrow> i = j) \<and> (holdingsleep_body i (sl s) \<longleftrightarrow> st s i = SHold) \<and>
    (st s i = SAsleep \<longrightarrow> (\<exists>k. st s k = SHold))"
  using sleeper.always_guarded [OF assms] sleeper.at_most_one [OF assms]
  by (auto simp: sinv_def holdingsleep_body_def split: if_splits)

theorem sleeplock_exclusion_witness:
  "\<exists>s. sreach \<lparr>slk = \<lparr>lname = [], locked = False, lcpu = None, pcs = []\<rparr>, slocked = False, sname = [], spid = 0\<rparr> s \<and>
     st s 7 = SHold \<and> holdingsleep_body 7 (sl s)"
proof -
  let ?l = "\<lparr>slk = \<lparr>lname = [], locked = False, lcpu = None, pcs = []\<rparr>, slocked = False, sname = [], spid = 0\<rparr>"
  let ?s = "\<lparr>sl = initsleeplock ?l [], st = (\<lambda>_. SOut)(7 := SWant)\<rparr>"
  have "sreach ?l ?s"
    using sreach.step [OF sreach.init sstep.call, of ?l "[]" 7] by simp
  moreover have "acquiresleep_try 7 (sl ?s) = Some (initsleeplock ?l []\<lparr>slocked := True, spid := 7\<rparr>)"
    by (simp add: acquiresleep_try_def initsleeplock_def)
  ultimately have r: "sreach ?l (?s\<lparr>sl := initsleeplock ?l []\<lparr>slocked := True, spid := 7\<rparr>, st := (st ?s)(7 := SHold)\<rparr>)"
    by (intro sreach.step [OF _ sstep.got]) simp_all
  from sleeplock_exclusion [OF r, of 7 7] show ?thesis
    using r by (intro exI [where x = "?s\<lparr>sl := initsleeplock ?l []\<lparr>slocked := True, spid := 7\<rparr>, st := (st ?s)(7 := SHold)\<rparr>"]) auto
qed

lemma with_inner_drop:
  assumes "cli_ok orig c" "\<not> locked (slk l)" "\<And>s. f (l\<lparr>slk := s\<rparr>) = (f l)\<lparr>slk := s\<rparr>"
  shows "\<exists>s1 c1 s2 c2. acquire me frames (slk l) c = Inr (Some (s1, c1)) \<and>
    drop_inner me (f (l\<lparr>slk := s1\<rparr>)) c1 = Inr ((f l)\<lparr>slk := s2\<rparr>, c2) \<and>
    \<not> locked s2 \<and> cli_ok orig c2 \<and> ncli c2 = ncli c \<and> ifl c2 = ifl c"
proof -
  have p: "cli_ok orig (pushcli c)" "ncli (pushcli c) = ncli c + 1"
    using cli_ok_pushcli [OF assms(1)] by auto
  obtain c1 where c1: "holding me (slk l) (pushcli c) = Inr (False, c1)" "cli_ok orig c1" "ncli c1 = ncli c + 1"
    using holding_ok [OF p(1), of me "slk l"] p assms by auto
  define s1 where "s1 = acquire_record me frames ((slk l)\<lparr>locked := True\<rparr>)"
  have s1: "locked s1" "lcpu s1 = Some me" by (simp_all add: s1_def acquire_record_def)
  have acq: "acquire me frames (slk l) c = Inr (Some (s1, c1))"
    using assms(2) c1 by (simp add: acquire_def acquire_enter_def xchg_locked_def s1_def)
  obtain c2 where c2: "holding me s1 c1 = Inr (True, c2)" "cli_ok orig c2" "ncli c2 = ncli c1"
    using holding_ok [OF c1(2), of me s1] s1 by auto
  have "0 < ncli c2" using c1 c2 assms(1) by (simp add: cli_ok_def)
  with c2 obtain c3 where c3: "popcli c2 = Inr c3" "cli_ok orig c3" "ncli c3 = ncli c"
    using popcli_pos [OF c2(2)] c1 by auto
  have "release me s1 c1 = Inr (s1\<lparr>pcs := (pcs s1)[0 := 0], lcpu := None, locked := False\<rparr>, c3)"
    using c2 c3 by (simp add: release_def release_enter_def release_leave_def)
  moreover have "ifl c3 = ifl c" using c3 assms(1) by (simp add: cli_ok_def)
  ultimately show ?thesis
    using acq c3
    by (intro exI [of _ s1] exI [of _ c1] exI [of _ "s1\<lparr>pcs := (pcs s1)[0 := 0], lcpu := None, locked := False\<rparr>"]
        exI [of _ c3]) (auto simp: drop_inner_def assms(3))
qed

text \<open>On one CPU with the inner lock free, \<open>acquiresleep\<close> on a free lock takes it for the calling process
  and frees the inner lock; \<open>holdingsleep\<close> then answers for that process only, \<open>releasesleep\<close> undoes it, and
  each call leaves the nesting depth and the interrupt flag of the CPU as they were.\<close>

theorem sleeplock_calls:
  assumes "cli_ok orig c" "\<not> locked (slk l)" "\<not> slocked l"
  shows "\<exists>l1 c1. acquiresleep me frames pid l c = Inr (Some (True, l1, c1)) \<and> \<not> locked (slk l1) \<and>
    slocked l1 \<and> ncli c1 = ncli c \<and> ifl c1 = ifl c \<and>
    (\<forall>q. \<exists>l2 c2. holdingsleep me frames q l1 c1 = Inr (Some (q = pid, l2, c2)) \<and> ifl c2 = ifl c) \<and>
    (\<exists>l3 c3. releasesleep me frames l1 c1 = Inr (Some (l3, c3)) \<and> \<not> slocked l3 \<and> \<not> locked (slk l3) \<and>
      ncli c3 = ncli c \<and> ifl c3 = ifl c)"
proof -
  obtain s1 c1 s2 c2 where a: "acquire me frames (slk l) c = Inr (Some (s1, c1))"
    "drop_inner me ((l\<lparr>slk := s1\<rparr>)\<lparr>slocked := True, spid := pid\<rparr>) c1 = Inr ((l\<lparr>slocked := True, spid := pid\<rparr>)\<lparr>slk := s2\<rparr>, c2)"
    "\<not> locked s2" "cli_ok orig c2" "ncli c2 = ncli c" "ifl c2 = ifl c"
    using with_inner_drop [OF assms(1,2), of "\<lambda>l. l\<lparr>slocked := True, spid := pid\<rparr>" me frames] by auto
  define l1 where "l1 = l\<lparr>slocked := True, spid := pid, slk := s2\<rparr>"
  have l1: "\<not> locked (slk l1)" "slocked l1" "spid l1 = pid"
    using a by (simp_all add: l1_def)
  have acq: "acquiresleep me frames pid l c = Inr (Some (True, l1, c2))"
    using a assms(3) by (simp add: acquiresleep_def with_inner_def acquiresleep_try_def l1_def)
  have hold: "\<exists>l2 c3. holdingsleep me frames q l1 c2 = Inr (Some (q = pid, l2, c3)) \<and> ifl c3 = ifl c" for q
    using with_inner_drop [OF a(4) l1(1), of "\<lambda>l. l" me frames] l1 a(6)
    by (auto simp: holdingsleep_def with_inner_def holdingsleep_body_def)
  have "\<exists>l3 c3. releasesleep me frames l1 c2 = Inr (Some (l3, c3)) \<and> \<not> slocked l3 \<and> \<not> locked (slk l3) \<and>
      ncli c3 = ncli c \<and> ifl c3 = ifl c"
    using with_inner_drop [OF a(4) l1(1), of releasesleep_body me frames] a(5,6)
    by (auto simp: releasesleep_def with_inner_def releasesleep_body_def)
  with acq l1 hold a(5,6) show ?thesis by blast
qed

theorem sleeplock_calls_witness:
  "\<exists>l1 c1. acquiresleep 0 [] 7
     \<lparr>slk = \<lparr>lname = [], locked = False, lcpu = None, pcs = []\<rparr>, slocked = False, sname = [], spid = 0\<rparr>
     \<lparr>ifl = True, ncli = 0, intena = False\<rparr> = Inr (Some (True, l1, c1)) \<and> slocked l1"
proof -
  have "cli_ok True \<lparr>ifl = True, ncli = 0, intena = False\<rparr>" by (simp add: cli_ok_def)
  from sleeplock_calls [OF this, of "\<lparr>slk = \<lparr>lname = [], locked = False, lcpu = None, pcs = []\<rparr>, slocked = False,
      sname = [], spid = 0\<rparr>" 0 "[]" 7]
  show ?thesis by auto
qed

end
