(* ===== verification/Faults.thy ===== *)
theory Faults
  imports Prelude
begin

text \<open>
  Operations of the kernel on a state \<open>'s\<close> that may panic, wait, or outrun their fuel: the file system and the
  paging code are written in them.
\<close>

section \<open>Operations with faults\<close>

text \<open>A call panics, waits for a lock somebody else holds, goes through a null pointer, or its loop outruns the fuel.\<close>

datatype fault = Panics string | Waits | Stray | Runs_on

type_synonym ('s, 'a) km = "'s \<Rightarrow> fault + ('a \<times> 's)"

definition fret :: "'a \<Rightarrow> ('s, 'a) km" where
  "fret x s = Inr (x, s)"

definition fail :: "fault \<Rightarrow> ('s, 'a) km" where
  "fail e s = Inl e"

definition fbind :: "('s, 'a) km \<Rightarrow> ('a \<Rightarrow> ('s, 'b) km) \<Rightarrow> ('s, 'b) km" where
  "fbind m f s = (case m s of Inl e \<Rightarrow> Inl e | Inr (x, t) \<Rightarrow> f x t)"

definition fget :: "('s \<Rightarrow> 'a) \<Rightarrow> ('s, 'a) km" where
  "fget f s = Inr (f s, s)"

definition fmod :: "('s \<Rightarrow> 's) \<Rightarrow> ('s, unit) km" where
  "fmod g s = Inr ((), g s)"

lemma fret_simp [simp]: "fret x s = Inr (x, s)"
  and fail_simp [simp]: "fail e s = Inl e"
  and fget_simp [simp]: "fget f s = Inr (f s, s)"
  and fmod_simp [simp]: "fmod g s = Inr ((), g s)"
  by (simp_all add: fret_def fail_def fget_def fmod_def)

lemma fbind_Inl [simp]: "m s = Inl e \<Longrightarrow> fbind m f s = Inl e"
  and fbind_Inr [simp]: "m s = Inr (x, t) \<Longrightarrow> fbind m f s = f x t"
  by (simp_all add: fbind_def)

lemma fbind_cong [fundef_cong]:
  "m s = m' s' \<Longrightarrow> (\<And>x t. m' s' = Inr (x, t) \<Longrightarrow> f x t = f' x t) \<Longrightarrow> s = s' \<Longrightarrow> fbind m f s = fbind m' f' s'"
  by (auto simp: fbind_def split: sum.splits)

lemma fbind_eq_Inr: "fbind m f s = Inr (y, u) \<longleftrightarrow> (\<exists>x t. m s = Inr (x, t) \<and> f x t = Inr (y, u))"
  by (auto simp: fbind_def split: sum.splits)


section \<open>Invariants\<close>

text \<open>A call that returns keeps a property of the state.\<close>

definition keeps :: "('s \<Rightarrow> bool) \<Rightarrow> ('s, 'a) km \<Rightarrow> bool" where
  "keeps I m \<longleftrightarrow> (\<forall>s r t. I s \<longrightarrow> m s = Inr (r, t) \<longrightarrow> I t)"

lemma keepsD: "keeps I m \<Longrightarrow> I s \<Longrightarrow> m s = Inr (r, t) \<Longrightarrow> I t"
  unfolding keeps_def by blast

text \<open>Composition.\<close>

lemma keeps_fret [inv_intros]: "keeps I (fret x)"
  and keeps_fail [inv_intros]: "keeps I (fail e)"
  and keeps_fget [inv_intros]: "keeps I (fget f)"
  by (simp_all add: keeps_def)

lemma keeps_fbind [inv_intros]: "keeps I m \<Longrightarrow> (\<And>x. keeps I (f x)) \<Longrightarrow> keeps I (fbind m f)"
  unfolding keeps_def fbind_eq_Inr by blast

lemma keeps_if [inv_intros]: "keeps I m \<Longrightarrow> keeps I n \<Longrightarrow> keeps I (if P then m else n)"
  by simp

lemma keeps_option [inv_intros]: "keeps I m \<Longrightarrow> (\<And>x. keeps I (f x)) \<Longrightarrow> keeps I (case z of None \<Rightarrow> m | Some x \<Rightarrow> f x)"
  by (cases z) simp_all

lemma keeps_prod [inv_intros]: "(\<And>x y. keeps I (f x y)) \<Longrightarrow> keeps I (case z of (x, y) \<Rightarrow> f x y)"
  by (cases z) simp

lemma keeps_let [inv_intros]: "(\<And>x. keeps I (f x)) \<Longrightarrow> keeps I (let x = z in f x)"
  by simp

end
