(* ===== verification/FsBase.thy ===== *)
theory FsBase
  imports Locks Faults
begin

unbundle bit_operations_syntax

text \<open>
  \<open>fs.c\<close>, part 1: the state of the file system and the block layer. The headers \<open>fs.h\<close> and \<open>buf.h\<close> and
  the buffer cache and log (\<open>bio.c\<close>, \<open>log.c\<close>) are not in the repository: their constants, the layout of
  structures in a block and the operations \<open>bread\<close> and \<open>log_write\<close> are fields of the parameter \<open>'d env\<close>.
  Operations are functions of the state that may panic, wait for a sleep lock, or run out of fuel.
\<close>

section \<open>Structures\<close>

record superblock =
  sb_size :: nat
  nblocks :: nat
  ninodes :: nat
  nlog :: nat
  logstart :: nat
  inodestart :: nat
  bmapstart :: nat

record dinode =
  d_type :: int
  d_major :: int
  d_minor :: int
  d_nlink :: int
  d_size :: u32
  d_addrs :: "nat list"

record inode =
  i_dev :: nat
  inum :: nat
  iref :: int
  ilk :: sleeplock
  valid :: bool
  itype :: int
  major :: int
  minor :: int
  nlink :: int
  isize :: u32
  addrs :: "nat list"

record stat =
  st_type :: int
  st_dev :: nat
  st_ino :: nat
  st_nlink :: int
  st_size :: u32

text \<open>From \<open>stat.h\<close> and \<open>param.h\<close>.\<close>

definition T_DIR :: int where "T_DIR = 1"
definition T_FILE :: int where "T_FILE = 2"
definition T_DEV :: int where "T_DEV = 3"
definition NINODE :: nat where "NINODE = 50"
definition NDEV :: int where "NDEV = 10"
definition ROOTDEV :: nat where "ROOTDEV = 1"

text \<open>The environment: the disk as the buffer cache shows it, the constants of \<open>fs.h\<close>, and how structures lie
  in a block.\<close>

record 'd env =
  rd :: "'d \<Rightarrow> nat \<Rightarrow> nat \<Rightarrow> u8 list"
  wr :: "'d \<Rightarrow> nat \<Rightarrow> nat \<Rightarrow> u8 list \<Rightarrow> 'd"
  BSIZE :: nat
  BPB :: nat
  IPB :: nat
  NDIRECT :: nat
  NINDIRECT :: nat
  MAXFILE :: nat
  DIRSIZ :: nat
  ROOTINO :: nat
  dirent_size :: nat
  BBLOCK :: "nat \<Rightarrow> superblock \<Rightarrow> nat"
  IBLOCK :: "nat \<Rightarrow> superblock \<Rightarrow> nat"
  get_sb :: "u8 list \<Rightarrow> superblock"
  get_dinode :: "u8 list \<Rightarrow> nat \<Rightarrow> dinode"
  put_dinode :: "u8 list \<Rightarrow> nat \<Rightarrow> dinode \<Rightarrow> u8 list"
  get_addr :: "u8 list \<Rightarrow> nat \<Rightarrow> nat"
  put_addr :: "u8 list \<Rightarrow> nat \<Rightarrow> nat \<Rightarrow> u8 list"
  get_dirent :: "u8 list \<Rightarrow> nat \<times> string"
  put_dirent :: "nat \<times> string \<Rightarrow> u8 list"
  dev_read :: "int \<Rightarrow> (u32 \<Rightarrow> 'd \<Rightarrow> int \<times> u8 list \<times> 'd) option"
  dev_write :: "int \<Rightarrow> (u8 list \<Rightarrow> 'd \<Rightarrow> int \<times> 'd) option"

text \<open>The state: the disk, the superblock in memory, and the inode cache.\<close>

record 'd fs =
  disk :: 'd
  sb :: superblock
  icache :: "inode list"

type_synonym ('d, 'a) fsm = "('d fs, 'a) km"

text \<open>Reading a block, and writing it through the log.\<close>

definition bread :: "'d env \<Rightarrow> nat \<Rightarrow> nat \<Rightarrow> ('d, u8 list) fsm" where
  "bread E dev bno = fget (\<lambda>s. rd E (disk s) dev bno)"

definition log_write :: "'d env \<Rightarrow> nat \<Rightarrow> nat \<Rightarrow> u8 list \<Rightarrow> ('d, unit) fsm" where
  "log_write E dev bno x = fmod (\<lambda>s. s\<lparr>disk := wr E (disk s) dev bno x\<rparr>)"

lemma bread_simp [simp]: "bread E dev bno s = Inr (rd E (disk s) dev bno, s)"
  and log_write_simp [simp]: "log_write E dev bno x s = Inr ((), s\<lparr>disk := wr E (disk s) dev bno x\<rparr>)"
  by (simp_all add: bread_def log_write_def)

section \<open>Blocks\<close>

definition readsb :: "'d env \<Rightarrow> nat \<Rightarrow> ('d, unit) fsm" where
  "readsb E dev = fbind (bread E dev 1) (\<lambda>data. fmod (\<lambda>s. s\<lparr>sb := get_sb E data\<rparr>))"

definition bzero :: "'d env \<Rightarrow> nat \<Rightarrow> nat \<Rightarrow> ('d, unit) fsm" where
  "bzero E dev bno = fbind (bread E dev bno) (\<lambda>data. log_write E dev bno (replicate (BSIZE E) 0))"

text \<open>The bitmap operations on the data of a block: \<open>m = 1 << (bi % 8)\<close>.\<close>

definition bit_free :: "u8 list \<Rightarrow> nat \<Rightarrow> bool" where
  "bit_free data bi \<longleftrightarrow> data ! (bi div 8) AND push_bit (bi mod 8) 1 = 0"

definition bit_mark :: "u8 list \<Rightarrow> nat \<Rightarrow> u8 list" where
  "bit_mark data bi = data[bi div 8 := data ! (bi div 8) OR push_bit (bi mod 8) 1]"

definition bit_clear :: "u8 list \<Rightarrow> nat \<Rightarrow> u8 list" where
  "bit_clear data bi = data[bi div 8 := data ! (bi div 8) AND NOT (push_bit (bi mod 8) 1)]"

text \<open>The inner loop of \<open>balloc\<close>: the first free bit of the block that starts at \<open>b\<close>.\<close>

definition free_bit :: "'d env \<Rightarrow> nat \<Rightarrow> nat \<Rightarrow> u8 list \<Rightarrow> nat option" where
  "free_bit E sz b data = find (bit_free data) [0..<min (BPB E) (sz - b)]"

fun balloc_loop :: "'d env \<Rightarrow> nat \<Rightarrow> nat list \<Rightarrow> ('d, nat) fsm" where
  "balloc_loop E dev [] = fail (Panics ''balloc: out of blocks'')"
| "balloc_loop E dev (b # bs) =
     fbind (fget sb) (\<lambda>sb0.
     fbind (bread E dev (BBLOCK E b sb0)) (\<lambda>data.
       case free_bit E (sb_size sb0) b data of
         None \<Rightarrow> balloc_loop E dev bs
       | Some bi \<Rightarrow>
           fbind (log_write E dev (BBLOCK E b sb0) (bit_mark data bi)) (\<lambda>_.
           fbind (bzero E dev (b + bi)) (\<lambda>_. fret (b + bi)))))"

text \<open>\<open>for(b = 0; b < sb.size; b += BPB)\<close>: the multiples of \<open>BPB\<close> below the size.\<close>

definition bitmap_starts :: "'d env \<Rightarrow> nat \<Rightarrow> nat list" where
  "bitmap_starts E sz = map (\<lambda>k. k * BPB E) [0..<(sz + BPB E - 1) div BPB E]"

definition balloc :: "'d env \<Rightarrow> nat \<Rightarrow> ('d, nat) fsm" where
  "balloc E dev = fbind (fget (\<lambda>s. sb_size (sb s))) (\<lambda>sz. balloc_loop E dev (bitmap_starts E sz))"

definition bfree :: "'d env \<Rightarrow> nat \<Rightarrow> nat \<Rightarrow> ('d, unit) fsm" where
  "bfree E dev b =
     fbind (readsb E dev) (\<lambda>_.
     fbind (fget sb) (\<lambda>sb0.
     fbind (bread E dev (BBLOCK E b sb0)) (\<lambda>data.
       if bit_free data (b mod BPB E) then fail (Panics ''freeing free block'')
       else log_write E dev (BBLOCK E b sb0) (bit_clear data (b mod BPB E)))))"

section \<open>What the environment promises\<close>

text \<open>The named hypotheses: a block that was written is read back and other blocks are not touched, blocks
  have the block size, one bitmap block describes \<open>BPB\<close> blocks, and the superblock in memory is the one on
  disk.\<close>

definition disk_laws :: "'d env \<Rightarrow> bool" where
  "disk_laws E \<longleftrightarrow>
     (\<forall>d dev b x dev' b'. length x = BSIZE E \<longrightarrow>
        rd E (wr E d dev b x) dev' b' = (if dev' = dev \<and> b' = b then x else rd E d dev' b')) \<and>
     (\<forall>d dev b. length (rd E d dev b) = BSIZE E) \<and> 0 < BSIZE E"

definition bitmap_laws :: "'d env \<Rightarrow> bool" where
  "bitmap_laws E \<longleftrightarrow> BPB E = 8 * BSIZE E \<and>
     (\<forall>b c s. BBLOCK E b s = BBLOCK E c s \<longleftrightarrow> b div BPB E = c div BPB E)"

text \<open>The set of used blocks that the bitmap on disk stands for.\<close>

definition used :: "'d env \<Rightarrow> nat \<Rightarrow> 'd fs \<Rightarrow> nat \<Rightarrow> bool" where
  "used E dev s b \<longleftrightarrow> \<not> bit_free (rd E (disk s) dev (BBLOCK E b (sb s))) (b mod BPB E)"

lemma rd_wr [simp]:
  "disk_laws E \<Longrightarrow> length x = BSIZE E \<Longrightarrow>
   rd E (wr E d dev b x) dev' b' = (if dev' = dev \<and> b' = b then x else rd E d dev' b')"
  unfolding disk_laws_def by blast

lemma length_rd [simp]: "disk_laws E \<Longrightarrow> length (rd E d dev b) = BSIZE E"
  unfolding disk_laws_def by blast

lemma BSIZE_pos [simp]: "disk_laws E \<Longrightarrow> 0 < BSIZE E"
  unfolding disk_laws_def by blast

lemma bitmap_BPB: "bitmap_laws E \<Longrightarrow> BPB E = 8 * BSIZE E"
  unfolding bitmap_laws_def by blast

lemma bit_free_bit: "bit_free data bi \<longleftrightarrow> \<not> bit (data ! (bi div 8)) (bi mod 8)"
  by (simp add: bit_free_def push_bit_of_1 and_exp_eq_0_iff_not_bit)

end
