(* ===== verification/FsInode.thy ===== *)
theory FsInode
  imports FsBase
begin

text \<open>
  \<open>fs.c\<close>, part 2: the inode cache, inodes on disk, and the content of files. An inode pointer is an index
  into the cache; \<open>pid\<close> is the calling process. The cache lock is held for whole calls of \<open>iget\<close> and
  \<open>idup\<close>; the sleep lock of an inode is that of the theory of locks.
\<close>

section \<open>The cache\<close>

definition ino :: "nat \<Rightarrow> ('d, inode) fsm" where
  "ino i = fget (\<lambda>s. icache s ! i)"

definition set_ino :: "nat \<Rightarrow> (inode \<Rightarrow> inode) \<Rightarrow> ('d, unit) fsm" where
  "set_ino i f = fmod (\<lambda>s. s\<lparr>icache := (icache s)[i := f (icache s ! i)]\<rparr>)"

lemma ino_simp [simp]: "ino i s = Inr (icache s ! i, s)"
  and set_ino_simp [simp]: "set_ino i f s = Inr ((), s\<lparr>icache := (icache s)[i := f (icache s ! i)]\<rparr>)"
  by (simp_all add: ino_def set_ino_def)

text \<open>\<open>iinit\<close>: fresh locks for every entry, and the superblock.\<close>

definition iinit :: "'d env \<Rightarrow> nat \<Rightarrow> ('d, unit) fsm" where
  "iinit E dev =
     fbind (fmod (\<lambda>s. s\<lparr>icache := map (\<lambda>ip. ip\<lparr>ilk := initsleeplock (ilk ip) ''inode''\<rparr>) (icache s)\<rparr>)) (\<lambda>_.
     readsb E dev)"

text \<open>\<open>iget\<close>: the scan returns the entry that caches the inode, or the first empty entry seen.\<close>

fun iget_scan :: "nat \<Rightarrow> nat \<Rightarrow> nat \<Rightarrow> nat option \<Rightarrow> inode list \<Rightarrow> nat option \<times> nat option" where
  "iget_scan dev inm i emp [] = (None, emp)"
| "iget_scan dev inm i emp (ip # ips) =
     (if 0 < iref ip \<and> i_dev ip = dev \<and> inum ip = inm then (Some i, emp)
      else iget_scan dev inm (Suc i) (if emp = None \<and> iref ip = 0 then Some i else emp) ips)"

definition iget :: "nat \<Rightarrow> nat \<Rightarrow> ('d, nat) fsm" where
  "iget dev inm =
     fbind (fget icache) (\<lambda>cache.
       case iget_scan dev inm 0 None cache of
         (Some i, _) \<Rightarrow> fbind (set_ino i (\<lambda>ip. ip\<lparr>iref := iref ip + 1\<rparr>)) (\<lambda>_. fret i)
       | (None, None) \<Rightarrow> fail (Panics ''iget: no inodes'')
       | (None, Some i) \<Rightarrow>
           fbind (set_ino i (\<lambda>ip. ip\<lparr>i_dev := dev, inum := inm, iref := 1, valid := False\<rparr>)) (\<lambda>_. fret i))"

definition idup :: "nat \<Rightarrow> ('d, nat) fsm" where
  "idup i = fbind (set_ino i (\<lambda>ip. ip\<lparr>iref := iref ip + 1\<rparr>)) (\<lambda>_. fret i)"

section \<open>Inodes on disk\<close>

fun ialloc_loop :: "'d env \<Rightarrow> nat \<Rightarrow> int \<Rightarrow> nat list \<Rightarrow> ('d, nat) fsm" where
  "ialloc_loop E dev t [] = fail (Panics ''ialloc: no inodes'')"
| "ialloc_loop E dev t (inm # inms) =
     fbind (fget sb) (\<lambda>sb0.
     fbind (bread E dev (IBLOCK E inm sb0)) (\<lambda>data.
       if d_type (get_dinode E data (inm mod IPB E)) = 0 then
         fbind (log_write E dev (IBLOCK E inm sb0) (put_dinode E data (inm mod IPB E)
           \<lparr>d_type = t, d_major = 0, d_minor = 0, d_nlink = 0, d_size = 0, d_addrs = replicate (NDIRECT E + 1) 0\<rparr>))
           (\<lambda>_. iget dev inm)
       else ialloc_loop E dev t inms))"

definition ialloc :: "'d env \<Rightarrow> nat \<Rightarrow> int \<Rightarrow> ('d, nat) fsm" where
  "ialloc E dev t = fbind (fget sb) (\<lambda>sb0. ialloc_loop E dev t [1..<ninodes sb0])"

definition iupdate :: "'d env \<Rightarrow> nat \<Rightarrow> ('d, unit) fsm" where
  "iupdate E i =
     fbind (ino i) (\<lambda>ip.
     fbind (fget sb) (\<lambda>sb0.
     fbind (bread E (i_dev ip) (IBLOCK E (inum ip) sb0)) (\<lambda>data.
       log_write E (i_dev ip) (IBLOCK E (inum ip) sb0) (put_dinode E data (inum ip mod IPB E)
         \<lparr>d_type = itype ip, d_major = major ip, d_minor = minor ip, d_nlink = nlink ip, d_size = isize ip,
          d_addrs = addrs ip\<rparr>))))"

text \<open>Taking and dropping the sleep lock of an entry.\<close>

definition acquire_ino :: "nat \<Rightarrow> nat \<Rightarrow> ('d, unit) fsm" where
  "acquire_ino pid i =
     fbind (ino i) (\<lambda>ip. case acquiresleep_try pid (ilk ip) of
       None \<Rightarrow> fail Waits | Some l \<Rightarrow> set_ino i (\<lambda>ip. ip\<lparr>ilk := l\<rparr>))"

definition release_ino :: "nat \<Rightarrow> ('d, unit) fsm" where
  "release_ino i = set_ino i (\<lambda>ip. ip\<lparr>ilk := releasesleep_body (ilk ip)\<rparr>)"

definition load_inode :: "dinode \<Rightarrow> inode \<Rightarrow> inode" where
  "load_inode d ip = ip\<lparr>valid := True, itype := d_type d, major := d_major d, minor := d_minor d,
     nlink := d_nlink d, isize := d_size d, addrs := d_addrs d\<rparr>"

definition ilock :: "'d env \<Rightarrow> nat \<Rightarrow> nat \<Rightarrow> ('d, unit) fsm" where
  "ilock E pid i =
     fbind (ino i) (\<lambda>ip.
       if iref ip < 1 then fail (Panics ''ilock'')
       else
         fbind (acquire_ino pid i) (\<lambda>_.
         if valid ip then fret ()
         else
           fbind (fget sb) (\<lambda>sb0.
           fbind (bread E (i_dev ip) (IBLOCK E (inum ip) sb0)) (\<lambda>data.
             let d = get_dinode E data (inum ip mod IPB E)
             in fbind (set_ino i (load_inode d)) (\<lambda>_.
                if d_type d = 0 then fail (Panics ''ilock: no type'') else fret ())))))"

definition iunlock :: "nat \<Rightarrow> nat \<Rightarrow> ('d, unit) fsm" where
  "iunlock pid i =
     fbind (ino i) (\<lambda>ip.
       if \<not> holdingsleep_body pid (ilk ip) \<or> iref ip < 1 then fail (Panics ''iunlock'') else release_ino i)"

section \<open>The blocks of a file\<close>

definition bmap :: "'d env \<Rightarrow> nat \<Rightarrow> nat \<Rightarrow> ('d, nat) fsm" where
  "bmap E i bn =
     fbind (ino i) (\<lambda>ip.
       if bn < NDIRECT E then
         (if addrs ip ! bn = 0 then
            fbind (balloc E (i_dev ip)) (\<lambda>a.
            fbind (set_ino i (\<lambda>ip. ip\<lparr>addrs := (addrs ip)[bn := a]\<rparr>)) (\<lambda>_. fret a))
          else fret (addrs ip ! bn))
       else if bn - NDIRECT E < NINDIRECT E then
         fbind
           (if addrs ip ! NDIRECT E = 0 then
              fbind (balloc E (i_dev ip)) (\<lambda>a.
              fbind (set_ino i (\<lambda>ip. ip\<lparr>addrs := (addrs ip)[NDIRECT E := a]\<rparr>)) (\<lambda>_. fret a))
            else fret (addrs ip ! NDIRECT E)) (\<lambda>ind.
         fbind (bread E (i_dev ip) ind) (\<lambda>data.
           if get_addr E data (bn - NDIRECT E) = 0 then
             fbind (balloc E (i_dev ip)) (\<lambda>a.
             fbind (log_write E (i_dev ip) ind (put_addr E data (bn - NDIRECT E) a)) (\<lambda>_. fret a))
           else fret (get_addr E data (bn - NDIRECT E))))
       else fail (Panics ''bmap: out of range''))"

text \<open>\<open>itrunc\<close>: the direct blocks, the blocks listed in the indirect block, the indirect block.\<close>

fun free_direct :: "'d env \<Rightarrow> nat \<Rightarrow> nat list \<Rightarrow> ('d, unit) fsm" where
  "free_direct E i [] = fret ()"
| "free_direct E i (k # ks) =
     fbind (ino i) (\<lambda>ip.
       if addrs ip ! k \<noteq> 0 then
         fbind (bfree E (i_dev ip) (addrs ip ! k)) (\<lambda>_.
         fbind (set_ino i (\<lambda>ip. ip\<lparr>addrs := (addrs ip)[k := 0]\<rparr>)) (\<lambda>_.
         free_direct E i ks))
       else free_direct E i ks)"

fun free_listed :: "'d env \<Rightarrow> nat \<Rightarrow> u8 list \<Rightarrow> nat list \<Rightarrow> ('d, unit) fsm" where
  "free_listed E dev data [] = fret ()"
| "free_listed E dev data (j # js) =
     (if get_addr E data j \<noteq> 0 then fbind (bfree E dev (get_addr E data j)) (\<lambda>_. free_listed E dev data js)
      else free_listed E dev data js)"

definition itrunc :: "'d env \<Rightarrow> nat \<Rightarrow> ('d, unit) fsm" where
  "itrunc E i =
     fbind (free_direct E i [0..<NDIRECT E]) (\<lambda>_.
     fbind (ino i) (\<lambda>ip.
     fbind
       (if addrs ip ! NDIRECT E \<noteq> 0 then
          fbind (bread E (i_dev ip) (addrs ip ! NDIRECT E)) (\<lambda>data.
          fbind (free_listed E (i_dev ip) data [0..<NINDIRECT E]) (\<lambda>_.
          fbind (bfree E (i_dev ip) (addrs ip ! NDIRECT E)) (\<lambda>_.
          set_ino i (\<lambda>ip. ip\<lparr>addrs := (addrs ip)[NDIRECT E := 0]\<rparr>))))
        else fret ()) (\<lambda>_.
     fbind (set_ino i (\<lambda>ip. ip\<lparr>isize := 0\<rparr>)) (\<lambda>_.
     iupdate E i))))"

definition iput :: "'d env \<Rightarrow> nat \<Rightarrow> nat \<Rightarrow> ('d, unit) fsm" where
  "iput E pid i =
     fbind (acquire_ino pid i) (\<lambda>_.
     fbind (ino i) (\<lambda>ip.
     fbind
       (if valid ip \<and> nlink ip = 0 \<and> iref ip = 1 then
          fbind (itrunc E i) (\<lambda>_.
          fbind (set_ino i (\<lambda>ip. ip\<lparr>itype := 0\<rparr>)) (\<lambda>_.
          fbind (iupdate E i) (\<lambda>_.
          set_ino i (\<lambda>ip. ip\<lparr>valid := False\<rparr>))))
        else fret ()) (\<lambda>_.
     fbind (release_ino i) (\<lambda>_.
     set_ino i (\<lambda>ip. ip\<lparr>iref := iref ip - 1\<rparr>)))))"

definition iunlockput :: "'d env \<Rightarrow> nat \<Rightarrow> nat \<Rightarrow> ('d, unit) fsm" where
  "iunlockput E pid i = fbind (iunlock pid i) (\<lambda>_. iput E pid i)"

definition stati :: "nat \<Rightarrow> ('d, stat) fsm" where
  "stati i = fbind (ino i) (\<lambda>ip. fret
     \<lparr>st_type = itype ip, st_dev = i_dev ip, st_ino = inum ip, st_nlink = nlink ip, st_size = isize ip\<rparr>)"

section \<open>Reading and writing\<close>

text \<open>The copying loops from byte offset \<open>ofs\<close> with \<open>n\<close> bytes to go; the sums cannot wrap once the checks
  before the loops have passed. Each round moves at least one byte, so \<open>n\<close> rounds are enough fuel.\<close>

fun readi_loop :: "nat \<Rightarrow> 'd env \<Rightarrow> nat \<Rightarrow> nat \<Rightarrow> nat \<Rightarrow> ('d, u8 list) fsm" where
  "readi_loop fuel E i ofs 0 = fret []"
| "readi_loop 0 E i ofs (Suc n) = fail Runs_on"
| "readi_loop (Suc fuel) E i ofs (Suc n) =
     fbind (ino i) (\<lambda>ip.
     fbind (bmap E i (ofs div BSIZE E)) (\<lambda>b.
     fbind (bread E (i_dev ip) b) (\<lambda>data.
       let m = min (Suc n) (BSIZE E - ofs mod BSIZE E)
       in fbind (readi_loop fuel E i (ofs + m) (Suc n - m)) (\<lambda>rest.
          fret (seg data (ofs mod BSIZE E) (ofs mod BSIZE E + m) @ rest)))))"

definition readi :: "'d env \<Rightarrow> nat \<Rightarrow> u32 \<Rightarrow> u32 \<Rightarrow> ('d, int \<times> u8 list) fsm" where
  "readi E i ofs n =
     fbind (ino i) (\<lambda>ip.
       if itype ip = T_DEV then
         (if major ip < 0 \<or> major ip \<ge> NDEV then fret (- 1, [])
          else case dev_read E (major ip) of
                 None \<Rightarrow> fret (- 1, [])
               | Some f \<Rightarrow> (\<lambda>s. let (r, bytes, d) = f n (disk s) in Inr ((r, bytes), s\<lparr>disk := d\<rparr>)))
       else if ofs > isize ip \<or> ofs + n < ofs then fret (- 1, [])
       else
         (let k = (if ofs + n > isize ip then isize ip - ofs else n)
          in fbind (readi_loop (unat k) E i (unat ofs) (unat k)) (\<lambda>bytes. fret (sint k, bytes))))"

fun writei_loop :: "nat \<Rightarrow> 'd env \<Rightarrow> nat \<Rightarrow> nat \<Rightarrow> u8 list \<Rightarrow> ('d, unit) fsm" where
  "writei_loop fuel E i ofs [] = fret ()"
| "writei_loop 0 E i ofs (x # xs) = fail Runs_on"
| "writei_loop (Suc fuel) E i ofs (x # xs) =
     fbind (ino i) (\<lambda>ip.
     fbind (bmap E i (ofs div BSIZE E)) (\<lambda>b.
     fbind (bread E (i_dev ip) b) (\<lambda>data.
       let m = min (length (x # xs)) (BSIZE E - ofs mod BSIZE E)
       in fbind (log_write E (i_dev ip) b
            (take (ofs mod BSIZE E) data @ take m (x # xs) @ drop (ofs mod BSIZE E + m) data)) (\<lambda>_.
          writei_loop fuel E i (ofs + m) (drop m (x # xs))))))"

definition writei :: "'d env \<Rightarrow> nat \<Rightarrow> u8 list \<Rightarrow> u32 \<Rightarrow> ('d, int) fsm" where
  "writei E i src ofs =
     fbind (ino i) (\<lambda>ip.
       let n = of_nat (length src) in
       if itype ip = T_DEV then
         (if major ip < 0 \<or> major ip \<ge> NDEV then fret (- 1)
          else case dev_write E (major ip) of
                 None \<Rightarrow> fret (- 1)
               | Some f \<Rightarrow> (\<lambda>s. let (r, d) = f src (disk s) in Inr (r, s\<lparr>disk := d\<rparr>)))
       else if ofs > isize ip \<or> ofs + n < ofs then fret (- 1)
       else if ofs + n > of_nat (MAXFILE E * BSIZE E) then fret (- 1)
       else
         fbind (writei_loop (length src) E i (unat ofs) src) (\<lambda>_.
         fbind
           (if n > 0 \<and> ofs + n > isize ip then
              fbind (set_ino i (\<lambda>ip. ip\<lparr>isize := ofs + n\<rparr>)) (\<lambda>_. iupdate E i)
            else fret ()) (\<lambda>_.
         fret (sint n))))"

end
