(* ===== verification/FsDir.thy ===== *)
theory FsDir
  imports FsInode
begin

text \<open>
  \<open>fs.c\<close>, part 3: directories and path names. A C string is the list of its characters before the NUL; a
  name in a directory entry has at most \<open>DIRSIZ\<close> characters.
\<close>

section \<open>Names\<close>

text \<open>\<open>strncmp\<close> and \<open>strncpy\<close> of the C library; the end of a list is its NUL.\<close>

definition head_char :: "string \<Rightarrow> char" where
  "head_char s = (if s = [] then NUL else hd s)"

fun strncmp :: "nat \<Rightarrow> string \<Rightarrow> string \<Rightarrow> int" where
  "strncmp 0 s t = 0"
| "strncmp (Suc n) s t =
     (if head_char s \<noteq> head_char t then of_char (head_char s) - of_char (head_char t)
      else if head_char s = NUL then 0
      else strncmp n (tl s) (tl t))"

definition strncpy :: "nat \<Rightarrow> string \<Rightarrow> string" where
  "strncpy n s = take n s @ replicate (n - length s) NUL"

definition namecmp :: "'d env \<Rightarrow> string \<Rightarrow> string \<Rightarrow> int" where
  "namecmp E s t = strncmp (DIRSIZ E) s t"

section \<open>Directories\<close>

text \<open>The loops go through the offsets of the entries; the fuel is the size of the directory plus 1.\<close>

fun dirlookup_loop :: "nat \<Rightarrow> 'd env \<Rightarrow> nat \<Rightarrow> string \<Rightarrow> u32 \<Rightarrow> ('d, (nat \<times> u32) option) fsm" where
  "dirlookup_loop 0 E dp name ofs = fail Runs_on"
| "dirlookup_loop (Suc fuel) E dp name ofs =
     fbind (ino dp) (\<lambda>ip.
       if ofs < isize ip then
         fbind (readi E dp ofs (of_nat (dirent_size E))) (\<lambda>(r, bytes).
           if r \<noteq> int (dirent_size E) then fail (Panics ''dirlookup read'')
           else
             (let (inm, nm) = get_dirent E bytes
              in if inm \<noteq> 0 \<and> namecmp E name nm = 0
                 then fbind (iget (i_dev ip) inm) (\<lambda>i. fret (Some (i, ofs)))
                 else dirlookup_loop fuel E dp name (ofs + of_nat (dirent_size E))))
       else fret None)"

definition dirlookup :: "'d env \<Rightarrow> nat \<Rightarrow> string \<Rightarrow> ('d, (nat \<times> u32) option) fsm" where
  "dirlookup E dp name =
     fbind (ino dp) (\<lambda>ip.
       if itype ip \<noteq> T_DIR then fail (Panics ''dirlookup not DIR'')
       else dirlookup_loop (unat (isize ip) + 1) E dp name 0)"

fun empty_entry :: "nat \<Rightarrow> 'd env \<Rightarrow> nat \<Rightarrow> u32 \<Rightarrow> ('d, u32) fsm" where
  "empty_entry 0 E dp ofs = fail Runs_on"
| "empty_entry (Suc fuel) E dp ofs =
     fbind (ino dp) (\<lambda>ip.
       if ofs < isize ip then
         fbind (readi E dp ofs (of_nat (dirent_size E))) (\<lambda>(r, bytes).
           if r \<noteq> int (dirent_size E) then fail (Panics ''dirlink read'')
           else if fst (get_dirent E bytes) = 0 then fret ofs
           else empty_entry fuel E dp (ofs + of_nat (dirent_size E)))
       else fret ofs)"

definition dirlink :: "'d env \<Rightarrow> nat \<Rightarrow> nat \<Rightarrow> string \<Rightarrow> nat \<Rightarrow> ('d, int) fsm" where
  "dirlink E pid dp name inm =
     fbind (dirlookup E dp name) (\<lambda>r.
       case r of
         Some (i, _) \<Rightarrow> fbind (iput E pid i) (\<lambda>_. fret (- 1))
       | None \<Rightarrow>
           fbind (ino dp) (\<lambda>ip.
           fbind (empty_entry (unat (isize ip) + 1) E dp 0) (\<lambda>ofs.
           fbind (writei E dp (put_dirent E (inm, strncpy (DIRSIZ E) name)) ofs) (\<lambda>k.
             if k \<noteq> int (dirent_size E) then fail (Panics ''dirlink'') else fret 0))))"

section \<open>Paths\<close>

abbreviation slash :: char where
  "slash \<equiv> CHR ''/''"

definition skipelem :: "nat \<Rightarrow> string \<Rightarrow> (string \<times> string) option" where
  "skipelem dirsiz path =
     (let p = dropWhile (\<lambda>c. c = slash) path
      in if p = [] then None
         else
           (let s = takeWhile (\<lambda>c. c \<noteq> slash) p;
                rest = dropWhile (\<lambda>c. c \<noteq> slash) p;
                name = (if length s \<ge> dirsiz then take dirsiz s else s)
            in Some (name, dropWhile (\<lambda>c. c = slash) rest)))"

lemma skipelem_shorter: "skipelem d path = Some (nm, rest) \<Longrightarrow> length rest < length path"
proof -
  assume *: "skipelem d path = Some (nm, rest)"
  let ?p = "dropWhile (\<lambda>c. c = slash) path"
  from * have p: "?p \<noteq> []" "rest = dropWhile (\<lambda>c. c = slash) (dropWhile (\<lambda>c. c \<noteq> slash) ?p)"
    by (auto simp: skipelem_def Let_def split: if_splits)
  have "hd ?p \<noteq> slash"
    using p(1) hd_dropWhile [of "\<lambda>c. c = slash" path] by simp
  then have "length (dropWhile (\<lambda>c. c \<noteq> slash) ?p) < length ?p"
    using p(1) by (cases ?p) (auto simp: length_dropWhile_le less_Suc_eq_le)
  then show ?thesis
    using p(2) length_dropWhile_le [of "\<lambda>c. c = slash" "dropWhile (\<lambda>c. c \<noteq> slash) ?p"]
      length_dropWhile_le [of "\<lambda>c. c = slash" path] by simp
qed

lemma takeWhile_not_Nil: "xs \<noteq> [] \<Longrightarrow> P (hd xs) \<Longrightarrow> takeWhile P xs \<noteq> []"
  by (cases xs) auto

lemma takeWhile_not_in: "x \<notin> set (takeWhile (\<lambda>c. c \<noteq> x) xs)"
  by (auto dest: set_takeWhileD)

lemma takeWhile_all: "dropWhile P xs = [] \<Longrightarrow> takeWhile P xs = xs"
  by (metis append_Nil2 takeWhile_dropWhile_id)

lemma dropWhile_not_eq: "dropWhile (\<lambda>c. c \<noteq> x) xs = c # ys \<Longrightarrow> c = x \<and> xs = takeWhile (\<lambda>c. c \<noteq> x) xs @ x # ys"
  by (induction xs) (auto split: if_splits)

lemma skipelem_Some:
  assumes "dropWhile (\<lambda>c. c = slash) path \<noteq> []"
  shows "skipelem d path = Some (take d (takeWhile (\<lambda>c. c \<noteq> slash) (dropWhile (\<lambda>c. c = slash) path)),
    dropWhile (\<lambda>c. c = slash) (dropWhile (\<lambda>c. c \<noteq> slash) (dropWhile (\<lambda>c. c = slash) path)))"
  using assms unfolding skipelem_def Let_def by (simp only: if_False if_distrib) (simp only: take_all_iff not_le less_imp_le if_cancel split: if_split, auto)

text \<open>The loop of \<open>namex\<close> at the entry \<open>i\<close>; \<open>name\<close> is the last element copied.\<close>

function namex_loop :: "'d env \<Rightarrow> nat \<Rightarrow> bool \<Rightarrow> nat \<Rightarrow> string \<Rightarrow> string \<Rightarrow> ('d, nat option \<times> string) fsm" where
  "namex_loop E pid parent i path name =
     (case skipelem (DIRSIZ E) path of
        None \<Rightarrow>
          (if parent then fbind (iput E pid i) (\<lambda>_. fret (None, name)) else fret (Some i, name))
      | Some (nm, rest) \<Rightarrow>
          fbind (ilock E pid i) (\<lambda>_.
          fbind (ino i) (\<lambda>ip.
            if itype ip \<noteq> T_DIR then fbind (iunlockput E pid i) (\<lambda>_. fret (None, nm))
            else if parent \<and> rest = [] then fbind (iunlock pid i) (\<lambda>_. fret (Some i, nm))
            else
              fbind (dirlookup E i nm) (\<lambda>next.
                case next of
                  None \<Rightarrow> fbind (iunlockput E pid i) (\<lambda>_. fret (None, nm))
                | Some (k, _) \<Rightarrow>
                    fbind (iunlockput E pid i) (\<lambda>_. namex_loop E pid parent k rest nm)))))"
  by pat_completeness auto
termination
  by (relation "measure (\<lambda>(E, pid, parent, i, path, name). length path)") (auto dest: skipelem_shorter)

declare namex_loop.simps [simp del]

definition namex :: "'d env \<Rightarrow> nat \<Rightarrow> nat \<Rightarrow> string \<Rightarrow> bool \<Rightarrow> string \<Rightarrow> ('d, nat option \<times> string) fsm" where
  "namex E pid cwd path parent name =
     fbind (if path \<noteq> [] \<and> hd path = slash then iget ROOTDEV (ROOTINO E) else idup cwd) (\<lambda>i.
       namex_loop E pid parent i path name)"

definition namei :: "'d env \<Rightarrow> nat \<Rightarrow> nat \<Rightarrow> string \<Rightarrow> ('d, nat option) fsm" where
  "namei E pid cwd path = fbind (namex E pid cwd path False []) (\<lambda>(i, _). fret i)"

definition nameiparent :: "'d env \<Rightarrow> nat \<Rightarrow> nat \<Rightarrow> string \<Rightarrow> ('d, nat option \<times> string) fsm" where
  "nameiparent E pid cwd path = namex E pid cwd path True []"

section \<open>Path elements\<close>

text \<open>The elements of a path: the maximal runs of characters other than slash, cut to \<open>DIRSIZ\<close>.\<close>

function elements :: "nat \<Rightarrow> string \<Rightarrow> string list" where
  "elements d path = (case skipelem d path of None \<Rightarrow> [] | Some (nm, rest) \<Rightarrow> nm # elements d rest)"
  by pat_completeness auto
termination
  by (relation "measure (\<lambda>(d, path). length path)") (auto dest: skipelem_shorter)

declare elements.simps [simp del]

fun split_slash :: "string \<Rightarrow> string list" where
  "split_slash [] = [[]]"
| "split_slash (c # cs) =
     (if c = slash then [] # split_slash cs else (c # hd (split_slash cs)) # tl (split_slash cs))"

lemma split_slash_not_Nil: "split_slash s \<noteq> []"
  by (cases s) auto

lemma split_slash_run:
  "slash \<notin> set s \<Longrightarrow> split_slash (s @ slash # t) = s # split_slash t"
  "slash \<notin> set s \<Longrightarrow> split_slash s = [s]"
  by (induction s) auto

lemma split_slash_skip:
  "filter (\<lambda>x. x \<noteq> []) (split_slash (dropWhile (\<lambda>c. c = slash) s)) = filter (\<lambda>x. x \<noteq> []) (split_slash s)"
  by (induction s) auto

lemma elements_parts: "elements d path = map (take d) (filter (\<lambda>x. x \<noteq> []) (split_slash path))"
proof (induction d path rule: elements.induct)
  case (1 d path)
  let ?p = "dropWhile (\<lambda>c. c = slash) path"
  let ?s = "takeWhile (\<lambda>c. c \<noteq> slash) ?p" and ?r = "dropWhile (\<lambda>c. c \<noteq> slash) ?p"
  show ?case
  proof (cases "?p = []")
    case True
    then have "skipelem d path = None" by (simp add: skipelem_def)
    with True show ?thesis
      using split_slash_skip [of path, unfolded True] by (subst elements.simps) simp
  next
    case False
    then have sk: "skipelem d path = Some (take d ?s, dropWhile (\<lambda>c. c = slash) ?r)"
      by (rule skipelem_Some)
    have hd: "hd ?p \<noteq> slash" using False hd_dropWhile [of "\<lambda>c. c = slash" path] by simp
    then have "?s \<noteq> []"
      using False by (intro takeWhile_not_Nil)
    moreover have "slash \<notin> set ?s"
      by (rule takeWhile_not_in)
    ultimately have s: "?s \<noteq> []" "slash \<notin> set ?s" by blast+
    have split: "filter (\<lambda>x. x \<noteq> []) (split_slash ?p) = ?s # filter (\<lambda>x. x \<noteq> []) (split_slash ?r)"
    proof (cases ?r)
      case Nil
      then have "?p = ?s" by (rule takeWhile_all [symmetric])
      then have "split_slash ?p = [?s]"
        by (rule trans [OF arg_cong [where f = split_slash] split_slash_run(2) [OF s(2)]])
      then show ?thesis
        unfolding Nil using s(1) by simp
    next
      case (Cons c r')
      note c = dropWhile_not_eq [OF Cons]
      have "split_slash ?p = ?s # split_slash r'"
        by (rule trans [OF arg_cong [where f = split_slash, OF conjunct2 [OF c]] split_slash_run(1) [OF s(2)]])
      then show ?thesis
        unfolding Cons conjunct1 [OF c] using s(1) by simp
    qed
    show ?thesis
      using 1 [OF sk refl] sk split split_slash_skip [of path] split_slash_skip [of ?r]
      by (subst elements.simps) simp
  qed
qed

text \<open>C26. Calling \<open>skipelem\<close> until it returns 0 gives the parts of the path between slashes that are not
  empty, in order, each cut to \<open>DIRSIZ\<close> characters, for all paths with leading, doubled and trailing
  slashes; it returns 0 exactly when no part is left, and every call shortens the path.\<close>

theorem skipelem_elements:
  "elements d path = map (take d) (filter (\<lambda>x. x \<noteq> []) (split_slash path)) \<and>
   (skipelem d path = None) = (set path \<subseteq> {slash}) \<and>
   (case skipelem d path of None \<Rightarrow> True | Some (nm, rest) \<Rightarrow> length rest < length path)"
proof (intro conjI)
  show "elements d path = map (take d) (filter (\<lambda>x. x \<noteq> []) (split_slash path))" by (rule elements_parts)
  show "(skipelem d path = None) = (set path \<subseteq> {slash})"
    by (auto simp: skipelem_def Let_def dropWhile_eq_Nil_conv)
  show "case skipelem d path of None \<Rightarrow> True | Some (nm, rest) \<Rightarrow> length rest < length path"
    using skipelem_shorter by (auto split: option.split)
qed

end
