(* ===== verification/FsBitmap.thy ===== *)
theory FsBitmap
  imports FsBase
begin

text \<open>
  The block allocator of \<open>fs.c\<close> against its abstract specification: the bitmap on disk stands for a set of
  free blocks, \<open>balloc\<close> takes the least element out of it and \<open>bfree\<close> puts one back.
\<close>

section \<open>Bits of a bitmap block\<close>

lemma bit_2_exp: "i < 8 \<Longrightarrow> bit (2 ^ i :: u8) j \<longleftrightarrow> i = j"
  by (auto simp: bit_exp_iff possible_bit_word)

lemma free_mark:
  assumes "i div 8 < length data"
  shows "bit_free (bit_mark data i) j \<longleftrightarrow> bit_free data j \<and> i \<noteq> j"
proof (cases "i div 8 = j div 8")
  case True
  then have "i mod 8 = j mod 8 \<longleftrightarrow> i = j"
    by (metis div_mod_decomp)
  with assms True show ?thesis
    by (simp add: bit_free_bit bit_mark_def bit_or_iff push_bit_of_1 bit_2_exp)
next
  case False
  with assms show ?thesis
    by (auto simp: bit_free_bit bit_mark_def)
qed

lemma free_clear:
  assumes "i div 8 < length data"
  shows "bit_free (bit_clear data i) j \<longleftrightarrow> bit_free data j \<or> i = j"
proof (cases "i div 8 = j div 8")
  case True
  then have "i mod 8 = j mod 8 \<longleftrightarrow> i = j"
    by (metis div_mod_decomp)
  moreover have "j mod 8 < LENGTH(8)" by simp
  ultimately show ?thesis
    using assms True by (auto simp: bit_free_bit bit_clear_def bit_and_iff bit_not_iff push_bit_of_1 bit_2_exp)
next
  case False
  with assms show ?thesis
    by (auto simp: bit_free_bit bit_clear_def)
qed

lemma length_bit_mark [simp]: "length (bit_mark data i) = length data" "length (bit_clear data i) = length data"
  by (simp_all add: bit_mark_def bit_clear_def)

section \<open>The free set\<close>

definition free_blocks :: "'d env \<Rightarrow> nat \<Rightarrow> 'd fs \<Rightarrow> nat set" where
  "free_blocks E dev s = {b. b < sb_size (sb s) \<and> \<not> used E dev s b}"

text \<open>The bitmap blocks themselves are marked in use.\<close>

definition bitmap_used :: "'d env \<Rightarrow> nat \<Rightarrow> 'd fs \<Rightarrow> bool" where
  "bitmap_used E dev s \<longleftrightarrow> (\<forall>b < sb_size (sb s). BBLOCK E b (sb s) \<notin> free_blocks E dev s)"

definition is_bitmap :: "'d env \<Rightarrow> 'd fs \<Rightarrow> nat \<Rightarrow> bool" where
  "is_bitmap E s b \<longleftrightarrow> (\<exists>c < sb_size (sb s). b = BBLOCK E c (sb s))"

text \<open>The specification: allocation takes the least free block.\<close>

definition alloc_spec :: "nat set \<Rightarrow> (nat \<times> nat set) option" where
  "alloc_spec F = (if F = {} then None else Some (Min F, F - {Min F}))"

definition free_spec :: "nat \<Rightarrow> nat set \<Rightarrow> nat set option" where
  "free_spec b F = (if b \<in> F then None else Some (insert b F))"

lemma finite_free [simp]: "finite (free_blocks E dev s)"
  by (simp add: free_blocks_def)

lemma BBLOCK_same:
  "bitmap_laws E \<Longrightarrow> BBLOCK E b s = BBLOCK E c s \<longleftrightarrow> b div BPB E = c div BPB E"
  by (simp add: bitmap_laws_def)

lemma bit_in_block: "bitmap_laws E \<Longrightarrow> disk_laws E \<Longrightarrow> (b mod BPB E) div 8 < BSIZE E"
proof -
  assume laws: "bitmap_laws E" "disk_laws E"
  then have "b mod BPB E < 8 * BSIZE E" by (simp add: bitmap_BPB)
  then show ?thesis by (metis less_mult_imp_div_less mult.commute)
qed

lemma free_bit_Some:
  "free_bit E n b data = Some i \<longleftrightarrow>
   i < BPB E \<and> b + i < n \<and> bit_free data i \<and> (\<forall>k < i. \<not> bit_free data k)"
  unfolding free_bit_def find_Some_iff by (auto simp: less_diff_conv add.commute)

lemma free_bit_None:
  "free_bit E n b data = None \<longleftrightarrow> (\<forall>i < BPB E. b + i < n \<longrightarrow> \<not> bit_free data i)"
  unfolding free_bit_def find_None_iff by (auto simp: less_diff_conv add.commute)

lemma used_in_block:
  assumes "bitmap_laws E" "i < BPB E"
  shows "used E dev s (k * BPB E + i) \<longleftrightarrow> \<not> bit_free (rd E (disk s) dev (BBLOCK E (k * BPB E) (sb s))) i"
proof -
  have "BBLOCK E (k * BPB E + i) (sb s) = BBLOCK E (k * BPB E) (sb s)"
    using assms by (simp add: BBLOCK_same)
  then show ?thesis using assms(2) by (simp add: used_def)
qed

text \<open>The state after taking block \<open>b\<close>.\<close>

definition taken :: "'d env \<Rightarrow> nat \<Rightarrow> nat \<Rightarrow> 'd fs \<Rightarrow> 'd fs" where
  "taken E dev b s =
     (let m = BBLOCK E b (sb s);
          d = wr E (disk s) dev m (bit_mark (rd E (disk s) dev m) (b mod BPB E))
      in s\<lparr>disk := wr E d dev b (replicate (BSIZE E) 0)\<rparr>)"

lemma taken_simps [simp]: "sb (taken E dev b s) = sb s" "icache (taken E dev b s) = icache s"
  by (simp_all add: taken_def Let_def)

lemma rd_taken:
  assumes "disk_laws E"
  shows "rd E (disk (taken E dev b s)) dev' c =
    (if dev' = dev \<and> c = b then replicate (BSIZE E) 0
     else if dev' = dev \<and> c = BBLOCK E b (sb s) then bit_mark (rd E (disk s) dev c) (b mod BPB E)
     else rd E (disk s) dev' c)"
  using assms by (simp add: taken_def Let_def)

lemma used_taken:
  assumes laws: "disk_laws E" "bitmap_laws E" and "\<not> is_bitmap E s b" "c < sb_size (sb s)"
  shows "used E dev (taken E dev b s) c \<longleftrightarrow> used E dev s c \<or> c = b"
proof -
  have ne: "BBLOCK E c (sb s) \<noteq> b"
    using assms(3,4) by (auto simp: is_bitmap_def)
  show ?thesis
  proof (cases "BBLOCK E c (sb s) = BBLOCK E b (sb s)")
    case True
    then have "c div BPB E = b div BPB E" using BBLOCK_same [OF laws(2)] by blast
    then have "c mod BPB E = b mod BPB E \<longleftrightarrow> c = b" by (metis div_mod_decomp)
    then show ?thesis
      using True ne laws bit_in_block [OF laws(2,1), of b]
      by (auto simp: used_def rd_taken free_mark)
  next
    case False
    with ne laws show ?thesis by (auto simp: used_def rd_taken)
  qed
qed

lemma balloc_loop_result:
  assumes laws: "disk_laws E" "bitmap_laws E" and n: "n = sb_size (sb s)"
    and below: "\<forall>c < j * BPB E. c < n \<longrightarrow> used E dev s c" and K: "n \<le> (j + length ks) * BPB E"
    and ks: "ks = map (\<lambda>k. k * BPB E) [j..<j + length ks]"
  shows "balloc_loop E dev ks s =
    (if free_blocks E dev s = {} then Inl (Panics ''balloc: out of blocks'')
     else Inr (Min (free_blocks E dev s), taken E dev (Min (free_blocks E dev s)) s))"
  using below K ks
proof (induction ks arbitrary: j)
  case Nil
  then have "free_blocks E dev s = {}" by (auto simp: free_blocks_def n)
  then show ?case by simp
next
  case (Cons b ks)
  let ?P = "BPB E"
  have b: "b = j * ?P" and ks: "ks = map (\<lambda>k. k * ?P) [Suc j..<Suc j + length ks]"
    using Cons.prems(3) by (simp_all add: upt_conv_Cons del: upt_Suc)
  let ?data = "rd E (disk s) dev (BBLOCK E b (sb s))"
  show ?case
  proof (cases "free_bit E n b ?data")
    case None
    then have blk: "\<And>i. i < ?P \<Longrightarrow> j * ?P + i < n \<Longrightarrow> used E dev s (j * ?P + i)"
      using used_in_block [OF laws(2)] by (auto simp: free_bit_None b)
    have below': "\<forall>c < Suc j * ?P. c < n \<longrightarrow> used E dev s c"
    proof (intro allI impI)
      fix c assume c: "c < Suc j * ?P" "c < n"
      show "used E dev s c"
      proof (cases "c < j * ?P")
        case False
        then have "c = j * ?P + (c - j * ?P)" "c - j * ?P < ?P" using c by auto
        with blk [of "c - j * ?P"] c show ?thesis by metis
      qed (use Cons.prems(1) c in blast)
    qed
    have "n \<le> (Suc j + length ks) * ?P" using Cons.prems(2) by simp
    from Cons.IH [OF below' this ks] None show ?thesis by (simp add: n [symmetric])
  next
    case (Some i)
    then have i: "i < ?P" "b + i < n" "bit_free ?data i" "\<forall>k < i. \<not> bit_free ?data k"
      by (auto simp: free_bit_Some)
    have "b + i \<in> free_blocks E dev s"
      using i used_in_block [OF laws(2) i(1)] by (simp add: free_blocks_def n b)
    moreover have "b + i \<le> c" if c: "c \<in> free_blocks E dev s" for c
    proof (rule ccontr)
      assume "\<not> b + i \<le> c"
      then have lt: "c < b + i" by simp
      from c have c': "c < n" "\<not> used E dev s c" by (auto simp: free_blocks_def n)
      with Cons.prems(1) have "b \<le> c" by (metis b not_le)
      then obtain k where k: "c = b + k" "k < i" using lt by (metis le_Suc_ex add_less_cancel_left)
      with i have "used E dev s c" using used_in_block [OF laws(2), of k] by (simp add: b)
      with c' show False by simp
    qed
    ultimately have min: "Min (free_blocks E dev s) = b + i" by (intro Min_eqI) auto
    have m: "(b + i) mod ?P = i" "BBLOCK E (b + i) (sb s) = BBLOCK E b (sb s)"
      using i by (simp_all add: b BBLOCK_same [OF laws(2)])
    show ?thesis
      using Some i min \<open>b + i \<in> free_blocks E dev s\<close>
      by (auto simp: n [symmetric] bzero_def taken_def Let_def m)
  qed
qed

lemma balloc_result:
  assumes laws: "disk_laws E" "bitmap_laws E"
  shows "balloc E dev s =
    (if free_blocks E dev s = {} then Inl (Panics ''balloc: out of blocks'')
     else Inr (Min (free_blocks E dev s), taken E dev (Min (free_blocks E dev s)) s))"
proof -
  let ?n = "sb_size (sb s)" and ?P = "BPB E"
  have P: "0 < ?P" using laws by (simp add: bitmap_BPB)
  have "?n \<le> ((?n + ?P - 1) div ?P) * ?P"
    using P div_mult_mod_eq [of "?n + ?P - 1" ?P] mod_less_divisor [OF P, of "?n + ?P - 1"] by linarith
  then show ?thesis
    unfolding balloc_def
    using balloc_loop_result [OF laws refl, where j = 0 and dev = dev and s = s and ks = "bitmap_starts E ?n"]
    by (simp add: bitmap_starts_def)
qed

text \<open>C1. Seen through the bitmap on disk, \<open>balloc\<close> refines taking the least element out of the set of free
  blocks: it panics exactly when the set is empty; otherwise it returns the least free block, which is zeroed
  on disk, exactly that block leaves the set, and no block but it and its bitmap block changes.\<close>

theorem balloc_refines:
  assumes "disk_laws E" "bitmap_laws E" "bitmap_used E dev s"
  shows "case balloc E dev s of
      Inl e \<Rightarrow> alloc_spec (free_blocks E dev s) = None \<and> e = Panics ''balloc: out of blocks''
    | Inr (b, t) \<Rightarrow> alloc_spec (free_blocks E dev s) = Some (b, free_blocks E dev t) \<and>
        rd E (disk t) dev b = replicate (BSIZE E) 0 \<and> bitmap_used E dev t \<and> sb t = sb s \<and> icache t = icache s \<and>
        (\<forall>dev' c. (dev', c) \<notin> {(dev, b), (dev, BBLOCK E b (sb s))} \<longrightarrow> rd E (disk t) dev' c = rd E (disk s) dev' c)"
proof (cases "free_blocks E dev s = {}")
  case True
  then show ?thesis by (simp add: balloc_result [OF assms(1,2)] alloc_spec_def)
next
  case False
  let ?b = "Min (free_blocks E dev s)" and ?t = "taken E dev (Min (free_blocks E dev s)) s"
  have b: "?b \<in> free_blocks E dev s" using False by (intro Min_in) auto
  then have nb: "\<not> is_bitmap E s ?b"
    using assms(3) by (auto simp: is_bitmap_def bitmap_used_def)
  have free: "free_blocks E dev ?t = free_blocks E dev s - {?b}"
    using used_taken [OF assms(1,2) nb] by (auto simp: free_blocks_def)
  then have "bitmap_used E dev ?t"
    using assms(3) by (auto simp: bitmap_used_def)
  with False free show ?thesis
    by (simp add: balloc_result [OF assms(1,2)] alloc_spec_def rd_taken [OF assms(1)])
qed

lemma bfree_used:
  assumes "disk_laws E" "bitmap_laws E" "get_sb E (rd E (disk s) dev 1) = sb s" "b < sb_size (sb s)" "b \<notin> free_blocks E dev s"
  shows "\<exists>t. bfree E dev b s = Inr ((), t) \<and> free_blocks E dev t = insert b (free_blocks E dev s) \<and> sb t = sb s \<and> icache t = icache s \<and>
    (\<forall>dev' c. (dev', c) \<noteq> (dev, BBLOCK E b (sb s)) \<longrightarrow> rd E (disk t) dev' c = rd E (disk s) dev' c)"
proof -
  let ?m = "BBLOCK E b (sb s)"
  let ?t = "s\<lparr>disk := wr E (disk s) dev ?m (bit_clear (rd E (disk s) dev ?m) (b mod BPB E))\<rparr>"
  have s: "s\<lparr>sb := sb s\<rparr> = s" by simp
  have "used E dev s b" using assms(4,5) by (simp add: free_blocks_def)
  then have run: "bfree E dev b s = Inr ((), ?t)"
    using assms(3) by (simp add: bfree_def readsb_def s used_def)
  have used: "used E dev ?t c \<longleftrightarrow> used E dev s c \<and> c \<noteq> b" for c
  proof (cases "BBLOCK E c (sb s) = ?m")
    case same: True
    then have "c div BPB E = b div BPB E" using BBLOCK_same [OF assms(2)] by blast
    then have "c mod BPB E = b mod BPB E \<longleftrightarrow> c = b" by (metis div_mod_decomp)
    then show ?thesis
      using same assms(1) bit_in_block [OF assms(2,1), of b] by (auto simp: used_def free_clear)
  next
    case False
    with assms(1) show ?thesis by (auto simp: used_def)
  qed
  have "free_blocks E dev ?t = insert b (free_blocks E dev s)"
    using used assms(4) by (auto simp: free_blocks_def)
  with run assms(1) show ?thesis by (intro exI [of _ ?t]) simp
qed

text \<open>C24. \<open>bfree\<close> of a block below the size refines putting it back into the set of free blocks: it panics
  exactly when the block is free already, otherwise exactly that block enters the set and no block but its
  bitmap block changes.\<close>

theorem bfree_refines:
  assumes "disk_laws E" "bitmap_laws E" "get_sb E (rd E (disk s) dev 1) = sb s" "b < sb_size (sb s)"
  shows "case bfree E dev b s of
      Inl e \<Rightarrow> free_spec b (free_blocks E dev s) = None \<and> e = Panics ''freeing free block''
    | Inr (u, t) \<Rightarrow> free_spec b (free_blocks E dev s) = Some (free_blocks E dev t) \<and> sb t = sb s \<and>
        icache t = icache s \<and>
        (\<forall>dev' c. (dev', c) \<noteq> (dev, BBLOCK E b (sb s)) \<longrightarrow> rd E (disk t) dev' c = rd E (disk s) dev' c)"
proof (cases "b \<in> free_blocks E dev s")
  case True
  moreover have "s\<lparr>sb := sb s\<rparr> = s" by simp
  ultimately show ?thesis
    using assms(3) by (simp add: bfree_def readsb_def used_def free_spec_def free_blocks_def)
next
  case False
  with bfree_used [OF assms False] show ?thesis by (auto simp: free_spec_def)
qed

section \<open>The hypotheses can hold\<close>

text \<open>An environment with blocks of 64 bytes over a disk that is a function.\<close>

definition example_env :: "(nat \<Rightarrow> nat \<Rightarrow> u8 list) env" where
  "example_env =
     \<lparr>rd = (\<lambda>d dev b. take 64 (d dev b @ replicate 64 0)), wr = (\<lambda>d dev b x. d(dev := (d dev)(b := x))),
      BSIZE = 64, BPB = 512, IPB = 1, NDIRECT = 2, NINDIRECT = 4, MAXFILE = 6, DIRSIZ = 4, ROOTINO = 1,
      dirent_size = 5, BBLOCK = (\<lambda>b s. bmapstart s + b div 512), IBLOCK = (\<lambda>i s. inodestart s + i),
      get_sb = (\<lambda>x. \<lparr>sb_size = 16, nblocks = 8, ninodes = 4, nlog = 0, logstart = 0, inodestart = 3, bmapstart = 2\<rparr>),
      get_dinode = (\<lambda>x k. \<lparr>d_type = 0, d_major = 0, d_minor = 0, d_nlink = 0, d_size = 0, d_addrs = [0, 0, 0]\<rparr>),
      put_dinode = (\<lambda>x k d. x), get_addr = (\<lambda>x k. unat (x ! k)), put_addr = (\<lambda>x k a. x[k := of_nat a]),
      get_dirent = (\<lambda>x. (unat (hd x), map (\<lambda>b. char_of (unat b)) (tl x))),
      put_dirent = (\<lambda>(i, s). of_nat i # map of_char s), dev_read = (\<lambda>_. None), dev_write = (\<lambda>_. None)\<rparr>"

definition example_state :: "(nat \<Rightarrow> nat \<Rightarrow> u8 list) fs" where
  "example_state =
     \<lparr>disk = (\<lambda>dev b. if b = 2 then [0x7F] else []),
      sb = \<lparr>sb_size = 16, nblocks = 8, ninodes = 4, nlog = 0, logstart = 0, inodestart = 3, bmapstart = 2\<rparr>,
      icache = []\<rparr>"

lemma example_disk_laws: "disk_laws example_env"
  by (auto simp: disk_laws_def example_env_def)

lemma example_bitmap_laws: "bitmap_laws example_env"
  by (simp add: bitmap_laws_def example_env_def)

lemma example_bitmap_used: "bitmap_used example_env 1 example_state"
proof -
  have "\<not> bit_free (take 64 ((if (2::nat) = 2 then [0x7F] else []) @ replicate 64 0)) (2 mod 512)"
    by (simp add: bit_free_bit)
  then have "used example_env 1 example_state 2"
    by (simp add: used_def example_env_def example_state_def)
  moreover have "BBLOCK example_env b (sb example_state) = 2" if "b < 16" for b
    using that by (simp add: example_env_def example_state_def)
  moreover have "sb_size (sb example_state) = 16" by (simp add: example_state_def)
  ultimately show ?thesis
    by (simp add: bitmap_used_def free_blocks_def)
qed

theorem balloc_refines_witness:
  "case balloc example_env 1 example_state of
     Inl e \<Rightarrow> e = Panics ''balloc: out of blocks''
   | Inr (b, t) \<Rightarrow> alloc_spec (free_blocks example_env 1 example_state) = Some (b, free_blocks example_env 1 t) \<and>
       rd example_env (disk t) 1 b = replicate 64 0"
proof -
  have B: "BSIZE example_env = 64" by (simp add: example_env_def)
  show ?thesis
    using balloc_refines [OF example_disk_laws example_bitmap_laws example_bitmap_used] unfolding B
    by (cases "balloc example_env 1 example_state") (simp_all add: case_prod_beta)
qed

theorem bfree_refines_witness:
  "case bfree example_env 1 5 example_state of
     Inl e \<Rightarrow> e = Panics ''freeing free block''
   | Inr (u, t) \<Rightarrow> free_spec 5 (free_blocks example_env 1 example_state) = Some (free_blocks example_env 1 t)"
proof -
  have "get_sb example_env (rd example_env (disk example_state) 1 1) = sb example_state"
    "5 < sb_size (sb example_state)"
    by (simp_all add: example_env_def example_state_def)
  from bfree_refines [OF example_disk_laws example_bitmap_laws this] show ?thesis
    by (cases "bfree example_env 1 5 example_state") (simp_all add: case_prod_beta)
qed

end
