(* ===== verification/FsInv.thy ===== *)
theory FsInv
  imports FsDir FsBitmap
begin

text \<open>
  The invariant of the file system state that every operation of \<open>fs.c\<close> keeps: the shape of the inode cache
  and of the block lists in it, and that no inode is cached twice. The lemmas that an operation keeps the
  invariant are collected in \<open>inv_intros\<close>.
\<close>

definition cache_ok :: "inode list \<Rightarrow> bool" where
  "cache_ok c \<longleftrightarrow> (\<forall>i < length c. \<forall>j < length c. i \<noteq> j \<longrightarrow> 0 < iref (c ! i) \<longrightarrow> 0 < iref (c ! j) \<longrightarrow>
     (i_dev (c ! i), inum (c ! i)) \<noteq> (i_dev (c ! j), inum (c ! j)))"

definition fs_inv :: "'d env \<Rightarrow> 'd fs \<Rightarrow> bool" where
  "fs_inv E s \<longleftrightarrow> length (icache s) = NINODE \<and> (\<forall>ip \<in> set (icache s). length (addrs ip) = NDIRECT E + 1) \<and>
     cache_ok (icache s)"

text \<open>The hypothesis on the layout: an inode on disk lists as many blocks as one in memory.\<close>

definition dinode_laws :: "'d env \<Rightarrow> bool" where
  "dinode_laws E \<longleftrightarrow> (\<forall>x k. length (d_addrs (get_dinode E x k)) = NDIRECT E + 1)"

section \<open>The invariant\<close>

lemma fs_inv_disk [simp]: "fs_inv E (s\<lparr>disk := d\<rparr>) = fs_inv E s" "fs_inv E (s\<lparr>sb := b\<rparr>) = fs_inv E s"
  by (simp_all add: fs_inv_def)

lemma keeps_disk [inv_intros]:
  "keeps (fs_inv E) (log_write E' dev b x)"
  "keeps (fs_inv E) (bread E' dev b)"
  "keeps (fs_inv E) (readsb E' dev)"
  by (auto simp: keeps_def readsb_def bread_def log_write_def fbind_eq_Inr)

lemma keeps_bzero [inv_intros]: "keeps (fs_inv E) (bzero E' dev b)"
  unfolding bzero_def by (intro inv_intros)

lemma keeps_balloc_loop [inv_intros]: "keeps (fs_inv E) (balloc_loop E' dev bs)"
  by (induction bs) (simp_all only: balloc_loop.simps, (intro inv_intros | assumption)+)

lemma keeps_balloc [inv_intros]: "keeps (fs_inv E) (balloc E' dev)"
  and keeps_bfree [inv_intros]: "keeps (fs_inv E) (bfree E' dev b)"
  unfolding balloc_def bfree_def by (intro inv_intros)+

text \<open>A change of an entry that keeps what the invariant speaks of, or lowers its count.\<close>

definition mild :: "'d env \<Rightarrow> (inode \<Rightarrow> inode) \<Rightarrow> bool" where
  "mild E f \<longleftrightarrow> (\<forall>ip. i_dev (f ip) = i_dev ip \<and> inum (f ip) = inum ip \<and> iref (f ip) \<le> iref ip \<and>
     (length (addrs ip) = NDIRECT E + 1 \<longrightarrow> length (addrs (f ip)) = NDIRECT E + 1))"

lemma keeps_ino [inv_intros]: "keeps I (ino i)"
  by (simp add: keeps_def ino_def)

lemma nth_update: "i < length c \<Longrightarrow> c[i := x] ! j = (if j = i then x else c ! j)"
  by (cases "j < length c") (auto simp: nth_list_update)

lemma cache_okD:
  "cache_ok c \<Longrightarrow> i < length c \<Longrightarrow> j < length c \<Longrightarrow> i \<noteq> j \<Longrightarrow> 0 < iref (c ! i) \<Longrightarrow> 0 < iref (c ! j) \<Longrightarrow>
   i_dev (c ! i) = i_dev (c ! j) \<Longrightarrow> inum (c ! i) \<noteq> inum (c ! j)"
  unfolding cache_ok_def by blast

lemma cache_okI:
  "(\<And>i j. i < length c \<Longrightarrow> j < length c \<Longrightarrow> i < j \<Longrightarrow> 0 < iref (c ! i) \<Longrightarrow> 0 < iref (c ! j) \<Longrightarrow>
     i_dev (c ! i) = i_dev (c ! j) \<Longrightarrow> inum (c ! i) \<noteq> inum (c ! j)) \<Longrightarrow> cache_ok c"
  unfolding cache_ok_def by (metis linorder_neqE_nat prod.inject)

lemma cache_ok_replace:
  assumes "cache_ok c"
    and "\<And>j. j < length c \<Longrightarrow> j \<noteq> i \<Longrightarrow> 0 < iref ip \<Longrightarrow> 0 < iref (c ! j) \<Longrightarrow> i_dev ip = i_dev (c ! j) \<Longrightarrow> inum ip \<noteq> inum (c ! j)"
  shows "cache_ok (c[i := ip])"
proof (cases "i < length c")
  case True
  show ?thesis
  proof (rule cache_okI)
    fix k j
    assume *: "k < length (c[i := ip])" "j < length (c[i := ip])" "k < j" "0 < iref (c[i := ip] ! k)"
      "0 < iref (c[i := ip] ! j)" "i_dev (c[i := ip] ! k) = i_dev (c[i := ip] ! j)"
    consider "k = i" "j \<noteq> i" | "j = i" "k \<noteq> i" | "k \<noteq> i" "j \<noteq> i" using *(3) by fastforce
    then show "inum (c[i := ip] ! k) \<noteq> inum (c[i := ip] ! j)"
    proof cases
      case 1
      with * assms(2) [of j] True show ?thesis by (simp add: nth_update)
    next
      case 2
      with * assms(2) [of k] True show ?thesis by (auto simp: nth_update)
    next
      case 3
      with * cache_okD [OF assms(1), of k j] True show ?thesis by (simp add: nth_update)
    qed
  qed
qed (use assms(1) in \<open>simp add: not_less list_update_beyond\<close>)

lemma cache_ok_update:
  assumes "cache_ok c" "i_dev ip = i_dev (c ! i)" "inum ip = inum (c ! i)" "0 < iref ip \<Longrightarrow> 0 < iref (c ! i)"
  shows "cache_ok (c[i := ip])"
proof (cases "i < length c")
  case True
  show ?thesis
    by (rule cache_ok_replace [OF assms(1)]) (use cache_okD [OF assms(1) True] assms True in auto)
qed (use assms(1) in \<open>simp add: not_less list_update_beyond\<close>)

lemma keeps_set_ino [inv_intros]:
  assumes "mild E f"
  shows "keeps (fs_inv E) (set_ino i f)"
proof -
  have "fs_inv E (s\<lparr>icache := (icache s)[i := f (icache s ! i)]\<rparr>)" if s: "fs_inv E s" for s
  proof (cases "i < length (icache s)")
    case True
    then have "icache s ! i \<in> set (icache s)" by simp
    with s assms True show ?thesis
      by (auto simp: fs_inv_def mild_def intro!: cache_ok_update dest!: set_update_subset_insert [THEN subsetD]
          intro: less_le_trans)
  next
    case False
    then have "(icache s)[i := f (icache s ! i)] = icache s" by (simp add: not_less list_update_beyond)
    with s show ?thesis by (simp add: fs_inv_def)
  qed
  then show ?thesis by (simp add: keeps_def)
qed

lemma mild_intros [inv_intros]:
  "mild E (\<lambda>ip. ip\<lparr>ilk := l\<rparr>)"
  "mild E (\<lambda>ip. ip\<lparr>ilk := g (ilk ip)\<rparr>)"
  "mild E (\<lambda>ip. ip\<lparr>addrs := (addrs ip)[k := a]\<rparr>)"
  "mild E (\<lambda>ip. ip\<lparr>isize := z\<rparr>)"
  "mild E (\<lambda>ip. ip\<lparr>itype := t\<rparr>)"
  "mild E (\<lambda>ip. ip\<lparr>valid := v\<rparr>)"
  "mild E (\<lambda>ip. ip\<lparr>iref := iref ip - 1\<rparr>)"
  by (simp_all add: mild_def)

lemma mild_load [inv_intros]: "dinode_laws E \<Longrightarrow> mild E (load_inode (get_dinode E x k))"
  by (simp add: mild_def load_inode_def dinode_laws_def)

text \<open>\<open>iget\<close>: the scan finds the entry of an inode that is cached, so a second one is never made.\<close>

lemma iget_scan_spec:
  "iget_scan dev inm i emp c = (hit, emp') \<Longrightarrow>
   (case hit of
      Some k \<Rightarrow> i \<le> k \<and> k < i + length c \<and> 0 < iref (c ! (k - i)) \<and> i_dev (c ! (k - i)) = dev \<and> inum (c ! (k - i)) = inm
    | None \<Rightarrow> (\<forall>ip \<in> set c. \<not> (0 < iref ip \<and> i_dev ip = dev \<and> inum ip = inm)) \<and>
        (emp' = emp \<and> (emp = None \<longrightarrow> (\<forall>ip \<in> set c. iref ip \<noteq> 0)) \<or>
         emp = None \<and> (\<exists>k. emp' = Some k \<and> i \<le> k \<and> k < i + length c \<and> iref (c ! (k - i)) = 0)))"
proof (induction dev inm i emp c rule: iget_scan.induct)
  case (2 dev inm i emp ip ips)
  show ?case
  proof (cases "0 < iref ip \<and> i_dev ip = dev \<and> inum ip = inm")
    case False
    have nth: "\<And>k. Suc i \<le> k \<Longrightarrow> ips ! (k - Suc i) = (ip # ips) ! (k - i)"
      by (metis Suc_diff_le diff_Suc_Suc nth_Cons_Suc)
    show ?thesis
      using "2.IH" [OF False] "2.prems" False nth
      by (auto split: option.splits if_splits)
  qed (use "2.prems" in auto)
qed auto

lemma cache_ok_hit: "cache_ok c \<Longrightarrow> 0 < iref (c ! i) \<Longrightarrow> cache_ok (c[i := (c ! i)\<lparr>iref := iref (c ! i) + 1\<rparr>])"
  by (rule cache_ok_update) simp_all

lemma cache_ok_new:
  assumes "cache_ok c" "\<forall>ip \<in> set c. \<not> (0 < iref ip \<and> i_dev ip = dev \<and> inum ip = inm)"
  shows "cache_ok (c[i := (c ! i)\<lparr>i_dev := dev, inum := inm, iref := 1, valid := False\<rparr>])"
  by (rule cache_ok_replace [OF assms(1)]) (use assms(2) nth_mem in \<open>auto simp del: nth_mem\<close>)

lemma keeps_iget [inv_intros]: "keeps (fs_inv E) (iget dev inm)"
  unfolding keeps_def
proof (intro allI impI)
  fix s r t
  assume s: "fs_inv E s" and run: "iget dev inm s = Inr (r, t)"
  obtain hit emp where scan: "iget_scan dev inm 0 None (icache s) = (hit, emp)" by fastforce
  note sp = iget_scan_spec [OF scan]
  have in_set: "k < length (icache s) \<Longrightarrow> icache s ! k \<in> set (icache s)" for k by simp
  show "fs_inv E t"
  proof (cases hit)
    case (Some k)
    with sp have "k < length (icache s)" "0 < iref (icache s ! k)" by auto
    with s run scan Some in_set show ?thesis
      by (auto simp: iget_def fs_inv_def intro!: cache_ok_hit dest!: set_update_subset_insert [THEN subsetD])
  next
    case None
    show ?thesis
    proof (cases emp)
      case None
      with run scan \<open>hit = None\<close> show ?thesis by (simp add: iget_def)
    next
      case (Some k)
      with sp \<open>hit = None\<close> have "k < length (icache s)"
        "\<forall>ip \<in> set (icache s). \<not> (0 < iref ip \<and> i_dev ip = dev \<and> inum ip = inm)" by auto
      with s run scan \<open>hit = None\<close> Some in_set show ?thesis
        by (auto simp: iget_def fs_inv_def intro!: cache_ok_new dest!: set_update_subset_insert [THEN subsetD])
    qed
  qed
qed

lemma keeps_acquire_ino [inv_intros]: "keeps (fs_inv E) (acquire_ino pid i)"
  and keeps_release_ino [inv_intros]: "keeps (fs_inv E) (release_ino i)"
  unfolding acquire_ino_def release_ino_def by (intro inv_intros)+

lemma keeps_iunlock [inv_intros]: "keeps (fs_inv E) (iunlock pid i)"
  and keeps_iupdate [inv_intros]: "keeps (fs_inv E) (iupdate E' i)"
  and keeps_stati [inv_intros]: "keeps (fs_inv E) (stati i)"
  unfolding iunlock_def iupdate_def stati_def by (intro inv_intros)+

lemma keeps_ilock [inv_intros]: "dinode_laws E \<Longrightarrow> keeps (fs_inv E) (ilock E pid i)"
  unfolding ilock_def Let_def by (intro inv_intros)

lemma keeps_ialloc [inv_intros]: "keeps (fs_inv E) (ialloc E' dev t)"
proof -
  have "keeps (fs_inv E) (ialloc_loop E' dev t ks)" for ks
    by (induction ks) (simp_all only: ialloc_loop.simps, (intro inv_intros | assumption)+)
  then show ?thesis unfolding ialloc_def by (intro inv_intros)
qed

lemma keeps_bmap [inv_intros]: "keeps (fs_inv E) (bmap E' i bn)"
  unfolding bmap_def by (intro inv_intros)

lemma keeps_free_direct [inv_intros]: "keeps (fs_inv E) (free_direct E' i ks)"
  by (induction ks) (simp_all only: free_direct.simps, (intro inv_intros | assumption)+)

lemma keeps_free_listed [inv_intros]: "keeps (fs_inv E) (free_listed E' dev data js)"
  by (induction js) (simp_all only: free_listed.simps, (intro inv_intros | assumption)+)

lemma keeps_itrunc [inv_intros]: "keeps (fs_inv E) (itrunc E' i)"
  unfolding itrunc_def by (intro inv_intros)

lemma keeps_iput [inv_intros]: "keeps (fs_inv E) (iput E' pid i)"
  unfolding iput_def by (intro inv_intros)

lemma keeps_iunlockput [inv_intros]: "keeps (fs_inv E) (iunlockput E' pid i)"
  unfolding iunlockput_def by (intro inv_intros)

lemma keeps_dev [inv_intros]:
  "keeps (fs_inv E) (\<lambda>s. let (r, bytes, d) = f (disk s) in Inr ((r, bytes), s\<lparr>disk := d\<rparr>))"
  "keeps (fs_inv E) (\<lambda>s. let (r, d) = g (disk s) in Inr (r, s\<lparr>disk := d\<rparr>))"
  by (auto simp: keeps_def split: prod.splits)

lemma keeps_readi_loop [inv_intros]: "keeps (fs_inv E) (readi_loop fuel E' i ofs n)"
  proof (induction fuel arbitrary: ofs n)
  case 0
  show ?case by (cases n) (simp_all only: readi_loop.simps, (intro inv_intros)+)
next
  case (Suc fuel)
  show ?case by (cases n) (simp_all only: readi_loop.simps, (intro inv_intros Suc.IH)+)
qed

lemma keeps_readi [inv_intros]: "keeps (fs_inv E) (readi E' i ofs n)"
  unfolding readi_def by (intro inv_intros)

lemma keeps_writei_loop [inv_intros]: "keeps (fs_inv E) (writei_loop fuel E' i ofs xs)"
  proof (induction fuel arbitrary: ofs xs)
  case 0
  show ?case by (cases xs) (simp_all only: writei_loop.simps, (intro inv_intros)+)
next
  case (Suc fuel)
  show ?case by (cases xs) (simp_all only: writei_loop.simps, (intro inv_intros Suc.IH)+)
qed

lemma keeps_writei [inv_intros]: "keeps (fs_inv E) (writei E' i src ofs)"
  unfolding writei_def by (intro inv_intros)

lemma keeps_dirlookup_loop [inv_intros]: "keeps (fs_inv E) (dirlookup_loop fuel E' dp name ofs)"
  by (induction fuel arbitrary: ofs) (simp_all only: dirlookup_loop.simps, (intro inv_intros | assumption)+)

lemma keeps_dirlookup [inv_intros]: "keeps (fs_inv E) (dirlookup E' dp name)"
  unfolding dirlookup_def by (intro inv_intros)

lemma keeps_empty_entry [inv_intros]: "keeps (fs_inv E) (empty_entry fuel E' dp ofs)"
  by (induction fuel arbitrary: ofs) (simp_all only: empty_entry.simps, (intro inv_intros | assumption)+)

lemma keeps_dirlink [inv_intros]: "keeps (fs_inv E) (dirlink E' pid dp name inm)"
  unfolding dirlink_def by (intro inv_intros)

lemma keeps_namex_loop [inv_intros]:
  "dinode_laws E \<Longrightarrow> keeps (fs_inv E) (namex_loop E pid parent i path name)"
proof (induction E pid parent i path name rule: namex_loop.induct)
  case (1 E pid parent i path name)
  show ?case
  proof (cases "skipelem (DIRSIZ E) path")
    case None
    then show ?thesis by (subst namex_loop.simps) (simp only: option.case, intro inv_intros)
  next
    case (Some p)
    obtain nm rest where p: "p = (nm, rest)" by fastforce
    have IH: "keeps (fs_inv E) (namex_loop E pid parent k rest nm)"
      if "\<not> (parent \<and> rest = [])" for k
    proof -
      have "itype (undefined\<lparr>itype := T_DIR\<rparr>) = T_DIR" by simp
      with "1.IH" [OF Some p [symmetric]] "1.prems" that show ?thesis by blast
    qed
    show ?thesis
    proof (cases "parent \<and> rest = []")
      case True
      show ?thesis
        unfolding namex_loop.simps [of E pid parent i path] Some p option.case prod.case
        by (simp only: True if_True simp_thms) (intro inv_intros "1.prems")
    next
      case False
      note IH = IH [OF False]
      show ?thesis
        unfolding namex_loop.simps [of E pid parent i path] Some p option.case prod.case
        by (simp only: False if_False) (intro inv_intros "1.prems" IH)
    qed
  qed
qed

lemma idup_inv: "fs_inv E s \<Longrightarrow> 0 < iref (icache s ! i) \<Longrightarrow> idup i s = Inr (r, t) \<Longrightarrow> fs_inv E t"
proof (cases "i < length (icache s)")
  case True
  assume *: "fs_inv E s" "0 < iref (icache s ! i)" "idup i s = Inr (r, t)"
  from True have "icache s ! i \<in> set (icache s)" by simp
  with * show ?thesis
    by (auto simp: idup_def fs_inv_def intro!: cache_ok_hit dest!: set_update_subset_insert [THEN subsetD])
qed (auto simp: idup_def fs_inv_def not_less list_update_beyond)

lemma namex_inv:
  assumes "dinode_laws E" "fs_inv E s" "0 < iref (icache s ! cwd)" "namex E pid cwd path parent name s = Inr (r, t)"
  shows "fs_inv E t"
  using assms(4) unfolding namex_def fbind_eq_Inr
  by (auto split: if_splits dest: keepsD [OF keeps_iget assms(2)] idup_inv [OF assms(2,3)]
      keepsD [OF keeps_namex_loop [OF assms(1)]])


section \<open>Runs of the file system\<close>

text \<open>The boot state (the zeroed \<open>icache\<close>, then \<open>iinit\<close>) and the calls of the interface. A caller passes to
  \<open>idup\<close> and as its current directory only references it holds, as the kernel does.\<close>

definition boot_fs :: "'d env \<Rightarrow> 'd \<Rightarrow> 'd fs" where
  "boot_fs E d = \<lparr>disk = d, sb = \<lparr>sb_size = 0, nblocks = 0, ninodes = 0, nlog = 0, logstart = 0, inodestart = 0, bmapstart = 0\<rparr>,
     icache = replicate NINODE \<lparr>i_dev = 0, inum = 0, iref = 0,
       ilk = \<lparr>slk = \<lparr>lname = [], locked = False, lcpu = None, pcs = []\<rparr>, slocked = False, sname = [], spid = 0\<rparr>,
       valid = False, itype = 0, major = 0, minor = 0, nlink = 0, isize = 0, addrs = replicate (NDIRECT E + 1) 0\<rparr>\<rparr>"

inductive fs_call :: "'d env \<Rightarrow> 'd fs \<Rightarrow> 'd fs \<Rightarrow> bool" for E where
  c_iget: "iget dev k s = Inr (r, t) \<Longrightarrow> fs_call E s t"
| c_idup: "0 < iref (icache s ! i) \<Longrightarrow> idup i s = Inr (r, t) \<Longrightarrow> fs_call E s t"
| c_ialloc: "ialloc E dev ty s = Inr (r, t) \<Longrightarrow> fs_call E s t"
| c_iupdate: "iupdate E i s = Inr (r, t) \<Longrightarrow> fs_call E s t"
| c_ilock: "ilock E pid i s = Inr (r, t) \<Longrightarrow> fs_call E s t"
| c_iunlock: "iunlock pid i s = Inr (r, t) \<Longrightarrow> fs_call E s t"
| c_iput: "iput E pid i s = Inr (r, t) \<Longrightarrow> fs_call E s t"
| c_iunlockput: "iunlockput E pid i s = Inr (r, t) \<Longrightarrow> fs_call E s t"
| c_readi: "readi E i ofs n s = Inr (r, t) \<Longrightarrow> fs_call E s t"
| c_writei: "writei E i xs ofs s = Inr (r, t) \<Longrightarrow> fs_call E s t"
| c_dirlookup: "dirlookup E i nm s = Inr (r, t) \<Longrightarrow> fs_call E s t"
| c_dirlink: "dirlink E pid i nm k s = Inr (r, t) \<Longrightarrow> fs_call E s t"
| c_namex: "0 < iref (icache s ! cwd) \<Longrightarrow> namex E pid cwd path parent nm s = Inr (r, t) \<Longrightarrow> fs_call E s t"

inductive fs_reach :: "'d env \<Rightarrow> 'd fs \<Rightarrow> bool" for E where
  boot: "iinit E dev (boot_fs E d) = Inr (r, s) \<Longrightarrow> fs_reach E s"
| call: "fs_reach E s \<Longrightarrow> fs_call E s t \<Longrightarrow> fs_reach E t"

inductive_cases fs_callE: "fs_call E s t"

lemma boot_inv:
  assumes "iinit E dev (boot_fs E d) = Inr (r, s)"
  shows "fs_inv E s"
proof -
  from assms have "icache s = map (\<lambda>ip. ip\<lparr>ilk := initsleeplock (ilk ip) ''inode''\<rparr>) (icache (boot_fs E d))"
    by (auto simp: iinit_def readsb_def)
  then show ?thesis
    by (auto simp: fs_inv_def cache_ok_def boot_fs_def)
qed

lemmas op_keeps = keeps_iget keeps_ialloc keeps_iupdate keeps_iunlock keeps_iput keeps_iunlockput keeps_readi
  keeps_writei keeps_dirlookup keeps_dirlink

lemma call_inv:
  assumes "dinode_laws E" "fs_inv E s" "fs_call E s t"
  shows "fs_inv E t"
  using assms(3)
  by (rule fs_callE) (blast dest: op_keeps [THEN keepsD, OF assms(2)] keepsD [OF keeps_ilock [OF assms(1)] assms(2)]
      idup_inv [OF assms(2)] namex_inv [OF assms(1,2)])+

interpretation calls: step_system "\<lambda>s. \<exists>dev d r. iinit E dev (boot_fs E d) = Inr (r, s)" "fs_call E" "fs_reach E" for E
proof
  show "Q s" if "fs_reach E s" "\<And>s. \<exists>dev d r. iinit E dev (boot_fs E d) = Inr (r, s) \<Longrightarrow> Q s"
    "\<And>s t. fs_call E s t \<Longrightarrow> Q s \<Longrightarrow> Q t" for s Q
    using that(1) by induction (use that(2-) in blast)+
qed (auto intro: fs_reach.intros)

lemma reach_inv: "fs_reach E s \<Longrightarrow> dinode_laws E \<Longrightarrow> fs_inv E s"
  by (erule calls.reached_least) (blast intro: boot_inv call_inv)+

text \<open>C6. Whatever calls the kernel makes, no inode is cached twice: two entries of the cache that are
  referenced and hold the same device and inode number are the same entry, so all holders of an inode
  share one lock and one copy of its metadata; and every entry lists \<open>NDIRECT + 1\<close> blocks.\<close>

theorem inode_cached_once:
  assumes "dinode_laws E" "fs_reach E s"
  shows "length (icache s) = NINODE \<and> (\<forall>ip. ip \<in> set (icache s) \<longrightarrow> length (addrs ip) = NDIRECT E + 1) \<and>
    (\<forall>i j. i < NINODE \<longrightarrow> j < NINODE \<longrightarrow> 0 < iref (icache s ! i) \<longrightarrow> 0 < iref (icache s ! j) \<longrightarrow>
       i_dev (icache s ! i) = i_dev (icache s ! j) \<longrightarrow> inum (icache s ! i) = inum (icache s ! j) \<longrightarrow> i = j)"
  using reach_inv [OF assms(2,1)] unfolding fs_inv_def by (auto dest: cache_okD)

lemma example_dinode_laws: "dinode_laws example_env"
  by (simp add: dinode_laws_def example_env_def)

lemma iget_scan_empty:
  "\<forall>ip \<in> set c. iref ip = 0 \<Longrightarrow> iget_scan dev inm i (Some k) c = (None, Some k)"
  by (induction c arbitrary: i) simp_all

theorem inode_cached_once_witness:
  "\<exists>s. fs_reach example_env s \<and> iref (icache s ! 0) = 2 \<and> length (icache s) = NINODE"
proof -
  obtain s0 where s0: "iinit example_env 1 (boot_fs example_env (\<lambda>_ _. [])) = Inr ((), s0)"
    "icache s0 = map (\<lambda>ip. ip\<lparr>ilk := initsleeplock (ilk ip) ''inode''\<rparr>) (icache (boot_fs example_env (\<lambda>_ _. [])))"
    by (simp add: iinit_def readsb_def)
  then obtain ip c where c: "icache s0 = ip # c" "iref ip = 0" "\<forall>x \<in> set c. iref x = 0"
    by (auto simp: boot_fs_def NINODE_def numeral_eq_Suc)
  let ?s1 = "s0\<lparr>icache := ip\<lparr>i_dev := 1, inum := 7, iref := 1, valid := False\<rparr> # c\<rparr>"
  let ?s2 = "s0\<lparr>icache := ip\<lparr>i_dev := 1, inum := 7, iref := 2, valid := False\<rparr> # c\<rparr>"
  have "iget 1 7 s0 = Inr (0, ?s1)" using c by (simp add: iget_def iget_scan_empty)
  moreover have "iget 1 7 ?s1 = Inr (0, ?s2)" by (simp add: iget_def)
  ultimately have r: "fs_reach example_env ?s2"
    by (meson s0(1) fs_reach.boot fs_reach.call c_iget)
  have "length (icache ?s2) = NINODE" using inode_cached_once [OF example_dinode_laws r] by blast
  with r show ?thesis by (intro exI [of _ ?s2]) simp
qed

end
