(* ===== verification/Pipe.thy ===== *)
theory Pipe
  imports Prelude
begin

text \<open>
  \<open>pipe.c\<close>: the ring buffer shared by readers and writers. \<open>pipewrite\<close> and \<open>piperead\<close> hold the pipe's lock
  from \<open>acquire\<close> to the next \<open>sleep\<close> or \<open>release\<close>, so each stretch between two such points is one
  function of the pipe; sleeping is a result from which the function is run again. The system of processes
  around one pipe is a step relation with a history of the bytes written and read.
\<close>

section \<open>The ring buffer\<close>

text \<open>The interface of the copy loops: a bounded queue with an abstraction to lists.\<close>

locale bounded_queue =
  fixes ok :: "'q \<Rightarrow> bool" and items :: "'q \<Rightarrow> 'a list" and cap :: nat
    and full :: "'q \<Rightarrow> bool" and empty :: "'q \<Rightarrow> bool"
    and put :: "'q \<Rightarrow> 'a \<Rightarrow> 'q" and front :: "'q \<Rightarrow> 'a" and drop1 :: "'q \<Rightarrow> 'q"
  assumes items_cap: "ok q \<Longrightarrow> length (items q) \<le> cap"
    and full_iff: "ok q \<Longrightarrow> full q \<longleftrightarrow> length (items q) = cap"
    and empty_iff: "ok q \<Longrightarrow> empty q \<longleftrightarrow> items q = []"
    and ok_put: "ok q \<Longrightarrow> \<not> full q \<Longrightarrow> ok (put q x)"
    and items_put: "ok q \<Longrightarrow> \<not> full q \<Longrightarrow> items (put q x) = items q @ [x]"
    and ok_drop1: "ok q \<Longrightarrow> \<not> empty q \<Longrightarrow> ok (drop1 q)"
    and items_get: "ok q \<Longrightarrow> \<not> empty q \<Longrightarrow> items q = front q # items (drop1 q)"
begin

text \<open>Filling until the queue is full, and emptying until \<open>n\<close> elements came out or the queue is empty.\<close>

fun puts :: "'q \<Rightarrow> 'a list \<Rightarrow> 'q" where
  "puts q [] = q"
| "puts q (x # xs) = (if full q then q else puts (put q x) xs)"

fun gets :: "'q \<Rightarrow> nat \<Rightarrow> 'a list \<times> 'q" where
  "gets q 0 = ([], q)"
| "gets q (Suc n) =
     (if empty q then ([], q) else (let (xs, r) = gets (drop1 q) n in (front q # xs, r)))"

lemma ok_puts: "ok q \<Longrightarrow> ok (puts q xs)"
  by (induction xs arbitrary: q) (auto simp: ok_put)

lemma items_puts: "ok q \<Longrightarrow> items (puts q xs) = items q @ take (cap - length (items q)) xs"
proof (induction xs arbitrary: q)
  case (Cons x xs)
  then show ?case
    using items_cap [of q] full_iff [of q]
    by (cases "length (items q) < cap") (auto simp: ok_put items_put take_Cons' Suc_diff_Suc)
qed simp

lemma gets_spec:
  "ok q \<Longrightarrow> fst (gets q n) = take n (items q) \<and> items (snd (gets q n)) = drop n (items q) \<and> ok (snd (gets q n))"
proof (induction n arbitrary: q)
  case (Suc n)
  show ?case
  proof (cases "empty q")
    case True
    with Suc.prems show ?thesis by (simp add: empty_iff)
  next
    case False
    with Suc.prems have "items q = front q # items (drop1 q)" "ok (drop1 q)"
      by (auto simp: items_get ok_drop1)
    with Suc.IH [of "drop1 q"] False show ?thesis
      by (auto split: prod.splits)
  qed
qed simp

end

abbreviation PIPESIZE :: nat where
  "PIPESIZE \<equiv> 512"

record pipe =
  data :: "char list"
  nread :: u32
  nwrite :: u32
  readopen :: bool
  writeopen :: bool

text \<open>The fields that \<open>pipealloc\<close> sets; the page comes from \<open>kalloc\<close> with arbitrary \<open>data\<close>.\<close>

definition pipe_init :: "char list \<Rightarrow> pipe" where
  "pipe_init junk = \<lparr>data = junk, nread = 0, nwrite = 0, readopen = True, writeopen = True\<rparr>"

definition ring_full :: "pipe \<Rightarrow> bool" where
  "ring_full p \<longleftrightarrow> nwrite p = nread p + 512"

definition ring_empty :: "pipe \<Rightarrow> bool" where
  "ring_empty p \<longleftrightarrow> nread p = nwrite p"

definition ring_put :: "pipe \<Rightarrow> char \<Rightarrow> pipe" where
  "ring_put p c = p\<lparr>data := (data p)[unat (nwrite p mod 512) := c], nwrite := nwrite p + 1\<rparr>"

definition ring_front :: "pipe \<Rightarrow> char" where
  "ring_front p = data p ! unat (nread p mod 512)"

definition ring_drop :: "pipe \<Rightarrow> pipe" where
  "ring_drop p = p\<lparr>nread := nread p + 1\<rparr>"

text \<open>The abstraction: the unread bytes.\<close>

definition ring_items :: "pipe \<Rightarrow> char list" where
  "ring_items p =
     map (\<lambda>k. data p ! ((unat (nread p) + k) mod PIPESIZE)) [0..<unat (nwrite p - nread p)]"

definition pipe_ok :: "pipe \<Rightarrow> bool" where
  "pipe_ok p \<longleftrightarrow> length (data p) = PIPESIZE \<and> unat (nwrite p - nread p) \<le> PIPESIZE"

text \<open>512 divides \<open>2 ^ 32\<close>, so the index computed from a wrapped counter is the index of the true count.\<close>

lemma unat_mod_512: "unat (a mod (512 :: u32)) = unat a mod 512"
  by (simp add: unat_mod)

lemma index_wrap: "unat ((a + of_nat k :: u32)) mod 512 = (unat a + k) mod 512"
proof -
  have "unat (a + of_nat k :: u32) = (unat a + k) mod 2 ^ 32"
    by (simp add: unat_word_ariths unat_of_nat mod_simps)
  moreover have "(512 :: nat) dvd 2 ^ 32"
    by simp
  ultimately show ?thesis
    by (simp add: mod_mod_cancel)
qed

lemma index_nwrite: "unat (nwrite p) mod 512 = (unat (nread p) + unat (nwrite p - nread p)) mod 512"
  by (subst index_wrap [symmetric]) simp

lemma index_inj: "k < 512 \<Longrightarrow> l < 512 \<Longrightarrow> (a + k) mod 512 = (a + l) mod (512 :: nat) \<Longrightarrow> k = l"
proof (induction k l rule: linorder_wlog)
  case (le k l)
  then have "512 dvd l - k"
    using mod_eq_dvd_iff_nat [of "a + k" "a + l" 512] by simp
  with le show ?case by (auto dest: dvd_imp_le)
qed simp

lemma unat_Suc_diff:
  assumes "unat (w - r :: u32) < 512"
  shows "unat (w + 1 - r) = Suc (unat (w - r))"
proof -
  have "w + 1 - r = (w - r) + 1" by simp
  moreover have "unat ((w - r) + 1) = unat (w - r) + 1"
    using assms by (subst unat_word_ariths(1)) (simp add: unat_1)
  ultimately show ?thesis by (metis Suc_eq_plus1)
qed

lemma unat_diff_Suc:
  assumes "w \<noteq> (r :: u32)"
  shows "unat (w - (r + 1)) = unat (w - r) - 1"
proof -
  have "w - r \<noteq> 0" using assms by simp
  then have "unat (w - r - 1) = unat (w - r) - 1"
    by (simp add: unat_gt_0 unat_minus_one)
  then show ?thesis by (simp add: diff_diff_eq)
qed

lemma length_ring_items [simp]: "length (ring_items p) = unat (nwrite p - nread p)"
  by (simp add: ring_items_def)

lemma ring_full_iff: "pipe_ok p \<Longrightarrow> ring_full p \<longleftrightarrow> unat (nwrite p - nread p) = 512"
proof -
  have "nwrite p = nread p + 512 \<longleftrightarrow> nwrite p - nread p = 512"
    by (auto simp: algebra_simps)
  also have "\<dots> \<longleftrightarrow> unat (nwrite p - nread p) = unat (512 :: u32)"
    by (simp only: word_unat_eq_iff)
  finally show ?thesis by (simp add: ring_full_def)
qed

lemma ring_items_put:
  assumes "pipe_ok p" "\<not> ring_full p"
  shows "ring_items (ring_put p c) = ring_items p @ [c]" "pipe_ok (ring_put p c)"
proof -
  have lt: "unat (nwrite p - nread p) < 512" and len: "length (data p) = 512"
    using assms ring_full_iff [of p] by (auto simp: pipe_ok_def)
  have "(unat (nread p) + k) mod 512 \<noteq> unat (nwrite p) mod 512" if "k < unat (nwrite p - nread p)" for k
    using that lt index_inj [of k "unat (nwrite p - nread p)" "unat (nread p)"] by (auto simp: index_nwrite)
  then show "ring_items (ring_put p c) = ring_items p @ [c]"
    using len lt
    by (simp add: ring_items_def ring_put_def unat_Suc_diff unat_mod_512 index_nwrite [symmetric]) (metis atLeastLessThan_iff nth_list_update_neq)
  show "pipe_ok (ring_put p c)"
    using len lt by (simp add: pipe_ok_def ring_put_def unat_Suc_diff)
qed

lemma ring_items_drop:
  assumes "pipe_ok p" "\<not> ring_empty p"
  shows "ring_items p = ring_front p # ring_items (ring_drop p)" "pipe_ok (ring_drop p)"
proof -
  let ?n = "unat (nwrite p - nread p)"
  have ne: "nwrite p \<noteq> nread p"
    using assms by (auto simp: ring_empty_def)
  then have pos: "0 < ?n" by (simp add: unat_gt_0)
  have idx: "(unat (nread p + 1) + k) mod 512 = (unat (nread p) + Suc k) mod 512" for k
    using index_wrap [of "nread p" 1] by (metis add.assoc mod_add_left_eq of_nat_1 plus_1_eq_Suc)
  have "[0..<?n] = 0 # map Suc [0..<?n - 1]"
    using pos by (simp add: upt_conv_Cons map_Suc_upt)
  then show "ring_items p = ring_front p # ring_items (ring_drop p)"
    using ne by (simp add: ring_items_def ring_front_def ring_drop_def unat_diff_Suc unat_mod_512 idx)
  show "pipe_ok (ring_drop p)"
    using assms ne by (auto simp: pipe_ok_def ring_drop_def unat_diff_Suc)
qed

interpretation rq: bounded_queue pipe_ok ring_items PIPESIZE ring_full ring_empty ring_put ring_front ring_drop
proof unfold_locales
  show "pipe_ok q \<Longrightarrow> length (ring_items q) \<le> PIPESIZE" for q
    by (simp add: pipe_ok_def)
  show "pipe_ok q \<Longrightarrow> ring_full q \<longleftrightarrow> length (ring_items q) = PIPESIZE" for q
    by (simp add: ring_full_iff)
  show "pipe_ok q \<Longrightarrow> ring_empty q \<longleftrightarrow> ring_items q = []" for q
    by (auto simp: ring_empty_def ring_items_def unat_eq_0)
qed (rule ring_items_put ring_items_drop; assumption)+

section \<open>pipewrite and piperead\<close>

text \<open>The two addresses processes sleep on: \<open>&p->nread\<close> and \<open>&p->nwrite\<close>.\<close>

datatype chan = CNread | CNwrite

text \<open>How a stretch under the lock ends: the call returns a number, or it sleeps on a channel with the loop
  at index \<open>i\<close>.\<close>

datatype outcome = Returns int | Sleeps chan int

text \<open>\<open>pipewrite\<close> from the head of its loop at index \<open>i\<close>, to its next \<open>sleep\<close> or its return: the pipe, the
  wakeups issued in order, and how it ends. After waking up it runs again with the same \<open>i\<close>.\<close>

function pipewrite :: "bool \<Rightarrow> pipe \<Rightarrow> string \<Rightarrow> int \<Rightarrow> int \<Rightarrow> pipe \<times> chan list \<times> outcome" where
  "pipewrite killed p addr n i =
     (if i < n then
        (if ring_full p then
           (if \<not> readopen p \<or> killed then (p, [], Returns (- 1))
            else (p, [CNread], Sleeps CNwrite i))
         else pipewrite killed (ring_put p (addr ! nat i)) addr n (i + 1))
      else (p, [CNread], Returns n))"
  by pat_completeness auto
termination
  by (relation "measure (\<lambda>(killed, p, addr, n, i). nat (n - i))") auto

declare pipewrite.simps [simp del]

text \<open>\<open>piperead\<close>: the copying loop, then the call; the bytes copied to \<open>addr\<close> are returned with the outcome.\<close>

function read_copy :: "pipe \<Rightarrow> int \<Rightarrow> int \<Rightarrow> string \<times> pipe \<times> int" where
  "read_copy p n i =
     (if i < n then
        (if ring_empty p then ([], p, i)
         else (let (cs, q, j) = read_copy (ring_drop p) n (i + 1) in (ring_front p # cs, q, j)))
      else ([], p, i))"
  by pat_completeness auto
termination
  by (relation "measure (\<lambda>(p, n, i). nat (n - i))") auto

declare read_copy.simps [simp del]

definition piperead :: "bool \<Rightarrow> pipe \<Rightarrow> int \<Rightarrow> string \<times> pipe \<times> chan list \<times> outcome" where
  "piperead killed p n =
     (if ring_empty p \<and> writeopen p then
        (if killed then ([], p, [], Returns (- 1)) else ([], p, [], Sleeps CNread 0))
      else (let (cs, q, i) = read_copy p n 0 in (cs, q, [CNwrite], Returns i)))"

text \<open>\<open>pipeclose\<close>: the pipe, the wakeups, and whether its page is freed.\<close>

definition pipeclose :: "pipe \<Rightarrow> bool \<Rightarrow> pipe \<times> chan list \<times> bool" where
  "pipeclose p writable =
     (let (q, w) = (if writable then (p\<lparr>writeopen := False\<rparr>, [CNread])
                    else (p\<lparr>readopen := False\<rparr>, [CNwrite]))
      in (q, w, \<not> readopen q \<and> \<not> writeopen q))"

subsection \<open>Their effect on the queue\<close>

lemma read_copy_gets:
  "read_copy p n i = (let (cs, q) = rq.gets p (nat (n - i)) in (cs, q, i + int (length cs)))"
proof (induction p n i rule: read_copy.induct)
  case (1 p n i)
  show ?case
  proof (cases "i < n")
    case False
    then show ?thesis by (subst read_copy.simps) simp
  next
    case True
    then have n: "nat (n - i) = Suc (nat (n - (i + 1)))" by simp
    show ?thesis
      using True 1 by (subst read_copy.simps) (auto simp: n split: prod.splits)
  qed
qed

lemma ring_put_flags [simp]:
  "readopen (ring_put p c) = readopen p" "writeopen (ring_put p c) = writeopen p"
  "readopen (ring_drop p) = readopen p" "writeopen (ring_drop p) = writeopen p"
  by (simp_all add: ring_put_def ring_drop_def)

lemma puts_flags [simp]:
  "readopen (rq.puts p cs) = readopen p" "writeopen (rq.puts p cs) = writeopen p"
  by (induction cs arbitrary: p) auto

lemma gets_flags:
  "readopen (snd (rq.gets p n)) = readopen p \<and> writeopen (snd (rq.gets p n)) = writeopen p"
proof (induction n arbitrary: p)
  case (Suc n)
  from Suc [of "ring_drop p"] show ?case
    by (auto split: prod.splits)
qed simp

text \<open>\<open>pipewrite\<close> puts as many of the remaining bytes as fit and then returns or sleeps.\<close>

lemma pipewrite_puts:
  assumes "pipe_ok p" "0 \<le> i" "n \<le> int (length addr)"
  shows "pipewrite killed p addr n i =
    (let todo = seg addr (nat i) (nat n); room = PIPESIZE - length (ring_items p); q = rq.puts p todo
     in if length todo \<le> room then (q, [CNread], Returns n)
        else if \<not> readopen p \<or> killed then (q, [], Returns (- 1))
        else (q, [CNread], Sleeps CNwrite (i + int room)))"
  using assms
proof (induction killed p addr n i rule: pipewrite.induct)
  case (1 killed p addr n i)
  let ?room = "PIPESIZE - length (ring_items p)"
  show ?case
  proof (cases "i < n")
    case False
    then show ?thesis by (subst pipewrite.simps) simp
  next
    case True
    with "1.prems" have todo: "seg addr (nat i) (nat n) = addr ! nat i # seg addr (nat (i + 1)) (nat n)"
      by (subst seg_Cons) (auto simp: nat_add_distrib)
    show ?thesis
    proof (cases "ring_full p")
      case full: True
      then have "?room = 0" using "1.prems" rq.full_iff [of p] by simp
      with True full todo show ?thesis by (subst pipewrite.simps) simp
    next
      case False
      have ok: "pipe_ok (ring_put p (addr ! nat i))"
        and items: "length (ring_items (ring_put p (addr ! nat i))) = Suc (length (ring_items p))"
        using rq.ok_put [OF "1.prems"(1) False] rq.items_put [OF "1.prems"(1) False]
        by (auto simp del: length_ring_items)
      have "length (ring_items p) < PIPESIZE"
        using rq.items_cap [OF "1.prems"(1)] rq.full_iff [OF "1.prems"(1)] False by linarith
      then have room: "?room = Suc (PIPESIZE - length (ring_items (ring_put p (addr ! nat i))))"
        by (simp only: items)
      show ?thesis
        using "1.IH" [OF True False ok] True False "1.prems"
        by (subst pipewrite.simps) (simp add: todo room Let_def del: length_ring_items)
    qed
  qed
qed

text \<open>One stretch of \<open>pipewrite\<close> from index \<open>i\<close> appends to the unread bytes exactly those of the
  remaining bytes that fit into the 512-byte ring, for all values of the wrapping 32-bit counters; it
  returns \<open>n\<close> when all fit, sleeps on \<open>&p->nwrite\<close> after waking the readers when the ring fills up, and
  returns -1 then when the read end is closed or the process was killed.\<close>

theorem pipewrite_appends:
  assumes "pipe_ok p" "0 \<le> i" "i \<le> n" "n \<le> int (length addr)" "room = PIPESIZE - length (ring_items p)"
    "pipewrite killed p addr n i = (q, w, r)"
  shows "ring_items q = ring_items p @ take room (seg addr (nat i) (nat n)) \<and> pipe_ok q \<and>
    r = (if n - i \<le> int room then Returns n
         else if \<not> readopen p \<or> killed then Returns (- 1) else Sleeps CNwrite (i + int room)) \<and>
    w = (if n - i \<le> int room \<or> readopen p \<and> \<not> killed then [CNread] else [])"
proof -
  have len: "length (seg addr (nat i) (nat n)) \<le> room \<longleftrightarrow> n - i \<le> int room"
    using assms(2-4) by (subst length_seg) auto
  show ?thesis
    using assms(6) unfolding pipewrite_puts [OF assms(1,2,4)] Let_def assms(5) [symmetric] len
    using rq.items_puts [OF assms(1), of "seg addr (nat i) (nat n)"] rq.ok_puts [OF assms(1)]
    by (auto simp del: length_ring_items simp: assms(5) split: if_splits)
qed

theorem pipewrite_appends_witness:
  "let p = pipe_init (replicate 512 NUL); (q, w, r) = pipewrite False p ''ab'' 2 0
   in ring_items q = ''ab'' \<and> r = Returns 2"
proof -
  let ?p = "pipe_init (replicate 512 NUL)"
  have ok: "pipe_ok ?p" and items: "ring_items ?p = []"
    by (simp_all add: pipe_ok_def pipe_init_def ring_items_def)
  obtain q w r where run: "pipewrite False ?p ''ab'' 2 0 = (q, w, r)"
    by (rule prod_cases3)
  from pipewrite_appends [OF ok _ _ _ refl run] items have "ring_items q = ''ab'' \<and> r = Returns 2"
    by (simp add: seg_def)
  with run show ?thesis by (simp add: Let_def)
qed

text \<open>\<open>piperead\<close> on an empty pipe whose write end is open sleeps, or returns -1 for a killed process;
  otherwise it returns the oldest unread bytes in order, at most \<open>n\<close> of them and all if there are fewer,
  removes exactly these, and wakes the writers: 0 bytes mean the end of the file.\<close>

theorem piperead_takes:
  assumes "pipe_ok p" "piperead killed p n = (cs, q, w, r)"
  shows "pipe_ok q \<and> ring_items p = cs @ ring_items q \<and>
    (if ring_items p = [] \<and> writeopen p then q = p \<and> r = (if killed then Returns (- 1) else Sleeps CNread 0)
     else cs = take (nat n) (ring_items p) \<and> r = Returns (int (length cs)) \<and> w = [CNwrite])"
proof (cases "ring_items p = [] \<and> writeopen p")
  case True
  then have "ring_empty p" using rq.empty_iff assms(1) by simp
  with True assms show ?thesis
    by (auto simp: piperead_def split: if_splits)
next
  case False
  obtain xs t where g: "rq.gets p (nat n) = (xs, t)" by fastforce
  have "\<not> (ring_empty p \<and> writeopen p)" using False rq.empty_iff assms(1) by simp
  then have "(cs, q, w, r) = (xs, t, [CNwrite], Returns (int (length xs)))"
    using assms(2) unfolding piperead_def read_copy_gets by (simp only: if_False) (auto simp: g)
  with rq.gets_spec [OF assms(1), of "nat n"] g False show ?thesis
    by auto
qed

theorem piperead_takes_witness:
  "let p = ring_put (ring_put (pipe_init (replicate 512 NUL)) CHR ''a'') CHR ''b'';
       (cs, q, w, r) = piperead False p 1
   in cs = ''a'' \<and> ring_items q = ''b''"
proof -
  let ?e = "pipe_init (replicate 512 NUL)"
  let ?p = "ring_put (ring_put ?e CHR ''a'') CHR ''b''"
  let ?one = "ring_put ?e CHR ''a''"
  have "pipe_ok ?e" "ring_items ?e = []"
    by (simp_all add: pipe_ok_def pipe_init_def ring_items_def)
  moreover have nf: "\<not> ring_full ?e" "\<not> ring_full ?one"
    by (simp_all add: ring_full_def ring_put_def pipe_init_def)
  ultimately have "pipe_ok ?one" "ring_items ?one = ''a''"
    using rq.ok_put [OF _ nf(1)] rq.items_put [OF _ nf(1)] by auto
  then have ok: "pipe_ok ?p" and items: "ring_items ?p = ''ab''"
    using rq.ok_put [OF _ nf(2)] rq.items_put [OF _ nf(2)] by auto
  obtain cs q w r where run: "piperead False ?p 1 = (cs, q, w, r)"
    by (rule prod_cases4)
  from piperead_takes [OF ok run] have "cs = ''a'' \<and> ring_items q = ''b''"
    unfolding items by auto
  with run show ?thesis by (simp add: Let_def)
qed

section \<open>Processes around one pipe\<close>

text \<open>What a process is doing: idle, in \<open>pipewrite\<close> at an index, or in \<open>piperead\<close>; the flag says that it is
  asleep. The system records all bytes ever stored into the ring and all bytes ever handed to readers.\<close>

datatype activity = Idle | Writing string int int bool | Reading int bool

record psys =
  ring :: pipe
  sent :: string
  received :: string
  act :: "nat \<Rightarrow> activity"

fun wake1 :: "chan list \<Rightarrow> activity \<Rightarrow> activity" where
  "wake1 w Idle = Idle"
| "wake1 w (Writing addr n i asleep) = Writing addr n i (asleep \<and> CNwrite \<notin> set w)"
| "wake1 w (Reading n asleep) = Reading n (asleep \<and> CNread \<notin> set w)"

definition wakeup_all :: "chan list \<Rightarrow> (nat \<Rightarrow> activity) \<Rightarrow> nat \<Rightarrow> activity" where
  "wakeup_all w st = (\<lambda>j. wake1 w (st j))"

definition psys_init :: "char list \<Rightarrow> psys" where
  "psys_init junk = \<lparr>ring = pipe_init junk, sent = [], received = [], act = (\<lambda>_. Idle)\<rparr>"

text \<open>One step: a process enters a call, runs a stretch under the lock, or is made runnable by \<open>kill\<close>; or an
  end is closed, which happens when no process that could be inside a call refers to it. Writers may be
  killed only if \<open>kills\<close>.\<close>

inductive pstep :: "bool \<Rightarrow> psys \<Rightarrow> psys \<Rightarrow> bool" for kills where
  enter_write: "act s j = Idle \<Longrightarrow> writeopen (ring s) \<Longrightarrow> 0 \<le> n \<Longrightarrow> n \<le> int (length addr) \<Longrightarrow>
    pstep kills s (s\<lparr>act := (act s)(j := Writing addr n 0 False)\<rparr>)"
| enter_read: "act s j = Idle \<Longrightarrow> readopen (ring s) \<Longrightarrow>
    pstep kills s (s\<lparr>act := (act s)(j := Reading n False)\<rparr>)"
| run_write: "act s j = Writing addr n i False \<Longrightarrow> (killed \<longrightarrow> kills) \<Longrightarrow>
    pipewrite killed (ring s) addr n i = (q, w, r) \<Longrightarrow>
    pstep kills s (s\<lparr>ring := q,
      sent := sent s @ seg addr (nat i) (nat i + unat (nwrite q - nwrite (ring s))),
      act := (wakeup_all w (act s))(j := (case r of Returns _ \<Rightarrow> Idle | Sleeps _ i' \<Rightarrow> Writing addr n i' True))\<rparr>)"
| run_read: "act s j = Reading n False \<Longrightarrow>
    piperead killed (ring s) n = (cs, q, w, r) \<Longrightarrow>
    pstep kills s (s\<lparr>ring := q, received := received s @ cs,
      act := (wakeup_all w (act s))(j := (case r of Returns _ \<Rightarrow> Idle | Sleeps _ _ \<Rightarrow> Reading n True))\<rparr>)"
| close_write: "writeopen (ring s) \<Longrightarrow> (\<And>j addr n i z. act s j \<noteq> Writing addr n i z) \<Longrightarrow>
    pipeclose (ring s) True = (q, w, fr) \<Longrightarrow>
    pstep kills s (s\<lparr>ring := q, act := wakeup_all w (act s)\<rparr>)"
| close_read: "readopen (ring s) \<Longrightarrow> (\<And>j n z. act s j \<noteq> Reading n z) \<Longrightarrow>
    pipeclose (ring s) False = (q, w, fr) \<Longrightarrow>
    pstep kills s (s\<lparr>ring := q, act := wakeup_all w (act s)\<rparr>)"
| kill_writer: "act s j = Writing addr n i True \<Longrightarrow>
    pstep kills s (s\<lparr>act := (act s)(j := Writing addr n i False)\<rparr>)"
| kill_reader: "act s j = Reading n True \<Longrightarrow>
    pstep kills s (s\<lparr>act := (act s)(j := Reading n False)\<rparr>)"

inductive preach :: "bool \<Rightarrow> char list \<Rightarrow> psys \<Rightarrow> bool" for kills junk where
  init: "preach kills junk (psys_init junk)"
| step: "preach kills junk s \<Longrightarrow> pstep kills s t \<Longrightarrow> preach kills junk t"

lemma wakeup_all_apply [simp]: "wakeup_all w st j = wake1 w (st j)"
  by (simp add: wakeup_all_def)

lemma wake1_Writing [simp]:
  "wake1 w a = Writing addr n i z \<longleftrightarrow> (\<exists>y. a = Writing addr n i y \<and> z = (y \<and> CNwrite \<notin> set w))"
  by (cases a) auto

lemma wake1_Reading [simp]:
  "wake1 w a = Reading n z \<longleftrightarrow> (\<exists>y. a = Reading n y \<and> z = (y \<and> CNread \<notin> set w))"
  by (cases a) auto

lemma pipewrite_run:
  assumes "pipe_ok p" "0 \<le> i" "i \<le> n" "n \<le> int (length addr)" "pipewrite killed p addr n i = (q, w, r)"
  shows "pipe_ok q" "readopen q = readopen p" "writeopen q = writeopen p"
    "ring_items q = ring_items p @ seg addr (nat i) (nat i + unat (nwrite q - nwrite p))"
    "w = [] \<Longrightarrow> \<not> readopen p \<or> killed" "w = [] \<or> w = [CNread]"
    "\<And>c i'. r = Sleeps c i' \<Longrightarrow> c = CNwrite \<and> length (ring_items q) = PIPESIZE \<and> readopen p \<and> i \<le> i' \<and> i' \<le> n \<and> w = [CNread]"
proof -
  let ?todo = "seg addr (nat i) (nat n)"
  let ?room = "PIPESIZE - length (ring_items p)"
  have q: "q = rq.puts p ?todo" and w: "w = [] \<Longrightarrow> \<not> readopen p \<or> killed" "w = [] \<or> w = [CNread]"
    and r: "\<And>c i'. r = Sleeps c i' \<Longrightarrow> c = CNwrite \<and> ?room < length ?todo \<and> readopen p \<and> i' = i + int ?room \<and> w = [CNread]"
    using assms(5) unfolding pipewrite_puts [OF assms(1,2,4)] Let_def by (auto split: if_splits)
  have nread: "nread (rq.puts p cs) = nread p" for cs
    by (induction cs arbitrary: p) (auto simp: ring_put_def)
  have items: "ring_items q = ring_items p @ take ?room ?todo" and ok: "pipe_ok q"
    using rq.items_puts [OF assms(1)] rq.ok_puts [OF assms(1)] q by auto
  have "nwrite q - nwrite p = (nwrite q - nread q) - (nwrite p - nread p)"
    using nread by (simp add: q)
  also have "unat \<dots> = length (ring_items q) - length (ring_items p)"
    using arg_cong [OF items, of length] by (subst unat_sub) (auto simp: word_le_nat_alt)
  finally have k: "unat (nwrite q - nwrite p) = min ?room (length ?todo)"
    using arg_cong [OF items, of length] by (simp add: min.commute)
  have "take ?room ?todo = seg addr (nat i) (nat i + min ?room (length ?todo))"
    using assms(2-4) by (simp add: seg_def min_def)
  with items k show "ring_items q = ring_items p @ seg addr (nat i) (nat i + unat (nwrite q - nwrite p))"
    by simp
  show "pipe_ok q" "readopen q = readopen p" "writeopen q = writeopen p" "w = [] \<Longrightarrow> \<not> readopen p \<or> killed"
    "w = [] \<or> w = [CNread]"
    using ok w by (simp_all add: q)
  show "\<And>c i'. r = Sleeps c i' \<Longrightarrow>
    c = CNwrite \<and> length (ring_items q) = PIPESIZE \<and> readopen p \<and> i \<le> i' \<and> i' \<le> n \<and> w = [CNread]"
  proof -
    fix c i' assume "r = Sleeps c i'"
    note r = r [OF this]
    then have "length (ring_items q) = PIPESIZE"
      using items rq.items_cap [OF assms(1)] by (simp del: length_ring_items)
    moreover have "length ?todo = nat n - nat i" "int (nat n - nat i) = n - i"
      using assms(2-4) by auto
    then have "int ?room < n - i"
      using r by linarith
    ultimately show "c = CNwrite \<and> length (ring_items q) = PIPESIZE \<and> readopen p \<and> i \<le> i' \<and> i' \<le> n \<and> w = [CNread]"
      using r assms(2,3) by (simp del: length_ring_items)
  qed
qed

lemma piperead_run:
  assumes "pipe_ok p" "piperead killed p n = (cs, q, w, r)"
  shows "pipe_ok q" "readopen q = readopen p" "writeopen q = writeopen p" "ring_items p = cs @ ring_items q"
    "(q = p \<and> ring_items p = [] \<and> writeopen p \<and> w = []) \<or> (w = [CNwrite] \<and> (ring_items p \<noteq> [] \<or> \<not> writeopen p))"
    "\<And>c i. r = Sleeps c i \<Longrightarrow> q = p \<and> ring_items p = [] \<and> writeopen p"
proof -
  obtain xs t where g: "rq.gets p (nat n) = (xs, t)" by fastforce
  have emp: "ring_empty p \<longleftrightarrow> ring_items p = []" by (rule rq.empty_iff [OF assms(1)])
  show "pipe_ok q" "readopen q = readopen p" "writeopen q = writeopen p" "ring_items p = cs @ ring_items q"
    "(q = p \<and> ring_items p = [] \<and> writeopen p \<and> w = []) \<or> (w = [CNwrite] \<and> (ring_items p \<noteq> [] \<or> \<not> writeopen p))"
    "\<And>c i. r = Sleeps c i \<Longrightarrow> q = p \<and> ring_items p = [] \<and> writeopen p"
    using assms(2) rq.gets_spec [OF assms(1), of "nat n"] gets_flags [of p "nat n"] assms(1)
    unfolding piperead_def read_copy_gets emp by (auto simp: g split: if_splits)
qed

text \<open>The invariant on all runs.\<close>

definition pinv :: "psys \<Rightarrow> bool" where
  "pinv s \<longleftrightarrow> pipe_ok (ring s) \<and> sent s = received s @ ring_items (ring s) \<and>
     (\<forall>j addr n i z. act s j = Writing addr n i z \<longrightarrow> 0 \<le> i \<and> i \<le> n \<and> n \<le> int (length addr))"

lemma pinvD:
  "pinv s \<Longrightarrow> act s j = Writing addr n i z \<Longrightarrow> 0 \<le> i \<and> i \<le> n \<and> n \<le> int (length addr)"
  unfolding pinv_def by blast

lemma ring_items_flags [simp]:
  "ring_items (p\<lparr>writeopen := b\<rparr>) = ring_items p" "ring_items (p\<lparr>readopen := b\<rparr>) = ring_items p"
  "pipe_ok (p\<lparr>writeopen := b\<rparr>) = pipe_ok p" "pipe_ok (p\<lparr>readopen := b\<rparr>) = pipe_ok p"
  by (simp_all add: ring_items_def pipe_ok_def)

lemma pipeclose_run:
  "pipeclose p True = (q, w, fr) \<Longrightarrow> q = p\<lparr>writeopen := False\<rparr> \<and> w = [CNread]"
  "pipeclose p False = (q, w, fr) \<Longrightarrow> q = p\<lparr>readopen := False\<rparr> \<and> w = [CNwrite]"
  by (auto simp: pipeclose_def)

lemma pinv_step: "pstep kills s t \<Longrightarrow> pinv s \<Longrightarrow> pinv t"
proof (induction rule: pstep.induct)
  case (run_write s j addr n i killed q w r)
  note act = pinvD [OF run_write.prems run_write.hyps(1)]
  from run_write.prems have ok: "pipe_ok (ring s)" by (simp add: pinv_def)
  note run = pipewrite_run [OF ok _ _ _ run_write.hyps(3)]
  show ?case
    using run_write.prems act run by (auto simp: pinv_def split: outcome.splits if_splits)
next
  case (run_read s j n killed cs q w r)
  from run_read.prems have ok: "pipe_ok (ring s)" by (simp add: pinv_def)
  note run = piperead_run [OF ok run_read.hyps(2)]
  show ?case
    using run_read.prems run by (auto simp: pinv_def split: outcome.splits if_splits)
next
  case (close_write s q w fr)
  then show ?case using pipeclose_run by (fastforce simp: pinv_def)
next
  case (close_read s q w fr)
  then show ?case using pipeclose_run by (fastforce simp: pinv_def)
next
  case (kill_writer s j addr n i)
  note act = pinvD [OF kill_writer.prems kill_writer.hyps]
  show ?case
    using kill_writer.prems act by (simp add: pinv_def)
qed (simp_all add: pinv_def)

lemma pinv_init: "length junk = PIPESIZE \<Longrightarrow> pinv (psys_init junk)"
  by (simp add: pinv_def psys_init_def pipe_init_def pipe_ok_def ring_items_def)

interpretation pipes: step_system "\<lambda>s. s = psys_init junk" "pstep kills" "preach kills junk" for kills junk
  by unfold_locales (auto intro: preach.intros elim: preach.induct)

lemma preach_pinv: "preach kills junk s \<Longrightarrow> length junk = PIPESIZE \<Longrightarrow> pinv s"
  by (erule pipes.reached_least) (auto intro: pinv_init pinv_step)

text \<open>The invariant on sleeping processes, when no writer is killed.\<close>

definition winv :: "psys \<Rightarrow> bool" where
  "winv s \<longleftrightarrow>
     (\<forall>j n z. act s j = Reading n z \<longrightarrow> readopen (ring s)) \<and>
     (\<forall>j addr n i z. act s j = Writing addr n i z \<longrightarrow> writeopen (ring s)) \<and>
     (\<forall>j n. act s j = Reading n True \<longrightarrow> ring_items (ring s) = [] \<and> writeopen (ring s)) \<and>
     (\<forall>j addr n i. act s j = Writing addr n i True \<longrightarrow>
        length (ring_items (ring s)) = PIPESIZE \<and> readopen (ring s))"

lemma winv_step: "pstep kills s t \<Longrightarrow> \<not> kills \<Longrightarrow> pinv s \<Longrightarrow> winv s \<Longrightarrow> winv t"
proof (induction rule: pstep.induct)
  case (run_write s j addr n i killed q w r)
  note act = pinvD [OF run_write.prems(2) run_write.hyps(1)]
  from run_write.prems have ok: "pipe_ok (ring s)" by (simp add: pinv_def)
  note run = pipewrite_run [OF ok _ _ _ run_write.hyps(3)]
  have *: "writeopen (ring s)"
    using run_write.prems run_write.hyps by (auto simp: winv_def)
  have "w = [] \<Longrightarrow> (\<And>j n z. act s j \<noteq> Reading n z)"
    using run act run_write.prems run_write.hyps by (auto simp: winv_def)
  then have readers: "\<forall>k m z. act s k = Reading m z \<longrightarrow> w = [CNread]"
    using run act by blast
  have sleepers: "length (ring_items q) = PIPESIZE" if "act s k = Writing a m l True" for k a m l
  proof -
    from that run_write.prems have "length (ring_items (ring s)) = PIPESIZE" by (auto simp: winv_def simp del: length_ring_items)
    moreover have "length (ring_items q) \<le> PIPESIZE" using run act rq.items_cap by blast
    ultimately show ?thesis
      using run act by (metis append_self_conv2 le_antisym le_add1 length_append)
  qed
  show ?case
  proof (cases r)
    case (Returns m)
    then show ?thesis
      using run_write.prems(3) run(2,3) act * readers sleepers
      by (simp add: winv_def del: length_ring_items) fastforce
  next
    case (Sleeps c i')
    then show ?thesis
      using run_write.prems(3) run(2,3,7) act * readers sleepers
      by (simp add: winv_def del: length_ring_items)
  qed
next
  case (run_read s j n killed cs q w r)
  from run_read.prems have ok: "pipe_ok (ring s)" by (simp add: pinv_def)
  note run = piperead_run [OF ok run_read.hyps(2)]
  have ro: "readopen (ring s)" using run_read.prems run_read.hyps by (auto simp: winv_def)
  from run(5) show ?case
  proof
    assume "q = ring s \<and> ring_items (ring s) = [] \<and> writeopen (ring s) \<and> w = []"
    with run_read.prems(3) ro show ?thesis
      by (cases r) (simp_all add: winv_def del: length_ring_items, (metis (full_types))+)
  next
    assume "w = [CNwrite] \<and> (ring_items (ring s) \<noteq> [] \<or> \<not> writeopen (ring s))"
    then have "w = [CNwrite]" "ring_items (ring s) \<noteq> [] \<or> \<not> writeopen (ring s)" by blast+
    moreover from this obtain m where "r = Returns m" using run(6) by (cases r) blast+
    moreover have "act s k \<noteq> Reading l True" for k l
      using run_read.prems(3) \<open>ring_items (ring s) \<noteq> [] \<or> \<not> writeopen (ring s)\<close> unfolding winv_def by blast
    moreover have "act s k = Writing addr l i z \<Longrightarrow> writeopen (ring s)" for k addr l i z
      using run_read.prems(3) unfolding winv_def by blast
    ultimately show ?thesis
      using ro run(2,3) unfolding winv_def by (auto simp del: length_ring_items split: if_splits)
  qed
next
  case (close_write s q w fr)
  then show ?case using pipeclose_run(1) [of "ring s" q w fr]
    by (auto simp: winv_def simp del: length_ring_items)
next
  case (close_read s q w fr)
  then show ?case using pipeclose_run(2) [of "ring s" q w fr]
    by (auto simp: winv_def simp del: length_ring_items)
qed (auto simp: winv_def simp del: length_ring_items split: if_splits)

lemma preach_winv: "preach False junk s \<Longrightarrow> length junk = PIPESIZE \<Longrightarrow> winv s"
  by (erule pipes.invariant_under [where J = pinv])
    (simp_all add: preach_pinv winv_step, simp add: winv_def psys_init_def)

text \<open>C11. On every run of any number of readers and writers of one pipe, with interrupted calls, kills and
  closing ends, the bytes handed to readers so far followed by the unread bytes in the ring are exactly the
  bytes stored by writers so far, in order: nothing is lost, repeated or reordered, and at most 512 bytes are
  under way.\<close>

theorem pipe_fifo:
  assumes "preach kills junk s" "length junk = PIPESIZE"
  shows "sent s = received s @ ring_items (ring s) \<and> length (ring_items (ring s)) \<le> PIPESIZE"
  using preach_pinv [OF assms] by (simp add: pinv_def pipe_ok_def)

theorem pipe_fifo_witness:
  "sent (psys_init (replicate 512 NUL)) = received (psys_init (replicate 512 NUL)) @
     ring_items (ring (psys_init (replicate 512 NUL))) \<and>
   length (ring_items (ring (psys_init (replicate 512 NUL)))) \<le> PIPESIZE"
  by (rule pipe_fifo [OF preach.init]) simp

text \<open>C19. As long as no writer is killed, a sleeping reader has an empty ring with an open write end before it
  and a sleeping writer a full ring with an open read end; so readers and writers never sleep at the same
  time.\<close>

theorem pipe_no_lost_wakeup:
  assumes "preach False junk s" "length junk = PIPESIZE"
  shows "(act s j = Reading n True \<longrightarrow> ring_items (ring s) = [] \<and> writeopen (ring s)) \<and>
    (act s k = Writing addr m i True \<longrightarrow> length (ring_items (ring s)) = PIPESIZE \<and> readopen (ring s)) \<and>
    \<not> (act s j = Reading n True \<and> act s k = Writing addr m i True)"
  using preach_winv [OF assms] unfolding winv_def by (metis list.size(3) zero_neq_numeral)

theorem pipe_no_lost_wakeup_witness:
  "\<exists>s. preach False (replicate 512 NUL) s \<and> act s 0 = Reading 1 True \<and> ring_items (ring s) = []"
proof -
  let ?s0 = "psys_init (replicate 512 NUL)"
  let ?s1 = "?s0\<lparr>act := (act ?s0)(0 := Reading 1 False)\<rparr>"
  have s1: "preach False (replicate 512 NUL) ?s1"
    by (rule preach.step [OF preach.init pstep.enter_read])
      (simp_all add: psys_init_def pipe_init_def)
  have rd: "piperead False (ring ?s1) 1 = ([], ring ?s1, [], Sleeps CNread 0)"
    by (simp add: piperead_def psys_init_def pipe_init_def ring_empty_def)
  from preach.step [OF s1 pstep.run_read [OF _ rd, of 0]]
  obtain s where s: "preach False (replicate 512 NUL) s" "act s 0 = Reading 1 True"
    by fastforce
  with pipe_no_lost_wakeup [OF s(1), of 0 1] show ?thesis
    by auto
qed

text \<open>The wakeup is lost when a killed writer leaves: it returns -1 from a full pipe without waking the
  readers it has just supplied. A state with a reader asleep before a full ring is reachable.\<close>

theorem pipe_killed_writer_strands_reader:
  "\<exists>s. preach True (replicate 512 NUL) s \<and> act s = (\<lambda>_. Idle)(0 := Reading 1 True) \<and>
     length (ring_items (ring s)) = PIPESIZE"
proof -
  let ?junk = "replicate 512 NUL" and ?buf = "replicate 513 CHR ''x''"
  let ?s0 = "psys_init ?junk"
  let ?s1 = "?s0\<lparr>act := (act ?s0)(0 := Reading 1 False)\<rparr>"
  have s1: "preach True ?junk ?s1"
    by (rule preach.step [OF preach.init pstep.enter_read])
      (simp_all add: psys_init_def pipe_init_def)
  have rd: "piperead False (ring ?s1) 1 = ([], ring ?s1, [], Sleeps CNread 0)"
    by (simp add: piperead_def psys_init_def pipe_init_def ring_empty_def)
  from preach.step [OF s1 pstep.run_read [OF _ rd, of 0]]
  obtain s2 where s2: "preach True ?junk s2" "ring s2 = pipe_init ?junk" "act s2 = (\<lambda>_. Idle)(0 := Reading 1 True)"
    by (fastforce simp: psys_init_def wakeup_all_def)
  let ?s3 = "s2\<lparr>act := (act s2)(1 := Writing ?buf 513 0 False)\<rparr>"
  have s3: "preach True ?junk ?s3"
    by (rule preach.step [OF s2(1) pstep.enter_write]) (simp_all add: s2 pipe_init_def)
  have ok: "pipe_ok (pipe_init ?junk)" and none: "ring_items (pipe_init ?junk) = []"
    by (simp_all add: pipe_init_def pipe_ok_def ring_items_def)
  have todo: "seg ?buf 0 513 = ?buf"
    by (simp add: seg_def)
  obtain q where wr: "pipewrite True (ring ?s3) ?buf 513 0 = (q, [], Returns (- 1))"
      and q: "ring_items q = take 512 ?buf"
    using pipewrite_puts [OF ok, of 0 513 ?buf True] rq.items_puts [OF ok, of ?buf] none todo
    by (simp add: s2 Let_def del: length_ring_items)
  from preach.step [OF s3 pstep.run_write [OF _ _ wr, of 1]] q show ?thesis
    by (fastforce simp: s2 wakeup_all_def simp del: length_ring_items)
qed

end
