(* ===== verification/FileTable.thy ===== *)
theory FileTable
  imports Pipe
begin

text \<open>
  \<open>file.c\<close> and \<open>pipealloc\<close> of \<open>pipe.c\<close>: the table of open files with its reference counts, and reading and
  writing through it. Inode operations are arguments (they are modelled in the theory of the file system);
  each runs on a state \<open>'s\<close>. The table lock makes each call of \<open>filealloc\<close>, \<open>filedup\<close> and \<open>fileclose\<close> atomic.
\<close>

section \<open>The table\<close>

datatype ftype = FD_NONE | FD_PIPE | FD_INODE

record ofile =
  ftype :: ftype
  ref :: int
  readable :: bool
  writable :: bool
  fpipe :: nat
  ip :: nat
  off :: u32

definition NFILE :: nat where
  "NFILE = 100"

text \<open>\<open>filealloc\<close>: the first entry with reference count 0, scanning from \<open>i\<close>.\<close>

fun filealloc_from :: "nat \<Rightarrow> ofile list \<Rightarrow> (nat \<times> ofile list) option" where
  "filealloc_from i [] = None"
| "filealloc_from i (f # fs) =
     (if ref f = 0 then Some (i, f\<lparr>ref := 1\<rparr> # fs)
      else map_option (\<lambda>(k, fs'). (k, f # fs')) (filealloc_from (Suc i) fs))"

definition filealloc :: "ofile list \<Rightarrow> (nat \<times> ofile list) option" where
  "filealloc tab = filealloc_from 0 tab"

definition filedup :: "nat \<Rightarrow> ofile list \<Rightarrow> ofile list kres" where
  "filedup f tab =
     (if ref (tab ! f) < 1 then Inl (Panic ''filedup'')
      else Inr (tab[f := (tab ! f)\<lparr>ref := ref (tab ! f) + 1\<rparr>]))"

text \<open>What \<open>fileclose\<close> does after dropping the lock: close a pipe end, put an inode inside a transaction, or
  nothing.\<close>

datatype closing = Nothing | ClosePipe nat bool | PutInode nat

definition fileclose :: "nat \<Rightarrow> ofile list \<Rightarrow> (ofile list \<times> closing) kres" where
  "fileclose f tab =
     (if ref (tab ! f) < 1 then Inl (Panic ''fileclose'')
      else
        (let ff = (tab ! f)\<lparr>ref := ref (tab ! f) - 1\<rparr>
         in if ref ff > 0 then Inr (tab[f := ff], Nothing)
            else Inr (tab[f := ff\<lparr>ref := 0, ftype := FD_NONE\<rparr>],
              (case ftype ff of
                 FD_PIPE \<Rightarrow> ClosePipe (fpipe ff) (writable ff)
               | FD_INODE \<Rightarrow> PutInode (ip ff)
               | FD_NONE \<Rightarrow> Nothing))))"

section \<open>pipealloc\<close>

definition set_end :: "bool \<Rightarrow> nat \<Rightarrow> ofile \<Rightarrow> ofile" where
  "set_end wr p f = f\<lparr>ftype := FD_PIPE, readable := \<not> wr, writable := wr, fpipe := p\<rparr>"

text \<open>The \<open>bad\<close> label: close the files that were allocated. The page \<open>p\<close> is null there on every path that
  leads to it, so \<open>kfree\<close> is not reached.\<close>

definition close_opt :: "nat option \<Rightarrow> ofile list \<times> closing list \<Rightarrow> (ofile list \<times> closing list) kres" where
  "close_opt fo s =
     (case fo of
        None \<Rightarrow> Inr s
      | Some f \<Rightarrow> kbind (fileclose f (fst s)) (\<lambda>(tab, c). Inr (tab, snd s @ [c])))"

definition pipealloc_bad :: "nat option \<Rightarrow> nat option \<Rightarrow> ofile list \<Rightarrow> (ofile list \<times> closing list) kres" where
  "pipealloc_bad f0 f1 tab = kbind (close_opt f0 (tab, [])) (close_opt f1)"

text \<open>\<open>kalloc\<close> is what the allocator returns: a fresh page number or nothing. The result: the two files and the
  initialised pipe (return value 0) or nothing (-1), the table, and the closing actions that were run.\<close>

definition pipealloc ::
  "nat option \<Rightarrow> char list \<Rightarrow> ofile list \<Rightarrow> ((nat \<times> nat \<times> nat \<times> pipe) option \<times> ofile list \<times> closing list) kres" where
  "pipealloc kalloc junk tab =
     (let fail = (\<lambda>f0 f1 t. kbind (pipealloc_bad f0 f1 t) (\<lambda>(t2, cs). Inr (None, t2, cs)))
      in case filealloc tab of
           None \<Rightarrow> fail None None tab
         | Some (f0, tab1) \<Rightarrow>
             (case filealloc tab1 of
                None \<Rightarrow> fail (Some f0) None tab1
              | Some (f1, tab2) \<Rightarrow>
                  (case kalloc of
                     None \<Rightarrow> fail (Some f0) (Some f1) tab2
                   | Some p \<Rightarrow>
                       (let tab3 = tab2[f0 := set_end False p (tab2 ! f0)];
                            tab4 = tab3[f1 := set_end True p (tab3 ! f1)]
                        in Inr (Some (f0, f1, p, pipe_init junk), tab4, [])))))"

section \<open>Reading and writing\<close>

text \<open>\<open>filestat\<close>: the argument \<open>stati\<close> copies the inode's data while it holds the inode's lock.\<close>

definition filestat :: "(nat \<Rightarrow> 's \<Rightarrow> 'stat option \<times> 's) \<Rightarrow> ofile \<Rightarrow> 's \<Rightarrow> int \<times> 'stat option \<times> 's" where
  "filestat stati f s =
     (case ftype f of FD_INODE \<Rightarrow> (let (st, s') = stati (ip f) s in (0, st, s')) | _ \<Rightarrow> (- 1, None, s))"

text \<open>The result of a read or write on a file: a number, or a pipe call in progress.\<close>

datatype 'p fileio = Done int | OnPipe 'p

definition fileread ::
  "(nat \<Rightarrow> u32 \<Rightarrow> int \<Rightarrow> 's \<Rightarrow> int \<times> string \<times> 's) \<Rightarrow>
   (nat \<Rightarrow> int \<Rightarrow> 'p) \<Rightarrow> ofile \<Rightarrow> int \<Rightarrow> 's \<Rightarrow> ('p fileio \<times> string \<times> ofile \<times> 's) kres" where
  "fileread readi on_pipe f n s =
     (if \<not> readable f then Inr (Done (- 1), [], f, s)
      else
        (case ftype f of
           FD_PIPE \<Rightarrow> Inr (OnPipe (on_pipe (fpipe f) n), [], f, s)
         | FD_INODE \<Rightarrow>
             (let (r, bytes, s') = readi (ip f) (off f) n s
              in Inr (Done r, bytes, (if r > 0 then f\<lparr>off := off f + word_of_int r\<rparr> else f), s'))
         | FD_NONE \<Rightarrow> Inl (Panic ''fileread'')))"

text \<open>At most this many bytes go into one transaction; C's \<open>/\<close> on positive numbers.\<close>

definition MAXOPBLOCKS :: int where
  "MAXOPBLOCKS = 10"

definition write_max :: int where
  "write_max = ((MAXOPBLOCKS - 1 - 1 - 2) div 2) * 512"

text \<open>The loop of \<open>filewrite\<close> from index \<open>i\<close>; each round is one transaction \<open>begin_op\<close> .. \<open>end_op\<close> around one call
  of \<open>writei\<close>. The result: the value returned, the file with its new offset, the state, and the bytes
  handed to each transaction.\<close>

function filewrite_loop ::
  "(nat \<Rightarrow> u32 \<Rightarrow> string \<Rightarrow> 's \<Rightarrow> int \<times> 's) \<Rightarrow> string \<Rightarrow> int \<Rightarrow> int \<Rightarrow> ofile \<Rightarrow> 's \<Rightarrow>
   (int \<times> ofile \<times> 's \<times> string list) kres" where
  "filewrite_loop writei addr n i f s =
     (if i < n then
        (let n1 = (if n - i > write_max then write_max else n - i);
             chunk = seg addr (nat i) (nat (i + n1));
             (r, s1) = writei (ip f) (off f) chunk s;
             f1 = (if r > 0 then f\<lparr>off := off f + word_of_int r\<rparr> else f)
         in if r < 0 then Inr (- 1, f1, s1, [chunk])
            else if r \<noteq> n1 then Inl (Panic ''short filewrite'')
            else kbind (filewrite_loop writei addr n (i + n1) f1 s1)
              (\<lambda>(ret, f2, s2, cs). Inr (ret, f2, s2, chunk # cs)))
      else Inr (if i = n then n else - 1, f, s, []))"
  by pat_completeness auto
termination
  by (relation "measure (\<lambda>(writei, addr, n, i, f, s). nat (n - i))") (auto simp: write_max_def MAXOPBLOCKS_def)

declare filewrite_loop.simps [simp del]

definition filewrite ::
  "(nat \<Rightarrow> u32 \<Rightarrow> string \<Rightarrow> 's \<Rightarrow> int \<times> 's) \<Rightarrow> (nat \<Rightarrow> string \<Rightarrow> int \<Rightarrow> 'p) \<Rightarrow>
   ofile \<Rightarrow> string \<Rightarrow> int \<Rightarrow> 's \<Rightarrow> ('p fileio \<times> ofile \<times> 's \<times> string list) kres" where
  "filewrite writei on_pipe f addr n s =
     (if \<not> writable f then Inr (Done (- 1), f, s, [])
      else
        (case ftype f of
           FD_PIPE \<Rightarrow> Inr (OnPipe (on_pipe (fpipe f) addr n), f, s, [])
         | FD_INODE \<Rightarrow> kbind (filewrite_loop writei addr n 0 f s) (\<lambda>(r, f', s', cs). Inr (Done r, f', s', cs))
         | FD_NONE \<Rightarrow> Inl (Panic ''filewrite'')))"

section \<open>Reference counts\<close>

text \<open>A free entry has no type: \<open>fileclose\<close> resets it.\<close>

definition tab_ok :: "ofile list \<Rightarrow> bool" where
  "tab_ok tab \<longleftrightarrow> (\<forall>f \<in> set tab. 0 \<le> ref f \<and> (ref f = 0 \<longrightarrow> ftype f = FD_NONE))"

lemma filealloc_from_spec:
  "filealloc_from i tab = Some (k, tab') \<Longrightarrow>
   i \<le> k \<and> k < i + length tab \<and> ref (tab ! (k - i)) = 0 \<and> tab' = tab[k - i := (tab ! (k - i))\<lparr>ref := 1\<rparr>]"
proof (induction i tab arbitrary: tab' rule: filealloc_from.induct)
  case (2 i f fs)
  show ?case
  proof (cases "ref f = 0")
    case False
    with "2.prems" obtain fs' where *: "filealloc_from (Suc i) fs = Some (k, fs')" "tab' = f # fs'" by auto
    with "2.IH" [OF False *(1)] have "k - i = Suc (k - Suc i)" by linarith
    with "2.IH" [OF False *(1)] * show ?thesis by auto
  qed (use "2.prems" in auto)
qed simp

lemma filealloc_spec:
  "filealloc tab = Some (k, tab') \<Longrightarrow> k < length tab \<and> ref (tab ! k) = 0 \<and> tab' = tab[k := (tab ! k)\<lparr>ref := 1\<rparr>]"
  using filealloc_from_spec [of 0 tab k tab'] by (simp add: filealloc_def)

lemma filealloc_None: "filealloc tab = None \<longleftrightarrow> (\<forall>f \<in> set tab. ref f \<noteq> 0)"
proof -
  have "filealloc_from i tab = None \<longleftrightarrow> (\<forall>f \<in> set tab. ref f \<noteq> 0)" for i
    by (induction i tab rule: filealloc_from.induct) auto
  then show ?thesis by (simp add: filealloc_def)
qed

lemma free_entry: "tab_ok tab \<Longrightarrow> k < length tab \<Longrightarrow> ref (tab ! k) = 0 \<Longrightarrow> ftype (tab ! k) = FD_NONE"
  by (simp add: tab_ok_def)

text \<open>Closing an entry that was just allocated from a free one undoes the allocation.\<close>

lemma fileclose_fresh:
  assumes "tab_ok tab" "k < length tab" "ref (tab ! k) = 0" "tab2 ! k = (tab ! k)\<lparr>ref := 1\<rparr>"
  shows "fileclose k tab2 = Inr (tab2[k := tab ! k], Nothing)"
proof -
  have eq: "(tab ! k)\<lparr>ref := 0, ftype := FD_NONE\<rparr> = tab ! k"
    using free_entry [OF assms(1-3)] assms(3) by (cases "tab ! k") simp
  then show ?thesis
    using assms free_entry [OF assms(1-3)] by (simp add: fileclose_def eq)
qed

lemma one_free:
  assumes "filealloc tab = Some (f0, tab1)" "filealloc tab1 = None"
  shows "length (filter (\<lambda>f. ref f = 0) tab) = 1"
proof -
  note f0 = filealloc_spec [OF assms(1)]
  then have tab1: "tab1 = tab[f0 := (tab ! f0)\<lparr>ref := 1\<rparr>]" by simp
  from assms(2) have "\<forall>f \<in> set tab1. ref f \<noteq> 0" by (simp add: filealloc_None)
  then have full: "\<And>k. k < length tab \<Longrightarrow> k \<noteq> f0 \<Longrightarrow> ref (tab ! k) \<noteq> 0"
    by (auto simp: tab1 all_set_conv_all_nth nth_list_update)
  have "length (filter (\<lambda>f. ref f = 0) tab) = card {k. k < length tab \<and> ref (tab ! k) = 0}"
    by (rule length_filter_conv_card)
  also have "{k. k < length tab \<and> ref (tab ! k) = 0} = {f0}" using full f0 by blast
  finally show ?thesis by simp
qed

lemma two_allocs:
  assumes "tab_ok tab" "filealloc tab = Some (f0, tab1)" "filealloc tab1 = Some (f1, tab2)"
  shows "f1 \<noteq> f0" "f0 < length tab" "f1 < length tab" "ref (tab ! f0) = 0" "ref (tab ! f1) = 0"
    "tab2 = tab[f0 := (tab ! f0)\<lparr>ref := 1\<rparr>, f1 := (tab ! f1)\<lparr>ref := 1\<rparr>]"
    "fileclose f0 tab2 = Inr (tab[f1 := (tab ! f1)\<lparr>ref := 1\<rparr>], Nothing)"
    "fileclose f1 (tab[f1 := (tab ! f1)\<lparr>ref := 1\<rparr>]) = Inr (tab, Nothing)"
proof -
  note f0 = filealloc_spec [OF assms(2)] and f1 = filealloc_spec [OF assms(3)]
  have tab1: "tab1 = tab[f0 := (tab ! f0)\<lparr>ref := 1\<rparr>]" using f0 by simp
  show ne: "f1 \<noteq> f0" using f0 f1 by (auto simp: tab1)
  show l: "f0 < length tab" "f1 < length tab" "ref (tab ! f0) = 0" "ref (tab ! f1) = 0" using f0 f1 ne by (auto simp: tab1)
  show tab2: "tab2 = tab[f0 := (tab ! f0)\<lparr>ref := 1\<rparr>, f1 := (tab ! f1)\<lparr>ref := 1\<rparr>]"
    using f1 ne by (simp add: tab1)
  show "fileclose f0 tab2 = Inr (tab[f1 := (tab ! f1)\<lparr>ref := 1\<rparr>], Nothing)"
    using fileclose_fresh [OF assms(1), of f0 tab2] l ne by (simp add: tab2 list_update_swap)
  show "fileclose f1 (tab[f1 := (tab ! f1)\<lparr>ref := 1\<rparr>]) = Inr (tab, Nothing)"
    using fileclose_fresh [OF assms(1), of f1 "tab[f1 := (tab ! f1)\<lparr>ref := 1\<rparr>]"] l by simp
qed

text \<open>C22. \<open>pipealloc\<close> on a table whose free entries have no type never panics. If two entries are free and a
  page is available it returns them with one reference each, as the read end and the write end of one empty
  pipe, all other entries unchanged; otherwise it returns nothing, closes no pipe and puts no inode, and
  leaves the table exactly as it was.\<close>

theorem pipealloc_all_or_nothing:
  assumes "tab_ok tab"
  shows "\<exists>res tab' acts. pipealloc kalloc junk tab = Inr (res, tab', acts) \<and> tab_ok tab' \<and>
    (case res of
       None \<Rightarrow> tab' = tab \<and> set acts \<subseteq> {Nothing} \<and> (kalloc = None \<or> length (filter (\<lambda>f. ref f = 0) tab) < 2)
     | Some (f0, f1, p, pp) \<Rightarrow> f0 \<noteq> f1 \<and> kalloc = Some p \<and> pp = pipe_init junk \<and> acts = [] \<and>
         (\<forall>k < length tab. k \<noteq> f0 \<longrightarrow> k \<noteq> f1 \<longrightarrow> tab' ! k = tab ! k) \<and>
         tab' ! f0 = (tab ! f0)\<lparr>ref := 1, ftype := FD_PIPE, readable := True, writable := False, fpipe := p\<rparr> \<and>
         tab' ! f1 = (tab ! f1)\<lparr>ref := 1, ftype := FD_PIPE, readable := False, writable := True, fpipe := p\<rparr>)"
proof (cases "filealloc tab")
  case None
  then have "\<forall>f \<in> set tab. ref f \<noteq> 0" by (simp add: filealloc_None)
  then have "filter (\<lambda>f. ref f = 0) tab = []" by (simp add: filter_empty_conv)
  with None assms show ?thesis
    by (simp add: pipealloc_def pipealloc_bad_def close_opt_def)
next
  case (Some r)
  obtain f0 tab1 where a0: "filealloc tab = Some (f0, tab1)" using Some by (cases r) auto
  show ?thesis
  proof (cases "filealloc tab1")
    case None
    have "fileclose f0 tab1 = Inr (tab, Nothing)"
      using fileclose_fresh [OF assms, of f0 tab1] filealloc_spec [OF a0] by simp
    with a0 None one_free [OF a0 None] assms show ?thesis by (simp add: pipealloc_def pipealloc_bad_def close_opt_def)
  next
    case (Some r)
    then obtain f1 tab2 where a1: "filealloc tab1 = Some (f1, tab2)" by (cases r) auto
    note T = two_allocs [OF assms a0 a1]
    show ?thesis
    proof (cases kalloc)
      case None
      with a0 a1 T(7,8) assms show ?thesis by (simp add: pipealloc_def pipealloc_bad_def close_opt_def)
    next
      case (Some p)
      let ?t = "tab2[f0 := set_end False p (tab2 ! f0)]"
      have "tab_ok (?t[f1 := set_end True p (?t ! f1)])"
        using assms T(1-5) by (auto simp: tab_ok_def T(6) set_end_def all_set_conv_all_nth nth_list_update)
      with a0 a1 Some T(1-5) show ?thesis by (simp add: pipealloc_def set_end_def T(6))
    qed
  qed
qed

theorem pipealloc_all_or_nothing_witness:
  "let tab = [\<lparr>ftype = FD_NONE, ref = 0, readable = True, writable = True, fpipe = 9, ip = 0, off = 0\<rparr>]
   in \<exists>acts. pipealloc (Some 3) [] tab = Inr (None, tab, acts)"
proof -
  let ?tab = "[\<lparr>ftype = FD_NONE, ref = 0, readable = True, writable = True, fpipe = 9, ip = 0, off = 0\<rparr>]"
  have "tab_ok ?tab" by (simp add: tab_ok_def)
  from pipealloc_all_or_nothing [OF this, of "Some 3" "[]"] show ?thesis
    by (auto simp: pipealloc_def filealloc_def pipealloc_bad_def close_opt_def fileclose_def)
qed

text \<open>A sequence of \<open>filedup\<close> (\<open>True\<close>) and \<open>fileclose\<close> (\<open>False\<close>) calls on one file, with the actions of the
  closes.\<close>

fun refs_run :: "nat \<Rightarrow> bool list \<Rightarrow> ofile list \<Rightarrow> (ofile list \<times> closing list) kres" where
  "refs_run f [] tab = Inr (tab, [])"
| "refs_run f (True # ops) tab = kbind (filedup f tab) (refs_run f ops)"
| "refs_run f (False # ops) tab =
     kbind (fileclose f tab) (\<lambda>(t, c). kbind (refs_run f ops t) (\<lambda>(t', cs). Inr (t', c # cs)))"

fun refs_after :: "bool list \<Rightarrow> int \<Rightarrow> int" where
  "refs_after [] r = r"
| "refs_after (op # ops) r = refs_after ops (if op then r + 1 else r - 1)"

definition stays_open :: "bool list \<Rightarrow> int \<Rightarrow> bool" where
  "stays_open ops r \<longleftrightarrow> (\<forall>k \<le> length ops. 0 < refs_after (take k ops) r)"

lemma stays_open_Cons:
  "stays_open (op # ops) r \<longleftrightarrow> 0 < r \<and> stays_open ops (if op then r + 1 else r - 1)" (is "?L \<longleftrightarrow> ?R")
proof
  assume L: ?L
  then have "0 < refs_after (take 0 (op # ops)) r" unfolding stays_open_def by blast
  moreover have "0 < refs_after (take k ops) (if op then r + 1 else r - 1)" if "k \<le> length ops" for k
    using L that unfolding stays_open_def by (auto dest!: spec [where x = "Suc k"] split: if_splits)
  ultimately show ?R by (simp add: stays_open_def)
next
  assume R: ?R
  show ?L unfolding stays_open_def
  proof (intro allI impI)
    fix k assume "k \<le> length (op # ops)"
    with R show "0 < refs_after (take k (op # ops)) r"
      by (cases k) (auto simp: stays_open_def)
  qed
qed

lemma stays_open_pos: "stays_open ops r \<Longrightarrow> 0 < r \<and> 0 < refs_after ops r"
  unfolding stays_open_def by (auto dest: spec [where x = 0] spec [where x = "length ops"])

lemma refs_run_open:
  assumes "f < length tab" "stays_open ops (ref (tab ! f))"
  shows "\<exists>cs. refs_run f ops tab = Inr (tab[f := (tab ! f)\<lparr>ref := refs_after ops (ref (tab ! f))\<rparr>], cs) \<and>
    set cs \<subseteq> {Nothing}"
  using assms
proof (induction f ops tab rule: refs_run.induct)
  case (1 f tab)
  then show ?case by simp
next
  case (2 f ops tab)
  then have r: "0 < ref (tab ! f)" "stays_open ops (ref (tab ! f) + 1)" by (simp_all add: stays_open_Cons)
  define t where "t = tab[f := (tab ! f)\<lparr>ref := ref (tab ! f) + 1\<rparr>]"
  have "filedup f tab = Inr t" using r by (simp add: filedup_def t_def)
  with "2.IH" [of t] "2.prems" r show ?case by (simp add: t_def)
next
  case (3 f ops tab)
  then have r: "0 < ref (tab ! f)" "stays_open ops (ref (tab ! f) - 1)" by (simp_all add: stays_open_Cons)
  define t where "t = tab[f := (tab ! f)\<lparr>ref := ref (tab ! f) - 1\<rparr>]"
  have "fileclose f tab = Inr (t, Nothing)"
    using r stays_open_pos [OF r(2)] by (simp add: fileclose_def t_def)
  with "3.IH" [of t] "3.prems" r show ?case by (auto simp: t_def)
qed

lemma refs_run_append:
  "refs_run f (xs @ ys) tab =
     kbind (refs_run f xs tab) (\<lambda>(t, cs). kbind (refs_run f ys t) (\<lambda>(t', ds). Inr (t', cs @ ds)))"
proof (induction f xs tab rule: refs_run.induct)
  case (1 f tab)
  then show ?case by (cases "refs_run f ys tab") auto
next
  case (2 f ops tab)
  then show ?case by (cases "filedup f tab") auto
next
  case (3 f ops tab)
  show ?case
  proof (cases "fileclose f tab")
    case (Inr r)
    obtain t c where r: "r = (t, c)" by fastforce
    show ?thesis
      using 3 [of t] Inr r
      by (cases "refs_run f ops t") (auto simp: kbind_def split: sum.splits prod.splits)
  qed simp
qed

text \<open>C37. However often a file is duplicated and closed, as long as a reference remains nothing is closed
  underneath it; the close that drops the last reference, and only that one, closes the pipe end or puts the
  inode, frees the entry and clears its type; one more close panics.\<close>

theorem fileclose_last:
  assumes "f < length tab" "stays_open ops (ref (tab ! f))" "refs_after ops (ref (tab ! f)) = 1"
  shows "\<exists>tab' cs. refs_run f (ops @ [False]) tab = Inr (tab', cs @
      [case ftype (tab ! f) of FD_PIPE \<Rightarrow> ClosePipe (fpipe (tab ! f)) (writable (tab ! f))
       | FD_INODE \<Rightarrow> PutInode (ip (tab ! f)) | FD_NONE \<Rightarrow> Nothing]) \<and>
    set cs \<subseteq> {Nothing} \<and> ref (tab' ! f) = 0 \<and> ftype (tab' ! f) = FD_NONE \<and>
    refs_run f (ops @ [False, False]) tab = Inl (Panic ''fileclose'')"
proof -
  define t where "t = tab[f := (tab ! f)\<lparr>ref := 1\<rparr>]"
  obtain cs where run: "refs_run f ops tab = Inr (t, cs)" "set cs \<subseteq> {Nothing}"
    using refs_run_open [OF assms(1,2)] assms(3) by (auto simp: t_def)
  define u where "u = t[f := (t ! f)\<lparr>ref := 0, ftype := FD_NONE\<rparr>]"
  have close: "fileclose f t = Inr (u, case ftype (tab ! f) of FD_PIPE \<Rightarrow> ClosePipe (fpipe (tab ! f)) (writable (tab ! f))
       | FD_INODE \<Rightarrow> PutInode (ip (tab ! f)) | FD_NONE \<Rightarrow> Nothing)"
    using assms(1) by (simp add: fileclose_def t_def u_def Let_def split: ftype.split)
  have again: "fileclose f u = Inl (Panic ''fileclose'')"
    using assms(1) by (simp add: fileclose_def t_def u_def)
  have "ops @ [False, False] = ops @ [False] @ [False]" by simp
  then show ?thesis
    using run close again assms(1)
    by (simp only: refs_run_append) (simp add: u_def t_def)
qed

theorem fileclose_last_witness:
  "let tab = [\<lparr>ftype = FD_PIPE, ref = 1, readable = True, writable = False, fpipe = 4, ip = 0, off = 0\<rparr>]
   in \<exists>tab' cs. refs_run 0 [True, False, False] tab = Inr (tab', cs @ [ClosePipe 4 False])"
proof -
  let ?tab = "[\<lparr>ftype = FD_PIPE, ref = 1, readable = True, writable = False, fpipe = 4, ip = 0, off = 0\<rparr>]"
  have "stays_open [True, False] 1" by (simp add: stays_open_Cons) (simp add: stays_open_def)
  with fileclose_last [of 0 ?tab "[True, False]"] show ?thesis by auto
qed

section \<open>Writing in transactions\<close>

lemma write_max_eq: "write_max = 1536"
  by (simp add: write_max_def MAXOPBLOCKS_def)

definition wrote :: "string \<Rightarrow> int \<Rightarrow> int \<Rightarrow> u32 \<Rightarrow> int \<Rightarrow> u32 \<Rightarrow> string list \<Rightarrow> bool" where
  "wrote addr i n o1 r o2 cs \<longleftrightarrow> (\<forall>c \<in> set cs. length c \<le> 1536) \<and>
     (if r = n then concat cs = seg addr (nat i) (nat n) \<and> o2 = o1 + word_of_int (n - i)
      else r = - 1 \<and> cs \<noteq> [] \<and> (\<exists>rest. concat cs @ rest = seg addr (nat i) (nat n)) \<and>
        o2 = o1 + of_nat (length (concat (butlast cs))))"

lemma wrote_Cons:
  assumes "wrote addr (i + n1) n (o1 + word_of_int n1) r o2 cs" "0 \<le> i" "0 < n1" "n1 \<le> 1536" "i + n1 \<le> n"
    "n \<le> int (length addr)" "chunk = seg addr (nat i) (nat (i + n1))"
  shows "wrote addr i n o1 r o2 (chunk # cs)"
proof -
  have len: "length chunk = nat n1"
    using assms by (simp add: nat_add_distrib)
  have "seg addr (nat i) (nat n) = chunk @ seg addr (nat (i + n1)) (nat n)"
    using assms by (simp add: seg_append)
  moreover have "(of_nat (nat n1) :: u32) = word_of_int n1"
    using assms(3) by (simp add: of_nat_nat)
  moreover have "word_of_int n1 + word_of_int (n - (i + n1)) = (word_of_int (n - i) :: u32)"
    by (simp flip: wi_hom_add)
  ultimately show ?thesis
    using assms(1,4) len unfolding wrote_def by (auto simp: add.assoc)
qed

lemma filewrite_loop_wrote:
  assumes full: "\<And>i o' c t. fst (writei i o' c t) = int (length c) \<or> fst (writei i o' c t) < 0"
    and "0 \<le> i" "i \<le> n" "n \<le> int (length addr)"
  shows "\<exists>r f' s' cs. filewrite_loop writei addr n i f s = Inr (r, f', s', cs) \<and> wrote addr i n (off f) r (off f') cs"
  using assms(2-)
proof (induction "nat (n - i)" arbitrary: i f s rule: less_induct)
  case less
  show ?case
  proof (cases "i < n")
    case False
    with less.prems show ?thesis
      by (subst filewrite_loop.simps) (simp add: wrote_def)
  next
    case True
    define n1 where "n1 = (if n - i > write_max then write_max else n - i)"
    define chunk where "chunk = seg addr (nat i) (nat (i + n1))"
    obtain r s1 where w: "writei (ip f) (off f) chunk s = (r, s1)" by fastforce
    have n1: "0 < n1" "n1 \<le> 1536" "i + n1 \<le> n"
      using True by (auto simp: n1_def write_max_eq)
    have len: "int (length chunk) = n1"
      using n1 less.prems by (simp add: chunk_def nat_add_distrib)
    show ?thesis
    proof (cases "r < 0")
      case True
      have "chunk @ seg addr (nat (i + n1)) (nat n) = seg addr (nat i) (nat n)"
        using n1 less.prems unfolding chunk_def by (intro seg_append) auto
      then have "wrote addr i n (off f) (- 1) (off f) [chunk]"
        using len n1 less.prems by (auto simp: wrote_def)
      with \<open>i < n\<close> w True show ?thesis
        by (subst filewrite_loop.simps) (simp add: Let_def flip: n1_def chunk_def)
    next
      case False
      with full [of "ip f" "off f" chunk s] w len have r: "r = n1" by simp
      let ?f = "f\<lparr>off := off f + word_of_int r\<rparr>"
      obtain r' f' s' cs where IH: "filewrite_loop writei addr n (i + n1) ?f s1 = Inr (r', f', s', cs)"
        "wrote addr (i + n1) n (off ?f) r' (off f') cs"
        using less.hyps [of "i + n1" ?f s1] n1 less.prems by auto
      from wrote_Cons [OF _ _ n1 _ chunk_def, of "off f" r' "off f'" cs] IH(2) less.prems
      have "wrote addr i n (off f) r' (off f') (chunk # cs)" by (simp add: r)
      with \<open>i < n\<close> w r IH(1) n1 show ?thesis
        by (subst filewrite_loop.simps) (simp add: Let_def flip: n1_def chunk_def)
    qed
  qed
qed

text \<open>If every call of \<open>writei\<close> writes its whole chunk or fails with a negative number, \<open>filewrite\<close> on an
  inode never panics: it returns \<open>n\<close> after writing the \<open>n\<close> bytes in order, in transactions of at most 1536
  bytes each, with the offset advanced by \<open>n\<close>; or -1 after the first failing transaction, with the offset
  advanced by the bytes of the transactions before it.\<close>

theorem filewrite_transactions:
  assumes full: "\<And>i o' c t. fst (writei i o' c t) = int (length c) \<or> fst (writei i o' c t) < 0"
    and "writable f" "ftype f = FD_INODE" "0 \<le> n" "n \<le> int (length addr)"
  shows "\<exists>r f' s' cs. filewrite writei on_pipe f addr n s = Inr (Done r, f', s', cs) \<and>
    (\<forall>c \<in> set cs. length c \<le> 1536) \<and>
    (if r = n then concat cs = take (nat n) addr \<and> off f' = off f + word_of_int n
     else r = - 1 \<and> cs \<noteq> [] \<and> (\<exists>rest. concat cs @ rest = take (nat n) addr) \<and>
       off f' = off f + of_nat (length (concat (butlast cs))))"
proof -
  obtain r f' s' cs where "filewrite_loop writei addr n 0 f s = Inr (r, f', s', cs)"
    "wrote addr 0 n (off f) r (off f') cs"
    using filewrite_loop_wrote [of writei, OF full, of 0 n addr f s] assms(4,5) by auto
  then show ?thesis
    using assms(2,3) by (intro exI [of _ r] exI [of _ f'] exI [of _ s'] exI [of _ cs])
      (cases "r = n"; simp add: filewrite_def wrote_def seg_def)
qed

theorem filewrite_transactions_witness:
  "\<exists>r f' s' cs. filewrite (\<lambda>i o' c t. (int (length c), t @ c)) (\<lambda>_ _ _. ())
     \<lparr>ftype = FD_INODE, ref = 1, readable = True, writable = True, fpipe = 0, ip = 5, off = 0\<rparr>
     (replicate 2000 CHR ''x'') 2000 [] = Inr (Done r, f', s', cs) \<and> (\<forall>c \<in> set cs. length c \<le> 1536)"
proof -
  let ?w = "\<lambda>i o' c t. (int (length c), t @ c) :: int \<times> string"
  have "fst (?w i o' c t) = int (length c) \<or> fst (?w i o' c t) < 0" for i :: nat and o' :: u32 and c t
    by simp
  from filewrite_transactions [of ?w, OF this, of "\<lparr>ftype = FD_INODE, ref = 1, readable = True, writable = True,
      fpipe = 0, ip = 5, off = 0\<rparr>" 2000 "replicate 2000 CHR ''x''" "\<lambda>_ _ _. ()" "[]"]
  show ?thesis by (simp add: length_replicate) blast
qed

section \<open>The contract of the inode layer\<close>

text \<open>What a file layer sees of an inode: its bytes, its size, and the offsets for which it holds blocks. A string
  stored at offset \<open>k\<close> changes exactly those bytes.\<close>

definition stored :: "('s \<Rightarrow> bool) \<Rightarrow> ('s \<Rightarrow> nat \<Rightarrow> char) \<Rightarrow> ('s \<Rightarrow> nat) \<Rightarrow> ('s \<Rightarrow> nat set) \<Rightarrow> nat \<Rightarrow> string \<Rightarrow> 's \<Rightarrow> 's \<Rightarrow> bool" where
  "stored ok bytes fsize backed k c s t \<longleftrightarrow> ok t \<and> bytes t = overwrite (bytes s) k c \<and>
     fsize t = max (fsize s) (k + length c) \<and> backed s \<union> {k..<k + length c} \<subseteq> backed t"

lemma stored_Nil: "ok s \<Longrightarrow> k \<le> fsize s \<Longrightarrow> stored ok bytes fsize backed k [] s s"
  by (simp add: stored_def max_def)

lemma stored_append:
  assumes "stored ok bytes fsize backed k c s t" "stored ok bytes fsize backed (k + length c) d t u"
  shows "stored ok bytes fsize backed k (c @ d) s u"
proof -
  note A = assms [unfolded stored_def]
  have "{k..<k + length (c @ d)} = {k..<k + length c} \<union> {k + length c..<k + length c + length d}" by auto
  with A have "backed s \<union> {k..<k + length (c @ d)} \<subseteq> backed u" by blast
  moreover have "bytes u = overwrite (bytes s) k (c @ d)" using A overwrite_append [of "bytes s" k c d] by simp
  ultimately show ?thesis using A by (simp add: stored_def add.assoc)
qed

locale inode_store =
  fixes writei :: "nat \<Rightarrow> u32 \<Rightarrow> string \<Rightarrow> 's \<Rightarrow> int \<times> 's" and readi :: "nat \<Rightarrow> u32 \<Rightarrow> int \<Rightarrow> 's \<Rightarrow> int \<times> string \<times> 's"
    and ok :: "nat \<Rightarrow> 's \<Rightarrow> bool" and bytes :: "nat \<Rightarrow> 's \<Rightarrow> nat \<Rightarrow> char" and fsize :: "nat \<Rightarrow> 's \<Rightarrow> nat"
    and backed :: "nat \<Rightarrow> 's \<Rightarrow> nat set" and limit :: nat
    and dead :: "'s \<Rightarrow> bool"
  assumes limit: "limit < 2 ^ 31"
    and writei: "ok i s \<Longrightarrow> unat o' \<le> fsize i s \<Longrightarrow> unat o' + length c \<le> limit \<Longrightarrow> writei i o' c s = (r, t) \<Longrightarrow>
      r = - 1 \<and> dead t \<or> r = int (length c) \<and> stored (ok i) (bytes i) (fsize i) (backed i) (unat o') c s t"
    and readi: "ok i s \<Longrightarrow> {unat o'..<unat o' + n} \<subseteq> backed i s \<Longrightarrow> unat o' + n \<le> fsize i s \<Longrightarrow> unat o' + n \<le> limit \<Longrightarrow>
      readi i o' (int n) s = (int n, map (bytes i s) [unat o'..<unat o' + n], s)"
begin

lemma filewrite_loop_stores:
  assumes "ok (ip f) s" "unat (off f) \<le> fsize (ip f) s" "unat (off f) + nat (n - i) \<le> limit" "0 \<le> i" "i \<le> n" "n \<le> int (length addr)"
  shows "\<exists>r f' s' cs. filewrite_loop writei addr n i f s = Inr (r, f', s', cs) \<and>
    (r = - 1 \<and> dead s' \<or> r = n \<and> f' = f\<lparr>off := off f + word_of_int (n - i)\<rparr> \<and>
      stored (ok (ip f)) (bytes (ip f)) (fsize (ip f)) (backed (ip f)) (unat (off f)) (seg addr (nat i) (nat n)) s s')"
  using assms
proof (induction "nat (n - i)" arbitrary: i f s rule: less_induct)
  case less
  show ?case
  proof (cases "i < n")
    case False
    with less.prems stored_Nil [of "ok (ip f)" s "unat (off f)" "fsize (ip f)" "bytes (ip f)" "backed (ip f)"] show ?thesis
      by (subst filewrite_loop.simps) (simp add: seg_def)
  next
    case True
    define n1 where "n1 = (if n - i > write_max then write_max else n - i)"
    define chunk where "chunk = seg addr (nat i) (nat (i + n1))"
    obtain r s1 where w: "writei (ip f) (off f) chunk s = (r, s1)" by fastforce
    have n1: "0 < n1" "i + n1 \<le> n" using True by (auto simp: n1_def write_max_eq)
    have len: "int (length chunk) = n1" using n1 less.prems(4-6) by (simp add: chunk_def nat_add_distrib)
    have fits: "unat (off f) + length chunk \<le> limit" using less.prems(3) len n1 by linarith
    note step = filewrite_loop.simps [of writei addr n i f s] n1_def [symmetric] chunk_def [symmetric] w
    from writei [OF less.prems(1,2) fits w] show ?thesis
    proof (elim disjE conjE)
      assume "r = - 1" "dead s1"
      with True show ?thesis unfolding step(1) Let_def step(2-4) by simp
    next
      assume r: "r = int (length chunk)" and st: "stored (ok (ip f)) (bytes (ip f)) (fsize (ip f)) (backed (ip f)) (unat (off f)) chunk s s1"
      let ?f = "f\<lparr>off := off f + word_of_int n1\<rparr>"
      have o1: "unat (off ?f) = unat (off f) + length chunk"
        using fits limit len [symmetric] by (simp add: unat_word_ariths take_bit_nat_eq_self unat_of_nat)
      have ih: "ok (ip ?f) s1" "unat (off ?f) \<le> fsize (ip ?f) s1" "unat (off ?f) + nat (n - (i + n1)) \<le> limit"
        using st o1 less.prems(3) len n1 by (simp_all add: stored_def)
      have rest: "seg addr (nat i) (nat n) = chunk @ seg addr (nat (i + n1)) (nat n)"
        using n1 less.prems(4,6) by (simp add: chunk_def seg_append)
      from less.hyps [OF _ ih] n1 less.prems(4-6) obtain r' f' s' cs where IH: "filewrite_loop writei addr n (i + n1) ?f s1 = Inr (r', f', s', cs)"
        "r' = - 1 \<and> dead s' \<or> r' = n \<and> f' = ?f\<lparr>off := off ?f + word_of_int (n - (i + n1))\<rparr> \<and>
          stored (ok (ip f)) (bytes (ip f)) (fsize (ip f)) (backed (ip f)) (unat (off f) + length chunk) (seg addr (nat (i + n1)) (nat n)) s1 s'"
        unfolding o1 [symmetric] by fastforce
      have "word_of_int n1 + word_of_int (n - (i + n1)) = (word_of_int (n - i) :: u32)" by (simp flip: wi_hom_add)
      then have "off ?f + word_of_int (n - (i + n1)) = off f + word_of_int (n - i)" by (simp add: add.assoc)
      moreover have "filewrite_loop writei addr n i f s = Inr (r', f', s', chunk # cs)"
        using True n1 IH(1) r len unfolding step(1) Let_def step(2-4) by simp
      ultimately show ?thesis using IH(2) stored_append [OF st] rest by auto
    qed
  qed
qed

lemma filewrite_stores:
  assumes "writable f" "ftype f = FD_INODE" "0 \<le> n" "n \<le> int (length addr)"
    and "ok (ip f) s" "unat (off f) \<le> fsize (ip f) s" "unat (off f) + nat n \<le> limit"
  shows "\<exists>r f' s' cs. filewrite writei on_pipe f addr n s = Inr (Done r, f', s', cs) \<and>
    (r = - 1 \<and> dead s' \<or> r = n \<and> f' = f\<lparr>off := off f + word_of_int n\<rparr> \<and>
      stored (ok (ip f)) (bytes (ip f)) (fsize (ip f)) (backed (ip f)) (unat (off f)) (take (nat n) addr) s s')"
proof -
  from filewrite_loop_stores [OF assms(5,6), of n 0 addr] assms(3,4,7)
  obtain r f' s' cs where "filewrite_loop writei addr n 0 f s = Inr (r, f', s', cs)"
    "r = - 1 \<and> dead s' \<or> r = n \<and> f' = f\<lparr>off := off f + word_of_int n\<rparr> \<and>
      stored (ok (ip f)) (bytes (ip f)) (fsize (ip f)) (backed (ip f)) (unat (off f)) (take (nat n) addr) s s'"
    by (auto simp: seg_def)
  with assms(1,2) show ?thesis
    by (intro exI [of _ r] exI [of _ f'] exI [of _ s'] exI [of _ cs]) (simp add: filewrite_def)
qed

text \<open>A second open file on the same inode reads what the first one wrote.\<close>

lemma fileread_stored:
  assumes "stored (ok (ip g)) (bytes (ip g)) (fsize (ip g)) (backed (ip g)) (unat (off g)) c s t" "unat (off g) + length c \<le> limit"
    and "readable g" "ftype g = FD_INODE"
  shows "fileread readi on_pipe g (int (length c)) t = Inr (Done (int (length c)), c, g\<lparr>off := off g + of_nat (length c)\<rparr>, t)"
proof -
  note A = assms(1) [unfolded stored_def]
  have b: "{unat (off g)..<unat (off g) + length c} \<subseteq> backed (ip g) t" and z: "unat (off g) + length c \<le> fsize (ip g) t" using A by simp_all
  have "map (bytes (ip g) t) [unat (off g)..<unat (off g) + length c] = c" using A by (simp add: map_overwrite)
  with readi [OF conjunct1 [OF A] b z assms(2)] assms(3,4) show ?thesis by (cases c) (simp_all add: fileread_def)
qed

end

end
