(* ===== verification/FsContent.thy ===== *)
theory FsContent
  imports FsBitmap FsInode
begin

text \<open>
  The content of files: an inode as a function from byte offsets to bytes, whatever blocks the bytes lie in. \<open>bmap\<close>
  gives a file blocks without changing its content, \<open>readi\<close> returns a part of it and \<open>writei\<close> replaces one.
\<close>

section \<open>Blocks of a file\<close>

definition NB :: "'d env \<Rightarrow> nat" where
  "NB E = NDIRECT E + NINDIRECT E"

text \<open>Slot \<open>k\<close> of inode \<open>i\<close>: the address of its block \<open>k\<close>, or 0; slot \<open>NB\<close> is the indirect block.\<close>

definition slot :: "'d env \<Rightarrow> 'd fs \<Rightarrow> nat \<Rightarrow> nat \<Rightarrow> nat" where
  "slot E s i k =
     (let ip = icache s ! i; ind = addrs ip ! NDIRECT E in
      if k < NDIRECT E then addrs ip ! k
      else if k = NB E then ind
      else if ind = 0 then 0
      else get_addr E (rd E (disk s) (i_dev ip) ind) (k - NDIRECT E))"

lemma slot_NB: "slot E s i (NB E) = addrs (icache s ! i) ! NDIRECT E"
  by (simp add: slot_def NB_def)

definition owned :: "'d env \<Rightarrow> 'd fs \<Rightarrow> nat \<Rightarrow> nat set" where
  "owned E s i = {slot E s i k | k. k \<le> NB E} - {0}"

definition content :: "'d env \<Rightarrow> 'd fs \<Rightarrow> nat \<Rightarrow> nat \<Rightarrow> u8" where
  "content E s i p =
     (let a = slot E s i (p div BSIZE E) in
      if NB E * BSIZE E \<le> p \<or> a = 0 then 0 else rd E (disk s) (i_dev (icache s ! i)) a ! (p mod BSIZE E))"

text \<open>The inode block, which holds the inode on disk.\<close>

abbreviation iblock :: "'d env \<Rightarrow> 'd fs \<Rightarrow> nat \<Rightarrow> nat" where
  "iblock E s i \<equiv> IBLOCK E (inum (icache s ! i)) (sb s)"

abbreviation free_of :: "'d env \<Rightarrow> 'd fs \<Rightarrow> nat \<Rightarrow> nat set" where
  "free_of E s i \<equiv> free_blocks E (i_dev (icache s ! i)) s"

text \<open>A file whose blocks are its own: no block is in two slots, free, a bitmap block, or the block of the inode.\<close>

definition file_ok :: "'d env \<Rightarrow> 'd fs \<Rightarrow> nat \<Rightarrow> bool" where
  "file_ok E s i \<longleftrightarrow>
     i < length (icache s) \<and> length (addrs (icache s ! i)) = NDIRECT E + 1 \<and>
     bitmap_used E (i_dev (icache s ! i)) s \<and> 0 \<notin> free_of E s i \<and>
     (\<forall>j \<le> NB E. \<forall>k \<le> NB E. slot E s i j = slot E s i k \<longrightarrow> slot E s i j \<noteq> 0 \<longrightarrow> j = k) \<and>
     (\<forall>b \<in> owned E s i. b \<notin> free_of E s i \<and> \<not> is_bitmap E s b) \<and>
     iblock E s i \<notin> owned E s i \<union> free_of E s i \<and> \<not> is_bitmap E s (iblock E s i)"

text \<open>The laws of the layout: addresses below \<open>n\<close> can be stored in an indirect block, and a block of zeros holds none.\<close>

definition addr_laws :: "'d env \<Rightarrow> nat \<Rightarrow> bool" where
  "addr_laws E n \<longleftrightarrow>
     (\<forall>x k a. length x = BSIZE E \<longrightarrow> k < NINDIRECT E \<longrightarrow> a < n \<longrightarrow> length (put_addr E x k a) = BSIZE E \<and>
        (\<forall>j < NINDIRECT E. get_addr E (put_addr E x k a) j = (if j = k then a else get_addr E x j))) \<and>
     (\<forall>k < NINDIRECT E. get_addr E (replicate (BSIZE E) 0) k = 0) \<and>
     (\<forall>x k d. length x = BSIZE E \<longrightarrow> length (put_dinode E x k d) = BSIZE E) \<and> MAXFILE E = NB E"

lemma addr_lawsD:
  assumes "addr_laws E n"
  shows "length x = BSIZE E \<Longrightarrow> k < NINDIRECT E \<Longrightarrow> a < n \<Longrightarrow> length (put_addr E x k a) = BSIZE E"
    "length x = BSIZE E \<Longrightarrow> k < NINDIRECT E \<Longrightarrow> a < n \<Longrightarrow> j < NINDIRECT E \<Longrightarrow>
      get_addr E (put_addr E x k a) j = (if j = k then a else get_addr E x j)"
    "k < NINDIRECT E \<Longrightarrow> get_addr E (replicate (BSIZE E) 0) k = 0"
    "length x = BSIZE E \<Longrightarrow> length (put_dinode E x m d) = BSIZE E" "MAXFILE E = NB E"
  using assms unfolding addr_laws_def by blast+

text \<open>What a call on file \<open>i\<close> may do besides changing its content: give it free blocks.\<close>

definition only_file :: "'d env \<Rightarrow> nat \<Rightarrow> 'd fs \<Rightarrow> 'd fs \<Rightarrow> bool" where
  "only_file E i s u \<longleftrightarrow> file_ok E u i \<and> sb u = sb s \<and> length (icache u) = length (icache s) \<and>
     (\<forall>j. j \<noteq> i \<longrightarrow> icache u ! j = icache s ! j) \<and>
     (\<exists>ad. icache u ! i = (icache s ! i)\<lparr>addrs := ad\<rparr>) \<and>
     owned E u i \<union> free_of E u i \<subseteq> owned E s i \<union> free_of E s i \<and>
     (\<forall>k \<le> NB E. slot E s i k \<noteq> 0 \<longrightarrow> slot E u i k = slot E s i k) \<and>
     (\<forall>dev c. dev \<noteq> i_dev (icache s ! i) \<or> c \<notin> owned E s i \<union> free_of E s i \<and> \<not> is_bitmap E s c \<longrightarrow>
        rd E (disk u) dev c = rd E (disk s) dev c)"

lemma only_fileI:
  assumes "file_ok E u i" "sb u = sb s" "length (icache u) = length (icache s)" "\<And>j. j \<noteq> i \<Longrightarrow> icache u ! j = icache s ! j"
    "owned E u i \<union> free_of E u i \<subseteq> owned E s i \<union> free_of E s i"
    "\<And>dev c. dev \<noteq> i_dev (icache s ! i) \<or> c \<notin> owned E s i \<union> free_of E s i \<and> \<not> is_bitmap E s c \<Longrightarrow>
        rd E (disk u) dev c = rd E (disk s) dev c"
    "icache u ! i = (icache s ! i)\<lparr>addrs := ad\<rparr>" "\<And>k. k \<le> NB E \<Longrightarrow> slot E s i k \<noteq> 0 \<Longrightarrow> slot E u i k = slot E s i k"
  shows "only_file E i s u"
  unfolding only_file_def using assms by blast

lemma only_file_refl: "file_ok E s i \<Longrightarrow> only_file E i s s"
  by (rule only_fileI [where ad = "addrs (icache s ! i)"]) simp_all

lemma is_bitmap_sb: "sb u = sb s \<Longrightarrow> is_bitmap E u = is_bitmap E s"
  by (simp add: is_bitmap_def fun_eq_iff)

lemma only_fileD:
  assumes "only_file E i s u"
  shows "file_ok E u i" "sb u = sb s" "length (icache u) = length (icache s)" "\<And>j. j \<noteq> i \<Longrightarrow> icache u ! j = icache s ! j"
    "owned E u i \<union> free_of E u i \<subseteq> owned E s i \<union> free_of E s i"
    "\<And>dev c. dev \<noteq> i_dev (icache s ! i) \<or> c \<notin> owned E s i \<union> free_of E s i \<and> \<not> is_bitmap E s c \<Longrightarrow>
        rd E (disk u) dev c = rd E (disk s) dev c"
    "\<exists>ad. icache u ! i = (icache s ! i)\<lparr>addrs := ad\<rparr>" "\<And>k. k \<le> NB E \<Longrightarrow> slot E s i k \<noteq> 0 \<Longrightarrow> slot E u i k = slot E s i k"
  using assms unfolding only_file_def by blast+

lemma only_file_fields:
  assumes "only_file E i s u"
  shows "i_dev (icache u ! i) = i_dev (icache s ! i)" "inum (icache u ! i) = inum (icache s ! i)"
    "isize (icache u ! i) = isize (icache s ! i)" "itype (icache u ! i) = itype (icache s ! i)"
  using only_fileD(7) [OF assms] by auto

lemma only_file_trans:
  assumes "only_file E i s u" "only_file E i u v"
  shows "only_file E i s v"
proof -
  note su = only_fileD [OF assms(1)] and uv = only_fileD [OF assms(2)]
  have dev: "i_dev (icache u ! i) = i_dev (icache s ! i)" "is_bitmap E u = is_bitmap E s"
    using only_file_fields [OF assms(1)] is_bitmap_sb [OF su(2)] by simp_all
  obtain ad ad' where "icache u ! i = (icache s ! i)\<lparr>addrs := ad\<rparr>" "icache v ! i = (icache u ! i)\<lparr>addrs := ad'\<rparr>"
    using su(7) uv(7) by blast
  then have "icache v ! i = (icache s ! i)\<lparr>addrs := ad'\<rparr>" by simp
  moreover have "rd E (disk v) d c = rd E (disk s) d c"
    if c: "d \<noteq> i_dev (icache s ! i) \<or> c \<notin> owned E s i \<union> free_of E s i \<and> \<not> is_bitmap E s c" for d c
  proof -
    have "d \<noteq> i_dev (icache u ! i) \<or> c \<notin> owned E u i \<union> free_of E u i \<and> \<not> is_bitmap E u c"
      using c su(5) unfolding dev by blast
    from uv(6) [OF this] su(6) [OF c] show ?thesis by simp
  qed
  moreover have "owned E v i \<union> free_of E v i \<subseteq> owned E s i \<union> free_of E s i" using uv(5) su(5) by (rule subset_trans)
  moreover have "slot E v i k = slot E s i k" if "k \<le> NB E" "slot E s i k \<noteq> 0" for k using su(8) uv(8) that by simp
  ultimately show ?thesis using uv(1-4) su(2-4) by (intro only_fileI) simp_all
qed

lemma file_okD:
  assumes "file_ok E s i"
  shows "i < length (icache s)" "length (addrs (icache s ! i)) = NDIRECT E + 1" "bitmap_used E (i_dev (icache s ! i)) s"
    "0 \<notin> free_of E s i"
    "\<And>j k. j \<le> NB E \<Longrightarrow> k \<le> NB E \<Longrightarrow> slot E s i j = slot E s i k \<Longrightarrow> slot E s i j \<noteq> 0 \<Longrightarrow> j = k"
    "\<And>b. b \<in> owned E s i \<Longrightarrow> b \<notin> free_of E s i" "\<And>b. b \<in> owned E s i \<Longrightarrow> \<not> is_bitmap E s b"
    "iblock E s i \<notin> owned E s i" "iblock E s i \<notin> free_of E s i" "\<not> is_bitmap E s (iblock E s i)"
  using assms unfolding file_ok_def by blast+

lemma ownedI: "k \<le> NB E \<Longrightarrow> slot E s i k \<noteq> 0 \<Longrightarrow> slot E s i k \<in> owned E s i"
  by (auto simp: owned_def)

lemma free_not_bitmap: "bitmap_used E dev s \<Longrightarrow> b \<in> free_blocks E dev s \<Longrightarrow> \<not> is_bitmap E s b"
  by (auto simp: bitmap_used_def is_bitmap_def)

text \<open>A data block is not the indirect block.\<close>

lemma data_slot:
  assumes "file_ok E s i" "k < NB E" "slot E s i k \<noteq> 0"
  shows "slot E s i k \<in> owned E s i" "slot E s i k \<noteq> slot E s i (NB E)"
  using assms file_okD(5) [OF assms(1), of k "NB E"] by (auto intro: ownedI)

text \<open>Putting a free block, filled with zeros, into an empty slot leaves the content as it is.\<close>

lemma grow:
  assumes ok: "file_ok E s i" and k: "k \<le> NB E" "slot E s i k = 0" and b: "b \<in> free_of E s i"
    and u: "sb u = sb s" "length (icache u) = length (icache s)" "\<And>j. j \<noteq> i \<Longrightarrow> icache u ! j = icache s ! j"
      "icache u ! i = (icache s ! i)\<lparr>addrs := ad\<rparr>" "length ad = NDIRECT E + 1" "free_of E u i = free_of E s i - {b}"
    and slots: "\<And>j. j \<le> NB E \<Longrightarrow> slot E u i j = (if j = k then b else slot E s i j)"
    and data: "\<And>c. c \<in> owned E s i \<Longrightarrow> c \<noteq> slot E s i (NB E) \<Longrightarrow>
        rd E (disk u) (i_dev (icache s ! i)) c = rd E (disk s) (i_dev (icache s ! i)) c"
      "k < NB E \<Longrightarrow> rd E (disk u) (i_dev (icache s ! i)) b = replicate (BSIZE E) 0"
    and frame: "\<And>d c. d \<noteq> i_dev (icache s ! i) \<or> c \<notin> owned E s i \<union> free_of E s i \<and> \<not> is_bitmap E s c \<Longrightarrow>
        rd E (disk u) d c = rd E (disk s) d c"
    and "0 < BSIZE E"
  shows "only_file E i s u" "content E u i = content E s i"
proof -
  note S = file_okD [OF ok]
  have b0: "b \<noteq> 0" "b \<notin> owned E s i" "\<not> is_bitmap E s b"
    using b S(4) S(6) free_not_bitmap [OF S(3) b] by metis+
  have dev: "i_dev (icache u ! i) = i_dev (icache s ! i)" "inum (icache u ! i) = inum (icache s ! i)" "is_bitmap E u = is_bitmap E s"
    using u(4) is_bitmap_sb [OF u(1)] by simp_all
  have own: "owned E u i = insert b (owned E s i)"
  proof
    show "owned E u i \<subseteq> insert b (owned E s i)" using slots by (auto simp: owned_def)
    show "insert b (owned E s i) \<subseteq> owned E u i"
    proof
      fix c assume "c \<in> insert b (owned E s i)"
      then consider "c = b" | j where "j \<le> NB E" "c = slot E s i j" "c \<noteq> 0" by (auto simp: owned_def)
      then show "c \<in> owned E u i"
      proof cases
        case 1
        with slots [OF k(1)] k(1) b0 ownedI [of k E u i] show ?thesis by simp
      next
        case 2
        with slots [of j] k(2) ownedI [of j E u i] show ?thesis by (cases "j = k") auto
      qed
    qed
  qed
  have inj: "j = l" if "j \<le> NB E" "l \<le> NB E" "slot E u i j = slot E u i l" "slot E u i j \<noteq> 0" for j l
  proof -
    have "slot E s i m \<noteq> b" if "m \<le> NB E" for m using ownedI [OF that, of s i] b0 by auto
    with that slots [of j] slots [of l] S(5) [of j l] show ?thesis by (auto split: if_splits)
  qed
  have bu: "bitmap_used E (i_dev (icache u ! i)) u"
    using S(3) u(1,6) by (auto simp: bitmap_used_def dev)
  moreover have "iblock E u i \<notin> owned E u i \<union> free_of E u i"
    using S(8,9) b u(1,6) own by (auto simp: dev)
  ultimately have oku: "file_ok E u i"
    using S b0 inj own u unfolding file_ok_def dev by auto
  have sub: "owned E u i \<union> free_of E u i \<subseteq> owned E s i \<union> free_of E s i" unfolding own u(6) using b by auto
  have keep: "slot E u i l = slot E s i l" if "l \<le> NB E" "slot E s i l \<noteq> 0" for l
    using slots [OF that(1)] that(2) k(2) by (cases "l = k") simp_all
  show "only_file E i s u" by (rule only_fileI [OF oku u(1-3) sub frame u(4) keep])
  show "content E u i = content E s i"
  proof
    fix p
    show "content E u i p = content E s i p"
    proof (cases "NB E * BSIZE E \<le> p")
      case False
      then have j: "p div BSIZE E < NB E" using \<open>0 < BSIZE E\<close> by (simp add: div_less_iff_less_mult)
      then show ?thesis
      proof (cases "p div BSIZE E = k")
        case True
        with slots [of k] k data(2) j b0 False \<open>0 < BSIZE E\<close> show ?thesis by (simp add: content_def dev)
      next
        case False
        with slots [of "p div BSIZE E"] j data(1) [OF data_slot [OF ok j]] show ?thesis by (simp add: content_def dev Let_def)
      qed
    qed (simp add: content_def)
  qed
qed


section \<open>bmap\<close>

text \<open>The laws a file system with the superblock of \<open>s\<close> rests on.\<close>

definition fs_laws :: "'d env \<Rightarrow> 'd fs \<Rightarrow> bool" where
  "fs_laws E s \<longleftrightarrow> disk_laws E \<and> bitmap_laws E \<and> addr_laws E (sb_size (sb s))"

lemma fs_lawsD:
  assumes "fs_laws E s"
  shows "disk_laws E" "bitmap_laws E" "addr_laws E (sb_size (sb s))" "0 < BSIZE E"
  using assms by (simp_all add: fs_laws_def)

abbreviation no_blocks :: fault where
  "no_blocks \<equiv> Panics ''balloc: out of blocks''"

lemma balloc_takes:
  assumes "fs_laws E s" "bitmap_used E dev s"
  shows "balloc E dev s = Inl no_blocks \<or> (\<exists>b \<in> free_blocks E dev s. balloc E dev s = Inr (b, taken E dev b s))"
  using balloc_result [OF fs_lawsD(1) [OF assms(1)] fs_lawsD(2) [OF assms(1)], of dev s]
  by (auto intro!: bexI [of _ "Min (free_blocks E dev s)"] Min_in)

lemma free_taken:
  assumes "fs_laws E s" "bitmap_used E dev s" "b \<in> free_blocks E dev s"
  shows "free_blocks E dev (taken E dev b s) = free_blocks E dev s - {b}"
  using used_taken [OF fs_lawsD(1) [OF assms(1)] fs_lawsD(2) [OF assms(1)] free_not_bitmap [OF assms(2,3)]] by (auto simp: free_blocks_def)

lemma rd_taken_other:
  assumes "fs_laws E s" "b \<in> free_blocks E dev s" "d \<noteq> dev \<or> c \<noteq> b \<and> \<not> is_bitmap E s c"
  shows "rd E (disk (taken E dev b s)) d c = rd E (disk s) d c"
  using assms by (auto simp: rd_taken fs_lawsD(1) is_bitmap_def free_blocks_def)

lemma rd_taken_self: "fs_laws E s \<Longrightarrow> rd E (disk (taken E dev b s)) dev b = replicate (BSIZE E) 0"
  by (simp add: rd_taken fs_lawsD(1))

lemma free_blocks_cong:
  assumes "sb u = sb s" "\<And>c. is_bitmap E s c \<Longrightarrow> rd E (disk u) dev c = rd E (disk s) dev c"
  shows "free_blocks E dev u = free_blocks E dev s"
proof -
  have "used E dev u b \<longleftrightarrow> used E dev s b" if "b < sb_size (sb s)" for b
    using assms(2) [of "BBLOCK E b (sb s)"] that by (fastforce simp: used_def assms(1) is_bitmap_def)
  then show ?thesis by (auto simp: free_blocks_def assms(1))
qed

text \<open>The state in which a free block is taken and entered in the inode.\<close>

definition given :: "'d env \<Rightarrow> nat \<Rightarrow> nat \<Rightarrow> nat \<Rightarrow> 'd fs \<Rightarrow> 'd fs" where
  "given E i k b s = (taken E (i_dev (icache s ! i)) b s)\<lparr>icache := (icache s)[i := (icache s ! i)\<lparr>addrs := (addrs (icache s ! i))[k := b]\<rparr>]\<rparr>"

lemma given_grows:
  assumes "fs_laws E s" "file_ok E s i" "b \<in> free_of E s i" "slot E s i j = 0"
    and k: "k < NDIRECT E \<and> j = k \<or> k = NDIRECT E \<and> j = NB E"
  shows "only_file E i s (given E i k b s)" "content E (given E i k b s) i = content E s i" "slot E (given E i k b s) i j = b"
proof -
  let ?u = "given E i k b s" and ?dev = "i_dev (icache s ! i)"
  note S = file_okD [OF assms(2)] and L = fs_lawsD [OF assms(1)]
  have ip: "icache ?u ! i = (icache s ! i)\<lparr>addrs := (addrs (icache s ! i))[k := b]\<rparr>" using S(1) by (simp add: given_def)
  have rd: "rd E (disk ?u) d c = rd E (disk s) d c" if "d \<noteq> ?dev \<or> c \<noteq> b \<and> \<not> is_bitmap E s c" for d c
    using rd_taken_other [OF assms(1,3) that] by (simp add: given_def)
  have rdb: "rd E (disk ?u) ?dev b = replicate (BSIZE E) 0" using rd_taken_self [OF assms(1)] by (simp add: given_def)
  have owned: "rd E (disk ?u) ?dev c = rd E (disk s) ?dev c" if "c \<in> owned E s i" for c
    using rd [of ?dev c] S(6,7) [OF that] assms(3) by auto
  have ind: "addrs (icache s ! i) ! NDIRECT E \<in> owned E s i" if "addrs (icache s ! i) ! NDIRECT E \<noteq> 0"
    using ownedI [of "NB E" E s i] that by (simp add: slot_def NB_def)
  have slots: "slot E ?u i l = (if l = j then b else slot E s i l)" if l: "l \<le> NB E" for l
  proof (cases "k < NDIRECT E")
    case True
    with k l S(2) owned ind show ?thesis by (auto simp: slot_def ip Let_def NB_def)
  next
    case False
    with k assms(4) have z: "k = NDIRECT E" "j = NB E" "addrs (icache s ! i) ! NDIRECT E = 0" by (auto simp: slot_def NB_def)
    show ?thesis
    proof (cases "l < NDIRECT E \<or> l = NB E")
      case True
      with z S(2) show ?thesis by (auto simp: slot_def ip [unfolded z(1)] Let_def NB_def)
    next
      case False
      with l have "l - NDIRECT E < NINDIRECT E" by (auto simp: NB_def)
      from addr_lawsD(3) [OF L(3) this] False z S(2) rdb show ?thesis by (auto simp: slot_def ip [unfolded z(1)] Let_def)
    qed
  qed
  have "j \<le> NB E" using k by (auto simp: NB_def)
  have free: "free_of E ?u i = free_of E s i - {b}"
    using free_taken [OF assms(1) S(3) assms(3)] S(1) by (simp add: given_def free_blocks_def used_def)
  have ad: "length ((addrs (icache s ! i))[k := b]) = NDIRECT E + 1" "j < NB E \<Longrightarrow> rd E (disk ?u) ?dev b = replicate (BSIZE E) 0"
    "\<And>c. c \<in> owned E s i \<Longrightarrow> c \<noteq> slot E s i (NB E) \<Longrightarrow> rd E (disk ?u) ?dev c = rd E (disk s) ?dev c"
    "sb ?u = sb s" "length (icache ?u) = length (icache s)" "\<And>l. l \<noteq> i \<Longrightarrow> icache ?u ! l = icache s ! l"
    using S(2) rdb owned by (simp_all add: given_def)
  have frame: "rd E (disk ?u) d c = rd E (disk s) d c"
    if "d \<noteq> ?dev \<or> c \<notin> owned E s i \<union> free_of E s i \<and> \<not> is_bitmap E s c" for d c
    using rd [of d c] that assms(3) by auto
  have "only_file E i s ?u \<and> content E ?u i = content E s i"
    using grow [OF assms(2) \<open>j \<le> NB E\<close> assms(4,3) ad(4-6) ip ad(1) free slots ad(3,2) frame L(4)] by blast
  then show "only_file E i s ?u" "content E ?u i = content E s i" by simp_all
  show "slot E ?u i j = b" using slots [OF \<open>j \<le> NB E\<close>] by simp
qed

text \<open>The state in which a free block is taken and entered in the indirect block.\<close>

definition listed :: "'d env \<Rightarrow> nat \<Rightarrow> nat \<Rightarrow> nat \<Rightarrow> 'd fs \<Rightarrow> 'd fs" where
  "listed E i k b s =
     (let dev = i_dev (icache s ! i); ind = addrs (icache s ! i) ! NDIRECT E; t = taken E dev b s
      in t\<lparr>disk := wr E (disk t) dev ind (put_addr E (rd E (disk s) dev ind) k b)\<rparr>)"

lemma listed_grows:
  assumes "fs_laws E s" "file_ok E s i" "b \<in> free_of E s i" "slot E s i (NB E) \<noteq> 0"
    and k: "k < NINDIRECT E" "slot E s i (NDIRECT E + k) = 0"
  shows "only_file E i s (listed E i k b s)" "content E (listed E i k b s) i = content E s i"
    "slot E (listed E i k b s) i (NDIRECT E + k) = b"
proof -
  let ?u = "listed E i k b s" and ?dev = "i_dev (icache s ! i)" and ?ind = "addrs (icache s ! i) ! NDIRECT E"
  let ?data = "rd E (disk s) ?dev ?ind"
  note S = file_okD [OF assms(2)] and L = fs_lawsD [OF assms(1)]
  have NB: "NDIRECT E + k < NB E" "slot E s i (NB E) = ?ind" using k(1) by (simp_all add: NB_def slot_def)
  have ind: "?ind \<noteq> 0" "?ind \<in> owned E s i" using assms(4) ownedI [of "NB E" E s i] NB(2) by simp_all
  have ne: "?ind \<noteq> b" "\<not> is_bitmap E s ?ind" using S(6,7) [OF ind(2)] assms(3) by auto
  have b: "b < sb_size (sb s)" using assms(3) by (simp add: free_blocks_def)
  have len: "length ?data = BSIZE E" using L(1) by simp
  note A = addr_lawsD(1,2) [OF L(3) len k(1) b]
  have rd: "rd E (disk ?u) d c = (if d = ?dev \<and> c = ?ind then put_addr E ?data k b else rd E (disk (taken E ?dev b s)) d c)" for d c
    using L(1) A(1) by (simp add: listed_def Let_def)
  have other: "rd E (disk ?u) d c = rd E (disk s) d c"
    if "d \<noteq> ?dev \<or> c \<noteq> b \<and> c \<noteq> ?ind \<and> \<not> is_bitmap E s c" for d c
    using rd_taken_other [OF assms(1,3), of d c] that by (auto simp: rd)
  have u: "sb ?u = sb s" "icache ?u = icache s" by (simp_all add: listed_def Let_def)
  have slots: "slot E ?u i l = (if l = NDIRECT E + k then b else slot E s i l)" if l: "l \<le> NB E" for l
  proof (cases "l < NDIRECT E \<or> l = NB E")
    case True
    with NB show ?thesis by (auto simp: slot_def u Let_def)
  next
    case False
    with l have "l - NDIRECT E < NINDIRECT E" "l - NDIRECT E = k \<longleftrightarrow> l = NDIRECT E + k" by (auto simp: NB_def)
    with A(2) [of "l - NDIRECT E"] False ind(1) show ?thesis by (simp add: slot_def u Let_def rd)
  qed
  have "free_of E ?u i = free_of E (taken E ?dev b s) i"
    using ne(2) by (simp add: u, intro free_blocks_cong) (auto simp: u rd is_bitmap_def)
  then have free: "free_of E ?u i = free_of E s i - {b}"
    using free_taken [OF assms(1) S(3) assms(3)] by simp
  have rdb: "rd E (disk ?u) ?dev b = replicate (BSIZE E) 0"
    using rd_taken_self [OF assms(1)] ne(1) by (simp add: rd)
  have owned: "rd E (disk ?u) ?dev c = rd E (disk s) ?dev c" if "c \<in> owned E s i" "c \<noteq> slot E s i (NB E)" for c
    using other [of ?dev c] S(6,7) [OF that(1)] that(2) assms(3) NB(2) by auto
  have frame: "rd E (disk ?u) d c = rd E (disk s) d c"
    if "d \<noteq> ?dev \<or> c \<notin> owned E s i \<union> free_of E s i \<and> \<not> is_bitmap E s c" for d c
    using other [of d c] that assms(3) ind(2) by auto
  have ic: "length (icache ?u) = length (icache s)" "\<And>l. l \<noteq> i \<Longrightarrow> icache ?u ! l = icache s ! l"
    "icache ?u ! i = (icache s ! i)\<lparr>addrs := addrs (icache s ! i)\<rparr>" by (simp_all add: u)
  show "only_file E i s ?u" "content E ?u i = content E s i"
    using grow [OF assms(2) less_imp_le [OF NB(1)] k(2) assms(3) u(1) ic S(2) free slots owned rdb frame L(4)] by blast+
  show "slot E ?u i (NDIRECT E + k) = b" using slots NB(1) by simp
qed

text \<open>\<open>bmap\<close> leaves a file alone where its slot is taken; elsewhere it gives the file the blocks it needs.\<close>

lemma bmap_taken:
  assumes "bn < NB E" "slot E s i bn \<noteq> 0"
  shows "bmap E i bn s = Inr (slot E s i bn, s)"
proof (cases "bn < NDIRECT E")
  case True
  with assms show ?thesis by (simp add: bmap_def slot_def Let_def)
next
  case False
  with assms have "bn - NDIRECT E < NINDIRECT E" by (simp add: NB_def)
  with False assms show ?thesis by (auto simp: bmap_def slot_def Let_def split: if_splits)
qed

abbreviation given_blocks :: "'d env \<Rightarrow> nat \<Rightarrow> nat \<Rightarrow> 'd fs \<Rightarrow> fault + nat \<times> 'd fs \<Rightarrow> bool" where
  "given_blocks E i k s r \<equiv> r = Inl no_blocks \<or>
     (\<exists>u. r = Inr (slot E u i k, u) \<and> slot E u i k \<noteq> 0 \<and> only_file E i s u \<and> content E u i = content E s i)"

lemma free_pos: "file_ok E s i \<Longrightarrow> b \<in> free_of E s i \<Longrightarrow> 0 < b"
  using file_okD(4) by (metis gr0I)

lemma give_slot:
  assumes "fs_laws E s" "file_ok E s i" "slot E s i j = 0" "k < NDIRECT E \<and> j = k \<or> k = NDIRECT E \<and> j = NB E"
  shows "given_blocks E i j s
    (fbind (balloc E (i_dev (icache s ! i))) (\<lambda>a. fbind (set_ino i (\<lambda>ip. ip\<lparr>addrs := (addrs ip)[k := a]\<rparr>)) (\<lambda>_. fret a)) s)"
  using balloc_takes [OF assms(1) file_okD(3) [OF assms(2)]]
proof (elim disjE bexE)
  fix b assume b: "b \<in> free_of E s i" and run: "balloc E (i_dev (icache s ! i)) s = Inr (b, taken E (i_dev (icache s ! i)) b s)"
  note G = given_grows [OF assms(1,2) b assms(3,4)]
  show ?thesis
    using G free_pos [OF assms(2) b] run by (intro disjI2 exI [of _ "given E i k b s"]) (simp add: given_def)
qed simp

lemma only_file_laws: "only_file E i s u \<Longrightarrow> fs_laws E s \<Longrightarrow> fs_laws E u"
  by (simp add: fs_laws_def only_fileD(2))

lemma list_slot:
  assumes "fs_laws E s" "file_ok E s i" "slot E s i (NB E) = ind" "ind \<noteq> 0" "k < NINDIRECT E"
    and "data = rd E (disk s) (i_dev (icache s ! i)) ind"
  shows "given_blocks E i (NDIRECT E + k) s
    ((if get_addr E data k = 0 then
        fbind (balloc E (i_dev (icache s ! i))) (\<lambda>a. fbind (log_write E (i_dev (icache s ! i)) ind (put_addr E data k a)) (\<lambda>_. fret a))
      else fret (get_addr E data k)) s)"
proof -
  have ind: "ind = addrs (icache s ! i) ! NDIRECT E" using assms(3) by (simp add: slot_def NB_def)
  have slot: "slot E s i (NDIRECT E + k) = get_addr E data k" using assms(4-6) by (simp add: slot_def ind NB_def Let_def)
  show ?thesis
  proof (cases "get_addr E data k = 0")
    case False
    then show ?thesis using only_file_refl [OF assms(2)] by (intro disjI2 exI [of _ s]) (simp add: slot)
  next
    case True
    note z = assms(4) [folded assms(3)] assms(5) trans [OF slot True]
    from balloc_takes [OF assms(1) file_okD(3) [OF assms(2)]] show ?thesis
    proof (elim disjE bexE)
      fix b assume b: "b \<in> free_of E s i" and run: "balloc E (i_dev (icache s ! i)) s = Inr (b, taken E (i_dev (icache s ! i)) b s)"
      note G = listed_grows [OF assms(1,2) b z]
      show ?thesis
        using G free_pos [OF assms(2) b] run True
        by (intro disjI2 exI [of _ "listed E i k b s"]) (simp add: listed_def assms(6) ind Let_def)
    qed (simp add: True)
  qed
qed

lemma given_blocks_trans:
  assumes "only_file E i s t" "content E t i = content E s i" "given_blocks E i k t r"
  shows "given_blocks E i k s r"
  using assms(3)
proof (elim disjE exE conjE)
  fix u assume "r = Inr (slot E u i k, u)" "slot E u i k \<noteq> 0" "only_file E i t u" "content E u i = content E t i"
  with only_file_trans [OF assms(1)] assms(2) show ?thesis by (intro disjI2 exI [of _ u]) simp
qed simp

lemma bmap_gives:
  assumes "fs_laws E s" "file_ok E s i" "bn < NB E"
  shows "given_blocks E i bn s (bmap E i bn s)"
proof (cases "slot E s i bn = 0")
  case False
  with bmap_taken [OF assms(3) False] only_file_refl [OF assms(2)] show ?thesis by (intro disjI2 exI [of _ s]) simp
next
  case free: True
  let ?ip = "icache s ! i"
  show ?thesis
  proof (cases "bn < NDIRECT E")
    case True
    with give_slot [OF assms(1,2) free, of bn] free show ?thesis by (simp add: bmap_def slot_def Let_def)
  next
    case False
    define k where "k = bn - NDIRECT E"
    then have k: "bn = NDIRECT E + k" "k < NINDIRECT E" using False assms(3) by (simp_all add: NB_def)
    let ?entry = "\<lambda>ind. fbind (bread E (i_dev ?ip) ind) (\<lambda>data.
           if get_addr E data k = 0 then
             fbind (balloc E (i_dev ?ip)) (\<lambda>a. fbind (log_write E (i_dev ?ip) ind (put_addr E data k a)) (\<lambda>_. fret a))
           else fret (get_addr E data k))"
    let ?ind = "if addrs ?ip ! NDIRECT E = 0 then
        fbind (balloc E (i_dev ?ip)) (\<lambda>a. fbind (set_ino i (\<lambda>ip. ip\<lparr>addrs := (addrs ip)[NDIRECT E := a]\<rparr>)) (\<lambda>_. fret a))
      else fret (addrs ?ip ! NDIRECT E)"
    have run: "bmap E i bn s = fbind ?ind ?entry s" unfolding bmap_def k_def [symmetric] using False k(2) by simp
    have nb: "slot E s i (NB E) = addrs ?ip ! NDIRECT E" by (simp add: slot_def NB_def)
    have "given_blocks E i (NB E) s (?ind s)"
    proof (cases "addrs ?ip ! NDIRECT E = 0")
      case True
      with give_slot [OF assms(1,2), of "NB E" "NDIRECT E"] nb show ?thesis by simp
    next
      case False
      with only_file_refl [OF assms(2)] nb show ?thesis by (intro disjI2 exI [of _ s]) simp
    qed
    then show ?thesis
    proof (elim disjE exE conjE)
      fix t assume t: "?ind s = Inr (slot E t i (NB E), t)" "slot E t i (NB E) \<noteq> 0" "only_file E i s t" "content E t i = content E s i"
      have "given_blocks E i bn t (?entry (slot E t i (NB E)) t)"
        using list_slot [OF only_file_laws [OF t(3) assms(1)] only_fileD(1) [OF t(3)] refl t(2) k(2) refl]
        unfolding only_file_fields(1) [OF t(3)] k(1) [symmetric]
          fbind_def [of "bread E (i_dev ?ip) (slot E t i (NB E))"] bread_simp sum.case prod.case .
      with given_blocks_trans [OF t(3,4)] have "given_blocks E i bn s (?entry (slot E t i (NB E)) t)" .
      moreover have "bmap E i bn s = ?entry (slot E t i (NB E)) t" unfolding run fbind_def t(1) by simp
      ultimately show ?thesis by presburger
    qed (simp add: run fbind_def)
  qed
qed

section \<open>Data blocks\<close>

text \<open>Offsets in one block.\<close>

lemma same_block:
  assumes "ofs \<le> p" "p < ofs + m" "m \<le> B - ofs mod B" "0 < (B::nat)"
  shows "p div B = ofs div B" "p mod B = ofs mod B + (p - ofs)"
proof -
  have p: "p = ofs div B * B + (ofs mod B + (p - ofs))" using assms(1) by simp
  have r: "ofs mod B + (p - ofs) < B" using assms by linarith
  have "p div B = ofs div B + (ofs mod B + (p - ofs)) div B"
    by (subst p) (simp only: div_mult_self3 [OF less_imp_neq [OF assms(4), symmetric]])
  with r show "p div B = ofs div B" by simp
  then have "ofs div B * B + p mod B = p" using div_mult_mod_eq [of p B] by simp
  with p show "p mod B = ofs mod B + (p - ofs)" by linarith
qed

lemma block_in_range:
  assumes "ofs < N * B" "0 < (B::nat)"
  shows "ofs div B < N"
  using assms by (simp add: div_less_iff_less_mult)

definition write_block :: "'d env \<Rightarrow> nat \<Rightarrow> nat \<Rightarrow> u8 list \<Rightarrow> 'd fs \<Rightarrow> 'd fs" where
  "write_block E i k x s = s\<lparr>disk := wr E (disk s) (i_dev (icache s ! i)) (slot E s i k) x\<rparr>"

lemma write_block_content:
  assumes "fs_laws E s" "file_ok E s i" "k < NB E" "slot E s i k \<noteq> 0" "length x = BSIZE E"
  shows "only_file E i s (write_block E i k x s)"
    "content E (write_block E i k x s) i p = (if p div BSIZE E = k then x ! (p mod BSIZE E) else content E s i p)"
    "l \<le> NB E \<Longrightarrow> slot E (write_block E i k x s) i l = slot E s i l"
proof -
  let ?u = "write_block E i k x s" and ?dev = "i_dev (icache s ! i)"
  note S = file_okD [OF assms(2)] and L = fs_lawsD [OF assms(1)] and D = data_slot [OF assms(2-4)]
  have u: "sb ?u = sb s" "icache ?u = icache s" "length (icache ?u) = length (icache s)" "\<And>l. l \<noteq> i \<Longrightarrow> icache ?u ! l = icache s ! l"
    "icache ?u ! i = (icache s ! i)\<lparr>addrs := addrs (icache s ! i)\<rparr>" by (simp_all add: write_block_def)
  have rd: "rd E (disk ?u) d c = (if d = ?dev \<and> c = slot E s i k then x else rd E (disk s) d c)" for d c
    using L(1) assms(5) by (simp add: write_block_def)
  have "addrs (icache s ! i) ! NDIRECT E \<noteq> slot E s i k" using D(2) by (simp add: slot_NB)
  then have "rd E (disk ?u) ?dev (addrs (icache s ! i) ! NDIRECT E) = rd E (disk s) ?dev (addrs (icache s ! i) ! NDIRECT E)"
    unfolding rd by simp
  then have slots: "slot E ?u i l = slot E s i l" for l unfolding slot_def Let_def u(2) by simp
  have own: "owned E ?u i = owned E s i" by (simp add: owned_def slots)
  have free: "free_blocks E d ?u = free_blocks E d s" for d
    using S(7) [OF D(1)] by (intro free_blocks_cong) (auto simp: u(1) rd)
  have "bitmap_used E ?dev ?u" using S(3) by (simp add: bitmap_used_def free u(1))
  then have ok: "file_ok E ?u i"
    using assms(2) unfolding file_ok_def own free slots u is_bitmap_sb [OF u(1)] by simp
  have sub: "owned E ?u i \<union> free_of E ?u i \<subseteq> owned E s i \<union> free_of E s i" by (simp add: own free u)
  have frame: "rd E (disk ?u) d c = rd E (disk s) d c"
    if "d \<noteq> ?dev \<or> c \<notin> owned E s i \<union> free_of E s i \<and> \<not> is_bitmap E s c" for d c
    using that D(1) by (auto simp: rd)
  show "only_file E i s ?u" by (rule only_fileI [OF ok u(1,3,4) sub frame u(5) slots])
  show "l \<le> NB E \<Longrightarrow> slot E ?u i l = slot E s i l" by (rule slots)
  show "content E ?u i p = (if p div BSIZE E = k then x ! (p mod BSIZE E) else content E s i p)"
  proof (cases "NB E * BSIZE E \<le> p \<or> slot E s i (p div BSIZE E) = 0")
    case True
    then have "p div BSIZE E \<noteq> k" using assms(3,4) L(4) by (auto simp: div_less_iff_less_mult)
    with True show ?thesis by (auto simp: content_def slots)
  next
    case False
    then have j: "p div BSIZE E < NB E" using L(4) by (simp add: div_less_iff_less_mult)
    have "slot E s i (p div BSIZE E) = slot E s i k \<longleftrightarrow> p div BSIZE E = k"
      using S(5) [of "p div BSIZE E" k] j assms(3) False by auto
    with False show ?thesis by (simp add: content_def slots u(2) rd)
  qed
qed

section \<open>Reading and writing\<close>

definition holes :: "'d env \<Rightarrow> 'd fs \<Rightarrow> nat \<Rightarrow> nat \<Rightarrow> nat \<Rightarrow> bool" where
  "holes E s i ofs n \<longleftrightarrow> (\<exists>p. ofs \<le> p \<and> p < ofs + n \<and> slot E s i (p div BSIZE E) = 0)"

lemma chunk:
  assumes "fs_laws E s" "ofs < NB E * BSIZE E" "m \<le> BSIZE E - ofs mod BSIZE E" "slot E s i (ofs div BSIZE E) \<noteq> 0"
  shows "seg (rd E (disk s) (i_dev (icache s ! i)) (slot E s i (ofs div BSIZE E))) (ofs mod BSIZE E) (ofs mod BSIZE E + m) =
    map (content E s i) [ofs..<ofs + m]"
proof (rule nth_equalityI)
  note L = fs_lawsD [OF assms(1)]
  have m: "ofs mod BSIZE E + m \<le> BSIZE E" using assms(3) mod_less_divisor [OF L(4), of ofs] by linarith
  then show "length (seg (rd E (disk s) (i_dev (icache s ! i)) (slot E s i (ofs div BSIZE E))) (ofs mod BSIZE E) (ofs mod BSIZE E + m)) =
    length (map (content E s i) [ofs..<ofs + m])" using L(1) by (simp add: seg_def)
  fix j assume "j < length (seg (rd E (disk s) (i_dev (icache s ! i)) (slot E s i (ofs div BSIZE E))) (ofs mod BSIZE E) (ofs mod BSIZE E + m))"
  then have j: "j < m" using L(1) m by (simp add: seg_def)
  note B = same_block [of ofs "ofs + j" m "BSIZE E", OF le_add1 _ assms(3) L(4)]
  have "ofs + j < NB E * BSIZE E"
    using B(1) j block_in_range [OF assms(2) L(4)] div_less_iff_less_mult [OF L(4), of "ofs + j" "NB E"] by simp
  then show "seg (rd E (disk s) (i_dev (icache s ! i)) (slot E s i (ofs div BSIZE E))) (ofs mod BSIZE E) (ofs mod BSIZE E + m) ! j =
    map (content E s i) [ofs..<ofs + m] ! j"
    using B j m L(1) assms(4) by (simp add: content_def seg_def Let_def)
qed

text \<open>A call on the file fills holes, it makes none.\<close>

lemma holes_kept:
  assumes "fs_laws E s" "only_file E i s t" "holes E t i (ofs + m) (n - m)" "m \<le> n" "ofs + n \<le> NB E * BSIZE E"
  shows "holes E s i ofs n"
proof -
  from assms(3) obtain p where p: "ofs + m \<le> p" "p < ofs + m + (n - m)" "slot E t i (p div BSIZE E) = 0" by (auto simp: holes_def)
  have "p < NB E * BSIZE E" using p(2) assms(4,5) by linarith
  from block_in_range [OF this fs_lawsD(4) [OF assms(1)]] have "p div BSIZE E \<le> NB E" by simp
  with only_fileD(8) [OF assms(2)] p(3) have "slot E s i (p div BSIZE E) = 0" by metis
  moreover have "ofs \<le> p" "p < ofs + n" using p(1,2) assms(4) by linarith+
  ultimately show ?thesis unfolding holes_def by blast
qed

lemma readi_loop_reads:
  assumes "fs_laws E s" "file_ok E s i" "ofs + n \<le> NB E * BSIZE E" "n \<le> fuel"
  shows "readi_loop fuel E i ofs n s = Inl no_blocks \<and> holes E s i ofs n \<or>
    (\<exists>u. readi_loop fuel E i ofs n s = Inr (map (content E s i) [ofs..<ofs + n], u) \<and> only_file E i s u \<and>
      content E u i = content E s i \<and> (\<not> holes E s i ofs n \<longrightarrow> u = s))"
  using assms
proof (induction fuel arbitrary: ofs n s)
  case 0
  then show ?case using only_file_refl by simp
next
  case (Suc fuel)
  show ?case
  proof (cases n)
    case 0
    with Suc.prems only_file_refl show ?thesis by simp
  next
    case n: (Suc n')
    let ?bn = "ofs div BSIZE E" and ?m = "min n (BSIZE E - ofs mod BSIZE E)"
    note L = fs_lawsD [OF Suc.prems(1)]
    have ofs: "ofs < NB E * BSIZE E" using Suc.prems(3) n by simp
    note bn = block_in_range [OF ofs L(4)]
    have m: "0 < ?m" "?m \<le> BSIZE E - ofs mod BSIZE E" "?m \<le> n" using n L(4) by simp_all
    have first: "slot E s i ?bn = 0 \<Longrightarrow> holes E s i ofs n" using n by (auto simp: holes_def)
    have run: "readi_loop (Suc fuel) E i ofs n s = fbind (bmap E i ?bn) (\<lambda>b. fbind (bread E (i_dev (icache s ! i)) b) (\<lambda>data.
        fbind (readi_loop fuel E i (ofs + ?m) (n - ?m)) (\<lambda>rest. fret (seg data (ofs mod BSIZE E) (ofs mod BSIZE E + ?m) @ rest)))) s"
      by (simp add: n Let_def)
    from bmap_gives [OF Suc.prems(1,2) bn] show ?thesis
    proof (elim disjE exE conjE)
      assume no: "bmap E i ?bn s = Inl no_blocks"
      have "slot E s i ?bn = 0"
      proof (rule ccontr)
        assume "slot E s i ?bn \<noteq> 0"
        from bmap_taken [OF bn this] no show False by simp
      qed
      with no first show ?thesis by (simp add: run fbind_def)
    next
      fix t assume t: "bmap E i ?bn s = Inr (slot E t i ?bn, t)" "slot E t i ?bn \<noteq> 0" "only_file E i s t" "content E t i = content E s i"
      note tl = only_file_laws [OF t(3) Suc.prems(1)] and tok = only_fileD(1) [OF t(3)]
      have same: "t = s" if "\<not> holes E s i ofs n" using bmap_taken [OF bn, of s i] first that t(1) by fastforce
      have fits: "ofs + ?m + (n - ?m) \<le> NB E * BSIZE E" "n - ?m \<le> fuel" using Suc.prems(3,4) m by linarith+
      let ?x = "map (content E s i) [ofs..<ofs + ?m]" and ?r = "readi_loop fuel E i (ofs + ?m) (n - ?m) t"
      have here: "readi_loop (Suc fuel) E i ofs n s = (case ?r of Inl e \<Rightarrow> Inl e | Inr (rest, u) \<Rightarrow> Inr (?x @ rest, u))"
        using t(1) chunk [OF tl ofs m(2) t(2)]
        by (simp add: run fbind_def only_file_fields [OF t(3)] t(4) split: sum.split)
      have more: "?x @ map (content E s i) [ofs + ?m..<ofs + ?m + (n - ?m)] = map (content E s i) [ofs..<ofs + n]"
        using m(3) upt_add_eq_append [of ofs "ofs + ?m" "n - ?m"] by simp
      note rest = holes_kept [OF Suc.prems(1) t(3) _ m(3) Suc.prems(3)]
      from Suc.IH [OF tl tok fits] show ?thesis
      proof (elim disjE exE conjE)
        assume "?r = Inl no_blocks" "holes E t i (ofs + ?m) (n - ?m)"
        with here rest show ?thesis by simp
      next
        fix u assume u: "?r = Inr (map (content E t i) [ofs + ?m..<ofs + ?m + (n - ?m)], u)" "only_file E i t u"
          "content E u i = content E t i" "\<not> holes E t i (ofs + ?m) (n - ?m) \<longrightarrow> u = t"
        have "readi_loop (Suc fuel) E i ofs n s = Inr (map (content E s i) [ofs..<ofs + n], u)"
          unfolding here u(1) t(4) using more by simp
        then show ?thesis using only_file_trans [OF t(3) u(2)] u(3,4) t(4) same rest by metis
      qed
    qed
  qed
qed

text \<open>A round of \<open>writei\<close>: the block with \<open>ys\<close> in it.\<close>

lemma write_chunk:
  assumes "fs_laws E s" "file_ok E s i" "ofs < NB E * BSIZE E" "length ys \<le> BSIZE E - ofs mod BSIZE E"
    and slot: "slot E s i (ofs div BSIZE E) \<noteq> 0"
    and x: "x = take (ofs mod BSIZE E) data @ ys @ drop (ofs mod BSIZE E + length ys) data"
      "data = rd E (disk s) (i_dev (icache s ! i)) (slot E s i (ofs div BSIZE E))"
  shows "only_file E i s (write_block E i (ofs div BSIZE E) x s)"
    "content E (write_block E i (ofs div BSIZE E) x s) i = overwrite (content E s i) ofs ys"
proof -
  note L = fs_lawsD [OF assms(1)] and bn = block_in_range [OF assms(3) fs_lawsD(4) [OF assms(1)]]
  have len: "length data = BSIZE E" using L(1) x(2) by simp
  have m: "ofs mod BSIZE E + length ys \<le> BSIZE E" using assms(4) mod_less_divisor [OF L(4), of ofs] by linarith
  have "length x = BSIZE E" using len m by (simp add: x(1))
  note W = write_block_content [OF assms(1,2) bn slot this]
  show "only_file E i s (write_block E i (ofs div BSIZE E) x s)" by (rule W)
  show "content E (write_block E i (ofs div BSIZE E) x s) i = overwrite (content E s i) ofs ys"
  proof
    fix p
    show "content E (write_block E i (ofs div BSIZE E) x s) i p = overwrite (content E s i) ofs ys p"
    proof (cases "ofs \<le> p \<and> p < ofs + length ys")
      case True
      note B = same_block [OF conjunct1 [OF True] conjunct2 [OF True] assms(4) L(4)]
      have "x ! (p mod BSIZE E) = ys ! (p - ofs)"
        using True m len nth_append_length_plus [of "take (ofs mod BSIZE E) data" "ys @ drop (ofs mod BSIZE E + length ys) data" "p - ofs"]
        unfolding B(2) x(1) by (simp only: length_take min_absorb2) (auto simp: nth_append)
      with True B(1) show ?thesis by (simp add: W(2) overwrite_def)
    next
      case False
      show ?thesis
      proof (cases "p div BSIZE E = ofs div BSIZE E")
        case True
        have r: "p mod BSIZE E < ofs mod BSIZE E \<or> ofs mod BSIZE E + length ys \<le> p mod BSIZE E"
          using False div_mult_mod_eq [of p "BSIZE E", unfolded True] div_mult_mod_eq [of ofs "BSIZE E"] by linarith
        have "p < NB E * BSIZE E" using True bn div_less_iff_less_mult [OF L(4), of p "NB E"] by simp
        then have "content E s i p = data ! (p mod BSIZE E)" using slot True by (simp add: content_def x(2))
        moreover have "x ! (p mod BSIZE E) = data ! (p mod BSIZE E)"
          using r len m mod_less_divisor [OF L(4), of p] by (auto simp: x(1) nth_append)
        ultimately show ?thesis using False True by (auto simp: W(2) overwrite_def)
      next
        case F: False
        with False show ?thesis by (auto simp: W(2) overwrite_def)
      qed
    qed
  qed
qed

lemma writei_loop_writes:
  assumes "fs_laws E s" "file_ok E s i" "ofs + length xs \<le> NB E * BSIZE E" "length xs \<le> fuel"
  shows "writei_loop fuel E i ofs xs s = Inl no_blocks \<and> holes E s i ofs (length xs) \<or>
    (\<exists>u. writei_loop fuel E i ofs xs s = Inr ((), u) \<and> only_file E i s u \<and>
      content E u i = overwrite (content E s i) ofs xs \<and> \<not> holes E u i ofs (length xs))"
  using assms
proof (induction fuel arbitrary: ofs xs s)
  case 0
  then show ?case using only_file_refl by (simp add: holes_def)
next
  case (Suc fuel)
  show ?case
  proof (cases xs)
    case Nil
    with Suc.prems only_file_refl show ?thesis by (simp add: holes_def)
  next
    case xs: (Cons y ys')
    let ?B = "BSIZE E"
    let ?bn = "ofs div ?B" and ?m = "min (length xs) (?B - ofs mod ?B)"
    let ?ys = "take ?m xs" and ?zs = "drop ?m xs"
    note L = fs_lawsD [OF Suc.prems(1)]
    have ofs: "ofs < NB E * ?B" using Suc.prems(3) xs by simp
    note bn = block_in_range [OF ofs L(4)]
    have m: "0 < ?m" "?m \<le> ?B - ofs mod ?B" "?m \<le> length xs" using xs L(4) by simp_all
    then have ly: "length ?ys = ?m" by simp
    then have lm: "length ?ys \<le> ?B - ofs mod ?B" using m(2) by linarith
    have run: "writei_loop (Suc fuel) E i ofs xs s = fbind (bmap E i ?bn) (\<lambda>b. fbind (bread E (i_dev (icache s ! i)) b) (\<lambda>data.
        fbind (log_write E (i_dev (icache s ! i)) b (take (ofs mod ?B) data @ ?ys @ drop (ofs mod ?B + ?m) data)) (\<lambda>_.
          writei_loop fuel E i (ofs + ?m) ?zs))) s"
      by (simp add: xs Let_def)
    from bmap_gives [OF Suc.prems(1,2) bn] show ?thesis
    proof (elim disjE exE conjE)
      fix t assume t: "bmap E i ?bn s = Inr (slot E t i ?bn, t)" "slot E t i ?bn \<noteq> 0" "only_file E i s t" "content E t i = content E s i"
      define data where "data = rd E (disk t) (i_dev (icache t ! i)) (slot E t i ?bn)"
      define x where "x = take (ofs mod ?B) data @ ?ys @ drop (ofs mod ?B + length ?ys) data"
      note tl = only_file_laws [OF t(3) Suc.prems(1)] and tok = only_fileD(1) [OF t(3)]
      note W = write_chunk [OF tl tok ofs lm t(2) x_def data_def]
      let ?v = "write_block E i ?bn x t"
      note vl = only_file_laws [OF W(1) tl] and vok = only_fileD(1) [OF W(1)]
      have here: "writei_loop (Suc fuel) E i ofs xs s = writei_loop fuel E i (ofs + ?m) ?zs ?v"
        unfolding run using t(1)
        by (simp add: fbind_def only_file_fields [OF t(3)] write_block_def x_def data_def ly)
      have fits: "ofs + ?m + length ?zs \<le> NB E * ?B" "length ?zs \<le> fuel" using Suc.prems(3,4) m by (simp_all only: length_drop) linarith+
      from Suc.IH [OF vl vok fits] show ?thesis
      proof (elim disjE exE conjE)
        fix u assume u: "writei_loop fuel E i (ofs + ?m) ?zs ?v = Inr ((), u)" "only_file E i ?v u"
          "content E u i = overwrite (content E ?v i) (ofs + ?m) ?zs" "\<not> holes E u i (ofs + ?m) (length ?zs)"
        have "content E u i = overwrite (content E s i) ofs xs"
          using overwrite_append [of "content E s i" ofs ?ys ?zs] by (simp add: u(3) W(2) t(4) ly)
        moreover have "\<not> holes E u i ofs (length xs)"
        proof
          assume "holes E u i ofs (length xs)"
          then obtain p where p: "ofs \<le> p" "p < ofs + length xs" "slot E u i (p div ?B) = 0" by (auto simp: holes_def)
          have "ofs + ?m \<le> p \<Longrightarrow> holes E u i (ofs + ?m) (length ?zs)"
            unfolding holes_def using p by (intro exI [of _ p]) auto
          with u(4) have "p < ofs + ?m" by linarith
          from same_block(1) [OF p(1) this m(2) L(4)] p(3) have z: "slot E u i ?bn = 0" by simp
          have "slot E t i ?bn = slot E ?v i ?bn" using only_fileD(8) [OF W(1)] bn t(2) by simp
          with t(2) only_fileD(8) [OF u(2)] bn z show False by simp
        qed
        ultimately show ?thesis
          using here u(1) only_file_trans [OF only_file_trans [OF t(3) W(1)] u(2)] by auto
      next
        assume no: "writei_loop fuel E i (ofs + ?m) ?zs ?v = Inl no_blocks" "holes E ?v i (ofs + ?m) (length ?zs)"
        have "holes E s i ofs (length xs)"
          using holes_kept [OF Suc.prems(1) only_file_trans [OF t(3) W(1)] _ m(3) Suc.prems(3)] no(2) by simp
        with here no(1) show ?thesis by simp
      qed
    next
      assume "bmap E i ?bn s = Inl no_blocks"
      moreover have "slot E s i ?bn = 0" using bmap_taken [OF bn, of s i] calculation by fastforce
      then have "holes E s i ofs (length xs)" using xs by (auto simp: holes_def)
      ultimately show ?thesis by (simp add: run fbind_def)
    qed
  qed
qed

text \<open>\<open>readi\<close> and \<open>writei\<close> with the checks passed; a longer file is recorded in the inode and in its block.\<close>

definition file_range :: "'d env \<Rightarrow> 'd fs \<Rightarrow> nat \<Rightarrow> u32 \<Rightarrow> nat \<Rightarrow> bool" where
  "file_range E s i ofs n \<longleftrightarrow> itype (icache s ! i) \<noteq> T_DEV \<and> ofs \<le> isize (icache s ! i) \<and>
     unat ofs + n \<le> NB E * BSIZE E \<and> NB E * BSIZE E < 2 ^ 31"

definition resized :: "'d env \<Rightarrow> nat \<Rightarrow> u32 \<Rightarrow> 'd fs \<Rightarrow> 'd fs" where
  "resized E i m s =
     (let ip = (icache s ! i)\<lparr>isize := m\<rparr>; b = iblock E s i in
      s\<lparr>icache := (icache s)[i := ip],
        disk := wr E (disk s) (i_dev ip) b (put_dinode E (rd E (disk s) (i_dev ip) b) (inum ip mod IPB E)
          \<lparr>d_type = itype ip, d_major = major ip, d_minor = minor ip, d_nlink = nlink ip, d_size = isize ip, d_addrs = addrs ip\<rparr>)\<rparr>)"

lemma resized_ok:
  assumes "fs_laws E s" "file_ok E s i"
  shows "file_ok E (resized E i m s) i" "content E (resized E i m s) i = content E s i" "fs_laws E (resized E i m s)"
    "k \<le> NB E \<Longrightarrow> slot E (resized E i m s) i k = slot E s i k"
    "icache (resized E i m s) = (icache s)[i := (icache s ! i)\<lparr>isize := m\<rparr>]"
    "d \<noteq> i_dev (icache s ! i) \<or> c \<noteq> iblock E s i \<Longrightarrow> rd E (disk (resized E i m s)) d c = rd E (disk s) d c"
proof -
  let ?u = "resized E i m s"
  note S = file_okD [OF assms(2)] and L = fs_lawsD [OF assms(1)]
  have u: "sb ?u = sb s" "icache ?u = (icache s)[i := (icache s ! i)\<lparr>isize := m\<rparr>]" by (simp_all add: resized_def Let_def)
  have ip: "icache ?u ! i = (icache s ! i)\<lparr>isize := m\<rparr>" "length (icache ?u) = length (icache s)" using S(1) by (simp_all add: u)
  have rd: "rd E (disk ?u) d c = rd E (disk s) d c" if "d \<noteq> i_dev (icache s ! i) \<or> c \<noteq> iblock E s i" for d c
    using that L(1) addr_lawsD(4) [OF L(3)] by (auto simp: resized_def Let_def)
  have rdo: "rd E (disk ?u) (i_dev (icache s ! i)) c = rd E (disk s) (i_dev (icache s ! i)) c" if "c \<in> owned E s i" for c
    using rd [of _ c] S(8) that by auto
  have ind: "rd E (disk ?u) (i_dev (icache s ! i)) (addrs (icache s ! i) ! NDIRECT E) = rd E (disk s) (i_dev (icache s ! i)) (addrs (icache s ! i) ! NDIRECT E)"
    if "addrs (icache s ! i) ! NDIRECT E \<noteq> 0" using rdo ownedI [of "NB E" E s i] that by (simp add: slot_NB)
  then have slots: "slot E ?u i k = slot E s i k" for k by (simp add: slot_def Let_def ip)
  have own: "owned E ?u i = owned E s i" by (simp add: owned_def slots)
  have free: "free_blocks E d ?u = free_blocks E d s" for d
    using S(10) by (intro free_blocks_cong) (auto simp: u(1) intro!: rd)
  have used: "bitmap_used E (i_dev (icache s ! i)) ?u" using S(3) by (simp add: bitmap_used_def free u(1))
  show "file_ok E ?u i"
    using assms(2) used unfolding file_ok_def own free slots is_bitmap_sb [OF u(1)] ip u(1) by simp
  show "content E ?u i = content E s i"
  proof
    fix p
    show "content E ?u i p = content E s i p"
    proof (cases "NB E * BSIZE E \<le> p \<or> slot E s i (p div BSIZE E) = 0")
      case False
      then have "p div BSIZE E < NB E" using L(4) by (simp add: div_less_iff_less_mult)
      with False data_slot(1) [OF assms(2) this] show ?thesis by (simp add: content_def slots ip rdo)
    qed (auto simp: content_def slots)
  qed
  show "k \<le> NB E \<Longrightarrow> slot E ?u i k = slot E s i k" by (rule slots)
  show "fs_laws E ?u" using assms(1) by (simp add: fs_laws_def u)
  show "icache ?u = (icache s)[i := (icache s ! i)\<lparr>isize := m\<rparr>]" by (rule u)
  show "d \<noteq> i_dev (icache s ! i) \<or> c \<noteq> iblock E s i \<Longrightarrow> rd E (disk ?u) d c = rd E (disk s) d c" by (rule rd)
qed

lemma unat_range:
  assumes "file_range E s i ofs n"
  shows "unat (ofs + of_nat n) = unat ofs + n" "unat (of_nat n :: u32) = n" "sint (of_nat n :: u32) = int n"
    "\<not> ofs + of_nat n < ofs" "unat ofs + n < 2 ^ 31"
proof -
  have lt: "unat ofs + n < 2 ^ 31" using assms by (simp add: file_range_def)
  then show n: "unat (of_nat n :: u32) = n" "unat (ofs + of_nat n) = unat ofs + n" "unat ofs + n < 2 ^ 31"
    by (simp_all add: unat_of_nat take_bit_nat_eq_self unat_word_ariths)
  then show "\<not> ofs + of_nat n < ofs" by (simp add: word_less_nat_alt)
  have "sint (of_nat n :: u32) = signed_take_bit 31 (int n)" by (simp add: signed_of_nat)
  with lt show "sint (of_nat n :: u32) = int n" by (simp add: signed_take_bit_int_eq_self_iff)
qed

lemma writei_result:
  assumes laws: "fs_laws E s" and ok: "file_ok E s i" and range: "file_range E s i ofs (length src)"
  shows "writei E i src ofs s = Inl no_blocks \<and> holes E s i (unat ofs) (length src) \<or>
    (\<exists>t. only_file E i s t \<and> content E t i = overwrite (content E s i) (unat ofs) src \<and> \<not> holes E t i (unat ofs) (length src) \<and>
      writei E i src ofs s = Inr (int (length src),
        if isize (icache s ! i) < ofs + of_nat (length src) then resized E i (ofs + of_nat (length src)) t else t))"
proof -
  let ?ip = "icache s ! i" and ?n = "of_nat (length src) :: u32"
  note R = range [unfolded file_range_def] and U = unat_range [OF range] and L = fs_lawsD [OF laws]
  have "unat (of_nat (MAXFILE E * BSIZE E) :: u32) = NB E * BSIZE E"
    using R addr_lawsD(5) [OF L(3)] by (simp only: unat_of_nat take_bit_nat_eq_self_iff) simp
  then have max: "\<not> of_nat (MAXFILE E * BSIZE E) < ofs + ?n" using U(1) R by (simp only: word_less_nat_alt) simp
  have pos: "isize ?ip < ofs + ?n \<Longrightarrow> 0 < ?n"
    using R U(1,2) unfolding word_less_nat_alt word_le_nat_alt by (cases src) simp_all
  have run: "writei E i src ofs s = fbind (writei_loop (length src) E i (unat ofs) src) (\<lambda>_. fbind
      (if isize ?ip < ofs + ?n then fbind (set_ino i (\<lambda>ip. ip\<lparr>isize := ofs + ?n\<rparr>)) (\<lambda>_. iupdate E i) else fret ()) (\<lambda>_. fret (int (length src)))) s"
    using R U(4) max pos by (auto simp: writei_def Let_def U(3) not_less)
  from writei_loop_writes [OF laws ok conjunct1 [OF conjunct2 [OF conjunct2 [OF R]]] order_refl] show ?thesis
  proof (elim disjE exE conjE)
    fix t assume t: "writei_loop (length src) E i (unat ofs) src s = Inr ((), t)" "only_file E i s t"
      "content E t i = overwrite (content E s i) (unat ofs) src" "\<not> holes E t i (unat ofs) (length src)"
    have i: "i < length (icache t)" using file_okD(1) [OF only_fileD(1) [OF t(2)]] .
    have "writei E i src ofs s = Inr (int (length src), if isize ?ip < ofs + ?n then resized E i (ofs + ?n) t else t)"
      using t(1) i by (simp add: run fbind_def iupdate_def resized_def Let_def)
    with t(2-4) show ?thesis by blast
  qed (simp add: run fbind_def)
qed

lemma readi_result:
  assumes "itype (icache s ! i) \<noteq> T_DEV" "unat ofs + n \<le> unat (isize (icache s ! i))" "unat ofs + n < 2 ^ 31"
  shows "readi E i ofs (of_nat n) s = fbind (readi_loop n E i (unat ofs) n) (\<lambda>bytes. fret (int n, bytes)) s"
proof -
  have n: "unat (of_nat n :: u32) = n" "unat (ofs + of_nat n) = unat ofs + n" "sint (of_nat n :: u32) = int n"
    using assms(3) unat_range(1-3) [of _ "s" i ofs n]
    by (simp_all add: unat_of_nat take_bit_nat_eq_self unat_word_ariths signed_of_nat signed_take_bit_int_eq_self_iff)
  then have "\<not> isize (icache s ! i) < ofs" "\<not> ofs + of_nat n < ofs" "\<not> isize (icache s ! i) < ofs + of_nat n"
    using assms(2) by (simp_all add: word_less_nat_alt)
  with assms(1) n show ?thesis by (simp add: readi_def Let_def)
qed

text \<open>The state a write leaves, in terms of the one it starts in.\<close>

lemma writei_effect:
  assumes "fs_laws E s" "file_ok E s i" "file_range E s i ofs (length src)"
  shows "writei E i src ofs s = Inl no_blocks \<and> holes E s i (unat ofs) (length src) \<or>
    (\<exists>u ad. writei E i src ofs s = Inr (int (length src), u) \<and> fs_laws E u \<and> file_ok E u i \<and>
      content E u i = overwrite (content E s i) (unat ofs) src \<and> \<not> holes E u i (unat ofs) (length src) \<and>
      (\<forall>k \<le> NB E. slot E s i k \<noteq> 0 \<longrightarrow> slot E u i k = slot E s i k) \<and>
      icache u ! i = (icache s ! i)\<lparr>addrs := ad, isize := max (isize (icache s ! i)) (ofs + of_nat (length src))\<rparr> \<and> sb u = sb s)"
  using writei_result [OF assms]
proof (elim disjE exE conjE)
  let ?n = "of_nat (length src) :: u32" and ?ip = "icache s ! i"
  note R = assms(3) [unfolded file_range_def]
  fix t assume t: "only_file E i s t" "content E t i = overwrite (content E s i) (unat ofs) src" "\<not> holes E t i (unat ofs) (length src)"
    "writei E i src ofs s = Inr (int (length src), if isize ?ip < ofs + ?n then resized E i (ofs + ?n) t else t)"
  define u where "u = (if isize ?ip < ofs + ?n then resized E i (ofs + ?n) t else t)"
  note tl = only_file_laws [OF t(1) assms(1)] and tok = only_fileD(1) [OF t(1)]
  note V = resized_ok [OF tl tok]
  obtain ad where ad: "icache t ! i = ?ip\<lparr>addrs := ad\<rparr>" using only_fileD(7) [OF t(1)] by blast
  have "file_ok E u i" "content E u i = content E t i" "fs_laws E u" using V tl tok by (simp_all add: u_def)
  moreover have "icache u ! i = ?ip\<lparr>addrs := ad, isize := max (isize ?ip) (ofs + ?n)\<rparr>"
    using file_okD(1) [OF tok] ad V(5) by (auto simp: u_def max_def not_less)
  moreover have slots: "slot E u i k = slot E t i k" if "k \<le> NB E" for k using V(4) [OF that] by (simp add: u_def)
  moreover have "p div BSIZE E \<le> NB E" if "p < unat ofs + length src" for p
    using block_in_range [of p "NB E" "BSIZE E"] that R fs_lawsD(4) [OF assms(1)] by fastforce
  then have "\<not> holes E u i (unat ofs) (length src)" using t(3) slots by (auto simp: holes_def)
  moreover have "slot E u i k = slot E s i k" if "k \<le> NB E" "slot E s i k \<noteq> 0" for k
    using slots [OF that(1)] only_fileD(8) [OF t(1) that] by simp
  moreover have "sb u = sb s" using only_fileD(2) [OF t(1)] by (simp add: u_def resized_def Let_def)
  ultimately show ?thesis using t(2,4) by (intro disjI2 exI [of _ u] exI [of _ ad]) (simp add: u_def)
qed simp

lemma readi_full:
  assumes "fs_laws E s" "file_ok E s i" "itype (icache s ! i) \<noteq> T_DEV" "NB E * BSIZE E < 2 ^ 31" "\<not> holes E s i (unat ofs) n"
    and "unat ofs + n \<le> unat (isize (icache s ! i))" "unat ofs + n \<le> NB E * BSIZE E"
  shows "readi E i ofs (of_nat n) s = Inr ((int n, map (content E s i) [unat ofs..<unat ofs + n]), s)"
proof -
  have "readi_loop n E i (unat ofs) n s = Inr (map (content E s i) [unat ofs..<unat ofs + n], s)"
    using readi_loop_reads [OF assms(1,2,7) order_refl] assms(5) by auto
  with readi_result [OF assms(3,6), of E] assms(4,7) show ?thesis by (simp add: fbind_def)
qed

text \<open>C3. What \<open>writei\<close> has written, \<open>readi\<close> reads: on a file whose blocks are its own, a write of a list of bytes
  at an offset inside the file runs out of free blocks, with a hole to fill, or returns the number of bytes, replaces exactly those bytes of
  the content, extends the size to the end of the write at most, and a read of the same range then returns the list and
  changes nothing, whatever direct and indirect blocks the write had to allocate.\<close>

theorem writei_readi:
  assumes "fs_laws E s" "file_ok E s i" "file_range E s i ofs (length src)"
  shows "case writei E i src ofs s of
      Inl e \<Rightarrow> e = Panics ''balloc: out of blocks'' \<and> holes E s i (unat ofs) (length src)
    | Inr (r, t) \<Rightarrow> r = int (length src) \<and> content E t i = overwrite (content E s i) (unat ofs) src \<and> file_ok E t i \<and>
        isize (icache t ! i) = max (isize (icache s ! i)) (ofs + of_nat (length src)) \<and>
        readi E i ofs (of_nat (length src)) t = Inr ((r, src), t)"
  using writei_effect [OF assms]
proof (elim disjE exE conjE)
  fix u ad assume u: "writei E i src ofs s = Inr (int (length src), u)" "fs_laws E u" "file_ok E u i"
    "content E u i = overwrite (content E s i) (unat ofs) src" "\<not> holes E u i (unat ofs) (length src)"
    "icache u ! i = (icache s ! i)\<lparr>addrs := ad, isize := max (isize (icache s ! i)) (ofs + of_nat (length src))\<rparr>"
  note R = assms(3) [unfolded file_range_def]
  have "unat ofs + length src \<le> unat (isize (icache u ! i))"
    using unat_range(1) [OF assms(3)] by (simp add: u(6) max_def word_le_nat_alt)
  from readi_full [OF u(2,3) _ _ u(5) this] R u show ?thesis by (simp add: map_overwrite)
qed simp

text \<open>C13. \<open>readi\<close> of a file refines taking a segment of its content: it fails with -1 beyond the end of the file and
  where the range wraps, otherwise it returns the bytes up to the end of the file and their number; it runs out of free
  blocks only where the range has a hole, and a block it gives to a hole changes no byte of the content.\<close>

theorem readi_reads:
  assumes "fs_laws E s" "file_ok E s i" "itype (icache s ! i) \<noteq> T_DEV" "unat (isize (icache s ! i)) \<le> NB E * BSIZE E"
    "NB E * BSIZE E < 2 ^ 31"
  shows "case readi E i ofs n s of
      Inl e \<Rightarrow> e = Panics ''balloc: out of blocks'' \<and> holes E s i (unat ofs) (unat (isize (icache s ! i)) - unat ofs)
    | Inr ((r, bytes), t) \<Rightarrow> content E t i = content E s i \<and> file_ok E t i \<and>
        (if isize (icache s ! i) < ofs \<or> ofs + n < ofs then (r, bytes) = (- 1, [])
         else r = int (length bytes) \<and>
           bytes = map (content E s i) [unat ofs..<min (unat ofs + unat n) (unat (isize (icache s ! i)))])"
proof (cases "isize (icache s ! i) < ofs \<or> ofs + n < ofs")
  case True
  with assms(2,3) show ?thesis by (auto simp: readi_def Let_def)
next
  case False
  let ?size = "isize (icache s ! i)"
  define k where "k = (if ?size < ofs + n then ?size - ofs else n)"
  have le: "unat ofs \<le> unat ?size" "unat (?size - ofs) = unat ?size - unat ofs" "unat (ofs + n) = unat ofs + unat n"
    using False unat_plus_simple [of ofs n] by (simp_all add: word_le_nat_alt [symmetric] not_less unat_sub)
  then have k: "unat k = min (unat ofs + unat n) (unat ?size) - unat ofs" by (auto simp: k_def word_less_nat_alt min_def)
  then have to_end: "unat ofs + unat k = min (unat ofs + unat n) (unat ?size)" using le(1) by simp
  have fits: "unat ofs + unat k \<le> NB E * BSIZE E" using to_end assms(4) by simp
  have sk: "sint k = int (unat k)" using unat_range(3) [of E s i 0 "unat k"] fits assms(3,5) by (simp add: file_range_def)
  have run: "readi E i ofs n s = fbind (readi_loop (unat k) E i (unat ofs) (unat k)) (\<lambda>bytes. fret (int (unat k), bytes)) s"
    using False assms(3) by (simp add: readi_def Let_def k_def [symmetric] sk)
  from readi_loop_reads [OF assms(1,2) fits order_refl] show ?thesis
  proof (elim disjE exE conjE)
    assume no: "readi_loop (unat k) E i (unat ofs) (unat k) s = Inl no_blocks" "holes E s i (unat ofs) (unat k)"
    have "holes E s i (unat ofs) (unat ?size - unat ofs)"
      using no(2) to_end le(1) by (auto simp: holes_def)
    with no(1) show ?thesis by (simp add: run fbind_def)
  next
    fix u assume "readi_loop (unat k) E i (unat ofs) (unat k) s = Inr (map (content E s i) [unat ofs..<unat ofs + unat k], u)"
      "only_file E i s u" "content E u i = content E s i"
    with only_fileD(1) [of E i s u] False k le(1) show ?thesis by (simp add: run fbind_def to_end [symmetric])
  qed
qed

text \<open>Two files apart: another inode, and no block of the second is a block of the first or its inode block.\<close>

definition apart :: "'d env \<Rightarrow> 'd fs \<Rightarrow> nat \<Rightarrow> nat \<Rightarrow> bool" where
  "apart E s i j \<longleftrightarrow> i \<noteq> j \<and>
     (i_dev (icache s ! j) = i_dev (icache s ! i) \<longrightarrow> owned E s j \<inter> owned E s i = {} \<and> iblock E s i \<notin> owned E s j)"

lemma content_cong:
  assumes "icache u ! j = icache s ! j" "0 < BSIZE E"
    "\<And>c. c \<in> owned E s j \<Longrightarrow> rd E (disk u) (i_dev (icache s ! j)) c = rd E (disk s) (i_dev (icache s ! j)) c"
  shows "content E u j = content E s j"
proof -
  have "rd E (disk u) (i_dev (icache s ! j)) (addrs (icache s ! j) ! NDIRECT E) = rd E (disk s) (i_dev (icache s ! j)) (addrs (icache s ! j) ! NDIRECT E)"
    if "addrs (icache s ! j) ! NDIRECT E \<noteq> 0" using assms(3) ownedI [of "NB E" E s j] that by (simp add: slot_NB)
  then have slots: "slot E u j k = slot E s j k" for k by (simp add: slot_def Let_def assms(1))
  show ?thesis
  proof
    fix p
    show "content E u j p = content E s j p"
    proof (cases "NB E * BSIZE E \<le> p \<or> slot E s j (p div BSIZE E) = 0")
      case False
      then have "p div BSIZE E \<le> NB E" using block_in_range [of p "NB E" "BSIZE E"] assms(2) by simp
      with False ownedI [OF this, of s j] show ?thesis by (simp add: content_def slots assms(1,3))
    qed (auto simp: content_def slots)
  qed
qed

text \<open>C8. A write to one file leaves the content of every other file as it is: a block \<open>writei\<close> allocates or writes
  belongs to no other file, whichever way the two files share a device.\<close>

theorem writei_keeps_others:
  assumes "fs_laws E s" "file_ok E s i" "file_range E s i ofs (length src)" "file_ok E s j" "apart E s i j"
  shows "case writei E i src ofs s of
      Inl e \<Rightarrow> e = Panics ''balloc: out of blocks''
    | Inr (r, t) \<Rightarrow> content E t j = content E s j \<and> icache t ! j = icache s ! j"
  using writei_result [OF assms(1-3)]
proof (elim disjE exE conjE)
  let ?n = "of_nat (length src) :: u32"
  fix t assume t: "only_file E i s t"
    "writei E i src ofs s = Inr (int (length src), if isize (icache s ! i) < ofs + ?n then resized E i (ofs + ?n) t else t)"
  define u where "u = (if isize (icache s ! i) < ofs + ?n then resized E i (ofs + ?n) t else t)"
  note V = resized_ok [OF only_file_laws [OF t(1) assms(1)] only_fileD(1) [OF t(1)]] and F = only_file_fields [OF t(1)]
  have ij: "j \<noteq> i" using assms(5) by (auto simp: apart_def)
  have ip: "icache u ! j = icache s ! j" using ij V(5) only_fileD(4) [OF t(1) ij] by (simp add: u_def)
  have "rd E (disk u) (i_dev (icache s ! j)) c = rd E (disk s) (i_dev (icache s ! j)) c" if c: "c \<in> owned E s j" for c
  proof -
    have d: "i_dev (icache s ! j) \<noteq> i_dev (icache s ! i) \<or> c \<notin> owned E s i \<union> free_of E s i \<and> \<not> is_bitmap E s c"
      using c assms(5) file_okD(6,7) [OF assms(4) c] by (auto simp: apart_def)
    have "i_dev (icache s ! j) \<noteq> i_dev (icache t ! i) \<or> c \<noteq> iblock E t i"
      using c assms(5) unfolding F only_fileD(2) [OF t(1)] by (auto simp: apart_def)
    from V(6) [OF this] have "rd E (disk u) (i_dev (icache s ! j)) c = rd E (disk t) (i_dev (icache s ! j)) c" by (simp add: u_def)
    with only_fileD(6) [OF t(1) d] show ?thesis by simp
  qed
  from content_cong [OF ip fs_lawsD(4) [OF assms(1)] this] ip t(2) show ?thesis by (simp add: u_def)
qed simp

section \<open>The hypotheses can hold\<close>

text \<open>A file and a directory of one block each on the disk of the bitmap example.\<close>

definition example_inode :: "nat \<Rightarrow> nat \<Rightarrow> inode" where
  "example_inode k a =
     \<lparr>i_dev = 1, inum = k, iref = 1, ilk = \<lparr>slk = \<lparr>lname = [], locked = False, lcpu = None, pcs = []\<rparr>, slocked = False, sname = [], spid = 0\<rparr>, valid = True, itype = (if k = 2 then 1 else 2), major = 0, minor = 0, nlink = 1,
      isize = 10, addrs = [a, 0, 0]\<rparr>"

definition example_files :: "(nat \<Rightarrow> nat \<Rightarrow> u8 list) fs" where
  "example_files = example_state\<lparr>disk := (\<lambda>dev b. if b = 2 then [0xFF] else []), icache := [example_inode 1 6, example_inode 2 7]\<rparr>"

lemma example_addr_laws: "addr_laws example_env 16"
proof -
  have "unat (of_nat a :: u8) = a" if "a < 16" for a using that by (simp add: unat_of_nat take_bit_nat_eq_self)
  then show ?thesis by (auto simp: addr_laws_def example_env_def NB_def nth_list_update)
qed

lemma example_fs_laws: "fs_laws example_env example_files"
  using example_disk_laws example_bitmap_laws example_addr_laws
  by (simp add: fs_laws_def example_files_def example_state_def)

lemma example_sizes [simp]: "NDIRECT example_env = 2" "NB example_env = 6" "BSIZE example_env = 64" "BPB example_env = 512"
  "BBLOCK example_env b q = bmapstart q + b div 512" "IBLOCK example_env b q = inodestart q + b"
  "sb_size (sb example_files) = 16" "bmapstart (sb example_files) = 2" "inodestart (sb example_files) = 3"
  "icache example_files = [example_inode 1 6, example_inode 2 7]"
  by (simp_all add: example_env_def NB_def example_files_def example_state_def)

lemma example_inode_simps [simp]: "addrs (example_inode k a) = [a, 0, 0]" "i_dev (example_inode k a) = 1"
  "inum (example_inode k a) = k" "isize (example_inode k a) = 10" "itype (example_inode k a) = (if k = 2 then 1 else 2)"
  by (simp_all add: example_inode_def)

lemma example_slots: "slot example_env example_files 0 k = (if k = 0 then 6 else 0)"
  "slot example_env example_files (Suc 0) k = (if k = 0 then 7 else 0)"
  by (cases "k = 0"; cases "k = 1"; simp add: slot_def Let_def)+

lemma example_owned: "owned example_env example_files 0 = {6}" "owned example_env example_files (Suc 0) = {7}"
  by (auto simp: owned_def example_slots)

lemma example_free: "b \<in> free_blocks example_env 1 example_files \<Longrightarrow> 8 \<le> b \<and> b < 16"
proof -
  assume b: "b \<in> free_blocks example_env 1 example_files"
  then have lt: "b < 16" by (simp add: free_blocks_def)
  have "rd example_env (disk example_files) 1 2 ! 0 = 0xFF"
    by (simp add: example_env_def example_files_def)
  moreover have "list_all (bit (0xFF :: u8)) [0..<8]" by code_simp
  ultimately have "used example_env 1 example_files b" if "b < 8"
    using that by (simp add: used_def bit_free_bit list_all_iff del: One_nat_def)
  with b lt show ?thesis by (force simp: free_blocks_def)
qed

lemma example_ok: "file_ok example_env example_files 0" "file_ok example_env example_files 1"
proof -
  have free: "b < 8 \<Longrightarrow> b \<notin> free_blocks example_env (Suc 0) example_files" for b using example_free [of b] by auto
  have "is_bitmap example_env example_files b \<longleftrightarrow> b = 2" for b
    by (auto simp: is_bitmap_def intro: exI [of _ 0])
  with free show "file_ok example_env example_files 0" "file_ok example_env example_files 1"
    by (auto simp: file_ok_def bitmap_used_def example_owned example_slots)
qed

lemma example_apart: "apart example_env example_files 0 1"
  by (simp add: apart_def example_owned)

lemma example_range: "file_range example_env example_files 0 3 150" "file_range example_env example_files 0 8 5"
  by (simp_all add: file_range_def T_DEV_def word_le_nat_alt)

theorem writei_readi_witness:
  "case writei example_env 0 [1, 2, 3, 4, 5] 8 example_files of
      Inl e \<Rightarrow> False
    | Inr (r, t) \<Rightarrow> r = 5 \<and> isize (icache t ! 0) = 13 \<and> readi example_env 0 8 5 t = Inr ((5, [1, 2, 3, 4, 5]), t)"
proof -
  have "\<not> holes example_env example_files 0 8 5" by (auto simp: holes_def example_slots)
  moreover have n: "length [1, 2, 3, 4, 5 :: u8] = 5" by simp
  ultimately show ?thesis
    using writei_readi [OF example_fs_laws example_ok(1), of 8 "[1, 2, 3, 4, 5]", unfolded n, OF example_range(2)]
    by (auto split: sum.splits)
qed

theorem readi_reads_witness:
  "case readi example_env 0 3 100 example_files of
      Inl e \<Rightarrow> False
    | Inr ((r, bytes), t) \<Rightarrow> r = 7 \<and> bytes = map (content example_env example_files 0) [3..<10]"
proof -
  have "\<not> holes example_env example_files 0 3 7" by (auto simp: holes_def example_slots)
  then show ?thesis
    using readi_reads [OF example_fs_laws example_ok(1), of 3 100] by (auto split: sum.splits simp: T_DEV_def)
qed

theorem writei_keeps_others_witness:
  "case writei example_env 0 (replicate 150 7) 3 example_files of
      Inl e \<Rightarrow> e = Panics ''balloc: out of blocks''
    | Inr (r, t) \<Rightarrow> content example_env t 1 = content example_env example_files 1"
  using writei_keeps_others [OF example_fs_laws example_ok(1) _ example_ok(2) example_apart, of 3 "replicate 150 7"] example_range
  by (auto split: sum.splits)

end
