(* ===== verification/FileContent.thy ===== *)
theory FileContent
  imports FileTable FsContent
begin

text \<open>
  Open files over the inode layer: the calls of \<open>file.c\<close> run \<open>ilock\<close>, the inode operation and \<open>iunlock\<close> of
  \<open>fs.c\<close>. The inode layer meets the contract \<open>inode_store\<close>, so what one open file writes another reads.
\<close>

section \<open>The calls of file.c on an inode\<close>

definition locked_call :: "'d env \<Rightarrow> nat \<Rightarrow> nat \<Rightarrow> ('d, 'a) fsm \<Rightarrow> ('d, 'a) fsm" where
  "locked_call E pid i m = fbind (ilock E pid i) (\<lambda>_. fbind m (\<lambda>x. fbind (iunlock pid i) (\<lambda>_. fret x)))"

text \<open>After a panic the state is the fault, and no call does anything.\<close>

definition on_fs :: "('d, 'a) fsm \<Rightarrow> 'a \<Rightarrow> fault + 'd fs \<Rightarrow> 'a \<times> (fault + 'd fs)" where
  "on_fs m x t =
     (case t of
        Inl e \<Rightarrow> (x, Inl e)
      | Inr s \<Rightarrow> (case m s of Inl e \<Rightarrow> (x, Inl e) | Inr (y, u) \<Rightarrow> (y, Inr u)))"

definition inode_write :: "'d env \<Rightarrow> nat \<Rightarrow> nat \<Rightarrow> u32 \<Rightarrow> string \<Rightarrow> fault + 'd fs \<Rightarrow> int \<times> (fault + 'd fs)" where
  "inode_write E pid i o' c = on_fs (locked_call E pid i (writei E i (map of_char c) o')) (- 1)"

definition inode_read :: "'d env \<Rightarrow> nat \<Rightarrow> nat \<Rightarrow> u32 \<Rightarrow> int \<Rightarrow> fault + 'd fs \<Rightarrow> int \<times> string \<times> (fault + 'd fs)" where
  "inode_read E pid i o' n t =
     (let ((r, bs), t') = on_fs (locked_call E pid i (readi E i o' (word_of_int n))) (- 1, []) t
      in (r, map (\<lambda>b. char_of (unat b)) bs, t'))"

definition inode_stat :: "'d env \<Rightarrow> nat \<Rightarrow> nat \<Rightarrow> fault + 'd fs \<Rightarrow> stat option \<times> (fault + 'd fs)" where
  "inode_stat E pid i = on_fs (locked_call E pid i (fbind (stati i) (\<lambda>st. fret (Some st)))) None"

section \<open>A locked inode\<close>

definition with_ilk :: "nat \<Rightarrow> sleeplock \<Rightarrow> 'd fs \<Rightarrow> 'd fs" where
  "with_ilk i l s = s\<lparr>icache := (icache s)[i := (icache s ! i)\<lparr>ilk := l\<rparr>]\<rparr>"

lemma with_ilk_ip [simp]:
  "i < length (icache s) \<Longrightarrow> icache (with_ilk i l s) ! i = (icache s ! i)\<lparr>ilk := l\<rparr>"
  "sb (with_ilk i l s) = sb s" "disk (with_ilk i l s) = disk s" "length (icache (with_ilk i l s)) = length (icache s)"
  by (simp_all add: with_ilk_def)

lemma with_ilk_view:
  assumes "i < length (icache s)"
  shows "slot E (with_ilk i l s) i = slot E s i" "content E (with_ilk i l s) i = content E s i"
    "holes E (with_ilk i l s) i = holes E s i" "fs_laws E (with_ilk i l s) = fs_laws E s"
    "file_ok E (with_ilk i l s) i = file_ok E s i" "file_range E (with_ilk i l s) i = file_range E s i"
proof -
  show slot: "slot E (with_ilk i l s) i = slot E s i" using assms by (simp add: slot_def Let_def fun_eq_iff)
  show "content E (with_ilk i l s) i = content E s i" using assms by (simp add: content_def slot Let_def fun_eq_iff)
  show "holes E (with_ilk i l s) i = holes E s i" by (simp add: holes_def slot fun_eq_iff)
  show "fs_laws E (with_ilk i l s) = fs_laws E s" by (simp add: fs_laws_def)
  show "file_range E (with_ilk i l s) i = file_range E s i" using assms by (simp add: file_range_def fun_eq_iff)
  have "free_blocks E d (with_ilk i l s) = free_blocks E d s" for d by (simp add: free_blocks_def used_def)
  moreover have "owned E (with_ilk i l s) i = owned E s i" by (simp add: owned_def slot)
  moreover have "is_bitmap E (with_ilk i l s) = is_bitmap E s" by (rule is_bitmap_sb) simp
  ultimately show "file_ok E (with_ilk i l s) i = file_ok E s i"
    using assms by (simp add: file_ok_def bitmap_used_def slot)
qed

text \<open>An inode a process can lock and write: loaded, referenced, unlocked, not a device, of a size the blocks cover.\<close>

definition idle_inode :: "'d env \<Rightarrow> nat \<Rightarrow> 'd fs \<Rightarrow> bool" where
  "idle_inode E i s \<longleftrightarrow> fs_laws E s \<and> file_ok E s i \<and> NB E * BSIZE E < 2 ^ 31 \<and>
     (let ip = icache s ! i in itype ip \<noteq> T_DEV \<and> valid ip \<and> 1 \<le> iref ip \<and> \<not> slocked (ilk ip) \<and> spid (ilk ip) = 0)"

definition held :: "nat \<Rightarrow> nat \<Rightarrow> 'd fs \<Rightarrow> 'd fs" where
  "held pid i s = with_ilk i ((ilk (icache s ! i))\<lparr>slocked := True, spid := pid\<rparr>) s"

lemma ilock_held:
  assumes "idle_inode E i s"
  shows "ilock E pid i s = Inr ((), held pid i s)"
  using assms by (simp add: idle_inode_def Let_def ilock_def acquire_ino_def acquiresleep_try_def held_def with_ilk_def)

lemma iunlock_released:
  assumes "slocked (ilk (icache s ! i))" "spid (ilk (icache s ! i)) = pid" "1 \<le> iref (icache s ! i)"
  shows "iunlock pid i s = Inr ((), with_ilk i (releasesleep_body (ilk (icache s ! i))) s)"
  using assms by (simp add: iunlock_def holdingsleep_body_def release_ino_def with_ilk_def)

lemma idle_held:
  assumes "idle_inode E i s"
  shows "fs_laws E (held pid i s)" "file_ok E (held pid i s) i"
    "file_range E (held pid i s) i = file_range E s i" "content E (held pid i s) i = content E s i"
    "holes E (held pid i s) i = holes E s i" "slot E (held pid i s) i = slot E s i"
    "icache (held pid i s) ! i = (icache s ! i)\<lparr>ilk := (ilk (icache s ! i))\<lparr>slocked := True, spid := pid\<rparr>\<rparr>"
proof -
  have i: "i < length (icache s)" using assms file_okD(1) by (auto simp: idle_inode_def)
  note V = with_ilk_view [OF i, of E "(ilk (icache s ! i))\<lparr>slocked := True, spid := pid\<rparr>"]
  show "fs_laws E (held pid i s)" "file_ok E (held pid i s) i" using assms V(4,5) by (simp_all add: idle_inode_def held_def)
  show "file_range E (held pid i s) i = file_range E s i" "content E (held pid i s) i = content E s i"
    "holes E (held pid i s) i = holes E s i" "slot E (held pid i s) i = slot E s i"
    "icache (held pid i s) ! i = (icache s ! i)\<lparr>ilk := (ilk (icache s ! i))\<lparr>slocked := True, spid := pid\<rparr>\<rparr>"
    using V(1-3,6) with_ilk_ip(1) [OF i] by (simp_all only: held_def)
qed

text \<open>Unlocking gives back the state before the lock.\<close>

lemma held_released:
  assumes "idle_inode E i s"
  shows "iunlock pid i (held pid i s) = Inr ((), s)"
proof -
  let ?h = "held pid i s" and ?ip = "icache s ! i"
  note I = assms [unfolded idle_inode_def Let_def]
  have i: "i < length (icache s)" using I file_okD(1) by blast
  have "iunlock pid i ?h = Inr ((), with_ilk i (releasesleep_body (ilk (icache ?h ! i))) ?h)"
    using I by (intro iunlock_released) (simp_all add: idle_held(7) [OF assms])
  moreover have "(ilk ?ip)\<lparr>slocked := False, spid := 0\<rparr> = ilk ?ip" using I by (cases "ilk ?ip") simp
  then have "with_ilk i (releasesleep_body (ilk (icache ?h ! i))) ?h = s"
    using i by (simp add: releasesleep_body_def held_def with_ilk_def)
  ultimately show ?thesis by simp
qed

text \<open>What the file layer sees of an inode.\<close>

definition inode_ok :: "'d env \<Rightarrow> nat \<Rightarrow> fault + 'd fs \<Rightarrow> bool" where
  "inode_ok E i t = (case t of Inl e \<Rightarrow> False | Inr s \<Rightarrow> idle_inode E i s)"

definition inode_bytes :: "'d env \<Rightarrow> nat \<Rightarrow> fault + 'd fs \<Rightarrow> nat \<Rightarrow> char" where
  "inode_bytes E i t p = (case t of Inl e \<Rightarrow> NUL | Inr s \<Rightarrow> char_of (unat (content E s i p)))"

definition inode_size :: "nat \<Rightarrow> fault + 'd fs \<Rightarrow> nat" where
  "inode_size i t = (case t of Inl e \<Rightarrow> 0 | Inr s \<Rightarrow> unat (isize (icache s ! i)))"

definition inode_backed :: "'d env \<Rightarrow> nat \<Rightarrow> fault + 'd fs \<Rightarrow> nat set" where
  "inode_backed E i t = (case t of Inl e \<Rightarrow> {} | Inr s \<Rightarrow> {p. p < NB E * BSIZE E \<and> slot E s i (p div BSIZE E) \<noteq> 0})"

definition max_size :: "'d env \<Rightarrow> nat" where
  "max_size E = min (NB E * BSIZE E) (2 ^ 31 - 1)"

lemma overwrite_char: "(\<lambda>p. char_of (unat (overwrite f k (map of_char c) p :: u8))) = overwrite (\<lambda>p. char_of (unat (f p))) k c"
  by (auto simp: overwrite_def fun_eq_iff)

lemma inode_write_stores:
  assumes "inode_ok E i t" "unat o' \<le> inode_size i t" "unat o' + length c \<le> max_size E" "inode_write E pid i o' c t = (r, t')"
  shows "r = - 1 \<and> t' = Inl no_blocks \<or> r = int (length c) \<and>
    stored (inode_ok E i) (inode_bytes E i) (inode_size i) (inode_backed E i) (unat o') c t t'"
proof -
  obtain s where s: "t = Inr s" "idle_inode E i s" using assms(1) by (auto simp: inode_ok_def split: sum.splits)
  let ?h = "held pid i s" and ?src = "map of_char c :: u8 list" and ?ip = "icache s ! i"
  note H = idle_held [OF s(2), of pid] and I = s(2) [unfolded idle_inode_def Let_def]
  have range: "file_range E s i o' (length ?src)"
    using I assms(2,3) by (simp add: file_range_def s(1) inode_size_def max_size_def word_le_nat_alt)
  have call: "inode_write E pid i o' c t = (case writei E i ?src o' ?h of Inl e \<Rightarrow> (- 1, Inl e) | Inr (x, u) \<Rightarrow>
      (case iunlock pid i u of Inl e \<Rightarrow> (- 1, Inl e) | Inr (y, v) \<Rightarrow> (x, Inr v)))"
    by (simp add: inode_write_def on_fs_def s(1) locked_call_def fbind_def ilock_held [OF s(2)] split: sum.splits prod.splits)
  from writei_effect [OF H(1,2) range [folded H(3)]] show ?thesis
  proof (elim disjE exE conjE)
    assume "writei E i ?src o' ?h = Inl no_blocks"
    with assms(4) call show ?thesis by simp
  next
    fix u ad assume u: "writei E i ?src o' ?h = Inr (int (length ?src), u)" "fs_laws E u" "file_ok E u i"
      "content E u i = overwrite (content E ?h i) (unat o') ?src" "\<not> holes E u i (unat o') (length ?src)"
      "\<forall>k \<le> NB E. slot E ?h i k \<noteq> 0 \<longrightarrow> slot E u i k = slot E ?h i k"
      "icache u ! i = (icache ?h ! i)\<lparr>addrs := ad, isize := max (isize (icache ?h ! i)) (o' + of_nat (length ?src))\<rparr>"
    let ?v = "with_ilk i (releasesleep_body (ilk (icache u ! i))) u"
    note i = file_okD(1) [OF u(3)]
    note V = with_ilk_view [OF i, of E "releasesleep_body (ilk (icache u ! i))"]
    have ip: "icache ?v ! i = ?ip\<lparr>addrs := ad, isize := max (isize ?ip) (o' + of_nat (length ?src)), ilk := releasesleep_body (ilk ?ip)\<rparr>"
      using with_ilk_ip(1) [OF i, of "releasesleep_body (ilk (icache u ! i))"] by (simp add: u(7) H(7) releasesleep_body_def)
    have "iunlock pid i u = Inr ((), ?v)" using I by (intro iunlock_released) (simp_all add: u(7) H(7))
    then have res: "r = int (length c)" "t' = Inr ?v" using call u(1) assms(4) by simp_all
    have idle: "idle_inode E i ?v"
      using I u(2,3) V(4,5) unfolding idle_inode_def Let_def ip by (simp add: releasesleep_body_def)
    have "inode_bytes E i (Inr ?v) = overwrite (inode_bytes E i t) (unat o') c"
      using overwrite_char [of "content E s i" "unat o'" c] by (simp add: inode_bytes_def [abs_def] V(2) u(4) H(4) s(1))
    moreover have "inode_size i (Inr ?v) = max (inode_size i t) (unat o' + length c)"
      using unat_range(1) [OF range] by (simp add: inode_size_def ip s(1) max_def word_le_nat_alt)
    moreover have "inode_backed E i t \<union> {unat o'..<unat o' + length c} \<subseteq> inode_backed E i (Inr ?v)"
    proof
      fix p assume p: "p \<in> inode_backed E i t \<union> {unat o'..<unat o' + length c}"
      have lt: "p < NB E * BSIZE E" using p assms(3) by (auto simp: inode_backed_def s(1) max_size_def)
      have "p div BSIZE E \<le> NB E" using block_in_range [OF lt fs_lawsD(4) [OF H(1)]] by simp
      then have "slot E u i (p div BSIZE E) \<noteq> 0"
        using p u(5,6) by (auto simp: inode_backed_def s(1) H(6) holes_def)
      with lt show "p \<in> inode_backed E i (Inr ?v)" by (simp add: inode_backed_def V(1))
    qed
    ultimately show ?thesis using idle unfolding res stored_def by (simp add: inode_ok_def)
  qed
qed

lemma inode_read_full:
  assumes "inode_ok E i t" "{unat o'..<unat o' + n} \<subseteq> inode_backed E i t" "unat o' + n \<le> inode_size i t" "unat o' + n \<le> max_size E"
  shows "inode_read E pid i o' (int n) t = (int n, map (inode_bytes E i t) [unat o'..<unat o' + n], t)"
proof -
  obtain s where s: "t = Inr s" "idle_inode E i s" using assms(1) by (auto simp: inode_ok_def split: sum.splits)
  let ?h = "held pid i s"
  note H = idle_held [OF s(2), of pid] and I = s(2) [unfolded idle_inode_def Let_def]
  have "\<not> holes E s i (unat o') n" using assms(2) by (auto simp: holes_def inode_backed_def s(1))
  then have "readi E i o' (of_nat n) ?h = Inr ((int n, map (content E s i) [unat o'..<unat o' + n]), ?h)"
    using readi_full [OF H(1,2), of o' n] I assms(3,4) by (simp add: H(4,5,7) inode_size_def s(1) max_size_def)
  moreover note held_released [OF s(2), of pid]
  ultimately show ?thesis
    by (simp add: inode_read_def on_fs_def s(1) locked_call_def fbind_def ilock_held [OF s(2)] inode_bytes_def [abs_def])
qed

text \<open>\<open>filestat\<close> tells the metadata of the inode and leaves it unlocked as it was.\<close>

lemma filestat_idle:
  assumes "ftype f = FD_INODE" "idle_inode E (ip f) s"
  shows "filestat (inode_stat E pid) f (Inr s) =
    (let ip = icache s ! ip f
     in (0, Some \<lparr>st_type = itype ip, st_dev = i_dev ip, st_ino = inum ip, st_nlink = nlink ip, st_size = isize ip\<rparr>, Inr s))"
proof -
  have "ip f < length (icache s)" using assms(2) by (simp add: idle_inode_def file_ok_def Let_def)
  with held_released [OF assms(2), of pid] assms(1) show ?thesis
    by (simp add: filestat_def inode_stat_def on_fs_def locked_call_def fbind_def ilock_held [OF assms(2)] stati_def held_def Let_def)
qed

interpretation fs_store: inode_store "inode_write E pid" "inode_read E pid" "inode_ok E" "inode_bytes E" inode_size "inode_backed E" "max_size E"
    "\<lambda>t. t = Inl no_blocks"
  for E :: "'d env" and pid :: nat
proof unfold_locales
  show "max_size E < 2 ^ 31" by (simp add: max_size_def)
qed (fact inode_write_stores, fact inode_read_full)

section \<open>Files\<close>

text \<open>C2. A file written through one descriptor is read back through another: \<open>filewrite\<close> of \<open>n\<close> bytes, in as many
  transactions of \<open>ilock\<close>, \<open>writei\<close> and \<open>iunlock\<close> as it takes, panics for want of free blocks or returns \<open>n\<close>, advances the offset by
  \<open>n\<close> and replaces exactly those bytes of the file; \<open>fileread\<close> of a second open file at the same offset then returns
  them and leaves the file system as it is.\<close>

theorem filewrite_fileread:
  assumes "writable f" "ftype f = FD_INODE" "0 \<le> n" "n \<le> int (length addr)" "idle_inode E (ip f) s"
    and "off f \<le> isize (icache s ! ip f)" "unat (off f) + nat n \<le> max_size E"
    and "readable g" "ftype g = FD_INODE" "ip g = ip f" "off g = off f"
  shows "\<exists>r f' t cs. filewrite (inode_write E pid) on_pipe f addr n (Inr s) = Inr (Done r, f', t, cs) \<and>
    (t = Inl (Panics ''balloc: out of blocks'') \<or> r = n \<and> off f' = off f + word_of_int n \<and>
      inode_bytes E (ip f) t = overwrite (inode_bytes E (ip f) (Inr s)) (unat (off f)) (take (nat n) addr) \<and>
      fileread (inode_read E pid) on_pipe' g n t = Inr (Done n, take (nat n) addr, g\<lparr>off := off f'\<rparr>, t))"
proof -
  have "inode_ok E (ip f) (Inr s)" "unat (off f) \<le> inode_size (ip f) (Inr s)"
    using assms(5,6) by (simp_all add: inode_ok_def inode_size_def word_le_nat_alt)
  from fs_store.filewrite_stores [OF assms(1-4) this assms(7), of pid on_pipe]
  obtain r f' t cs where W: "filewrite (inode_write E pid) on_pipe f addr n (Inr s) = Inr (Done r, f', t, cs)"
    "r = - 1 \<and> t = Inl no_blocks \<or> r = n \<and> f' = f\<lparr>off := off f + word_of_int n\<rparr> \<and>
      stored (inode_ok E (ip f)) (inode_bytes E (ip f)) (inode_size (ip f)) (inode_backed E (ip f)) (unat (off f)) (take (nat n) addr) (Inr s) t"
    by blast
  have "length (take (nat n) addr) = nat n" using assms(3,4) by simp
  then have n: "int (length (take (nat n) addr)) = n" "of_nat (length (take (nat n) addr)) = (word_of_int n :: u32)"
    "unat (off g) + length (take (nat n) addr) \<le> max_size E"
    using assms(3,7,11) by (simp_all only: of_nat_nat int_nat_eq) simp_all
  have "fileread (inode_read E pid) on_pipe' g n t = Inr (Done n, take (nat n) addr, g\<lparr>off := off g + word_of_int n\<rparr>, t)"
    if "stored (inode_ok E (ip f)) (inode_bytes E (ip f)) (inode_size (ip f)) (inode_backed E (ip f)) (unat (off f)) (take (nat n) addr) (Inr s) t"
    using fs_store.fileread_stored [OF _ n(3) assms(8,9), unfolded n(1,2) assms(10,11), OF that] assms(11) by simp
  then show ?thesis
    using W assms(11) by (intro exI [of _ r] exI [of _ f'] exI [of _ t] exI [of _ cs]) (auto simp: stored_def)
qed

lemma example_idle: "idle_inode example_env 0 example_files"
  using example_fs_laws example_ok(1) by (simp add: idle_inode_def Let_def T_DEV_def) (simp add: example_inode_def)

theorem filewrite_fileread_witness:
  "\<exists>r f' t cs. filewrite (inode_write example_env 1) (\<lambda>_ _ _. ())
      \<lparr>ftype = FD_INODE, ref = 1, readable = False, writable = True, fpipe = 0, ip = 0, off = 8\<rparr> ''hello'' 5 (Inr example_files) = Inr (Done r, f', t, cs) \<and>
    (t = Inl (Panics ''balloc: out of blocks'') \<or> r = 5 \<and> off f' = 13 \<and>
      fileread (inode_read example_env 1) (\<lambda>_ _. ())
        \<lparr>ftype = FD_INODE, ref = 1, readable = True, writable = False, fpipe = 0, ip = 0, off = 8\<rparr> 5 t =
      Inr (Done 5, ''hello'', \<lparr>ftype = FD_INODE, ref = 1, readable = True, writable = False, fpipe = 0, ip = 0, off = 13\<rparr>, t))"
proof -
  let ?f = "\<lparr>ftype = FD_INODE, ref = 1, readable = False, writable = True, fpipe = 0, ip = 0, off = 8\<rparr>"
  let ?g = "\<lparr>ftype = FD_INODE, ref = 1, readable = True, writable = False, fpipe = 0, ip = 0, off = 8\<rparr>"
  have "max_size example_env = 384" by (simp add: max_size_def)
  then obtain r f' t cs where "filewrite (inode_write example_env 1) (\<lambda>_ _ _. ()) ?f ''hello'' 5 (Inr example_files) = Inr (Done r, f', t, cs)"
    "t = Inl no_blocks \<or> r = 5 \<and> off f' = 13 \<and> fileread (inode_read example_env 1) (\<lambda>_ _. ()) ?g 5 t = Inr (Done 5, ''hello'', ?g\<lparr>off := off f'\<rparr>, t)"
    using filewrite_fileread [of ?f 5 "''hello''" example_env example_files ?g 1 "\<lambda>_ _ _. ()" "\<lambda>_ _. ()"] example_idle
    by (simp add: word_le_nat_alt) blast
  then show ?thesis by (intro exI [of _ r] exI [of _ f'] exI [of _ t] exI [of _ cs]) auto
qed

end
