(* ===== verification/DirContent.thy ===== *)
theory DirContent
  imports FsContent FsDir
begin

text \<open>
  Directories as maps from names to inode numbers: \<open>dirlookup\<close> of \<open>fs.c\<close> refines the lookup in the map and \<open>dirlink\<close>
  its update, over the content of the file that holds the directory.
\<close>

section \<open>Names\<close>

text \<open>What a directory entry keeps of a name, and the names \<open>namecmp\<close> identifies.\<close>

definition cut :: "'d env \<Rightarrow> string \<Rightarrow> string" where
  "cut E s = take (DIRSIZ E) (cstr s)"

lemma cstr_Cons: "cstr (c # s) = (if c = NUL then [] else c # cstr s)"
  by (simp add: cstr_def)

lemma strncmp_zero: "strncmp n s t = 0 \<longleftrightarrow> take n (cstr s) = take n (cstr t)"
proof (induction n arbitrary: s t)
  case (Suc n)
  have char: "(of_char a :: int) - of_char b = 0 \<longleftrightarrow> a = b" for a b :: char by simp
  show ?case
    using Suc.IH [of "tl s" "tl t"] char [of _ NUL] char [of NUL]
    by (cases s; cases t) (auto simp: head_char_def cstr_Cons cstr_def char)
qed simp

lemma namecmp_cut: "namecmp E s t = 0 \<longleftrightarrow> cut E s = cut E t"
  by (simp add: namecmp_def cut_def strncmp_zero)

lemma cut_strncpy: "cut E (strncpy (DIRSIZ E) s) = cut E s"
proof -
  have "cstr (take n s @ replicate m NUL) = cstr (take n s)" for n m
    by (cases m) (auto simp: cstr_def takeWhile_append takeWhile_eq_all_conv [THEN iffD2])
  moreover have "cstr (take n s) = take n (cstr s)" for n
  proof (induction n arbitrary: s)
    case (Suc n)
    then show ?case by (cases s) (simp_all add: cstr_def)
  qed (simp add: cstr_def)
  ultimately show ?thesis by (simp add: cut_def strncpy_def)
qed

section \<open>The entries of a directory\<close>

text \<open>Entry \<open>k\<close> of a directory, the number of entries, and the map the directory stands for: the first entry with
  the name counts, and one with inode number 0 is empty.\<close>

definition entry :: "'d env \<Rightarrow> 'd fs \<Rightarrow> nat \<Rightarrow> nat \<Rightarrow> nat \<times> string" where
  "entry E s dp k = get_dirent E (map (content E s dp) [k * dirent_size E..<k * dirent_size E + dirent_size E])"

definition entries :: "'d env \<Rightarrow> 'd fs \<Rightarrow> nat \<Rightarrow> nat" where
  "entries E s dp = unat (isize (icache s ! dp)) div dirent_size E"

definition has_name :: "'d env \<Rightarrow> 'd fs \<Rightarrow> nat \<Rightarrow> string \<Rightarrow> nat \<Rightarrow> bool" where
  "has_name E s dp name k \<longleftrightarrow> fst (entry E s dp k) \<noteq> 0 \<and> cut E (snd (entry E s dp k)) = cut E name"

definition dir_map :: "'d env \<Rightarrow> 'd fs \<Rightarrow> nat \<Rightarrow> string \<Rightarrow> nat option" where
  "dir_map E s dp name = map_option (\<lambda>k. fst (entry E s dp k)) (find (has_name E s dp name) [0..<entries E s dp])"

text \<open>The laws of the entries: an entry with an inode number of the file system can be stored and read back.\<close>

definition dirent_laws :: "'d env \<Rightarrow> nat \<Rightarrow> bool" where
  "dirent_laws E n \<longleftrightarrow> 0 < dirent_size E \<and>
     (\<forall>i nm. i < n \<longrightarrow> length nm = DIRSIZ E \<longrightarrow>
        length (put_dirent E (i, nm)) = dirent_size E \<and> get_dirent E (put_dirent E (i, nm)) = (i, nm))"

lemma dirent_lawsD:
  assumes "dirent_laws E n"
  shows "0 < dirent_size E" "i < n \<Longrightarrow> length nm = DIRSIZ E \<Longrightarrow> length (put_dirent E (i, nm)) = dirent_size E"
    "i < n \<Longrightarrow> length nm = DIRSIZ E \<Longrightarrow> get_dirent E (put_dirent E (i, nm)) = (i, nm)"
  using assms unfolding dirent_laws_def by blast+

text \<open>A directory: a file of whole entries without holes.\<close>

definition dir_ok :: "'d env \<Rightarrow> 'd fs \<Rightarrow> nat \<Rightarrow> bool" where
  "dir_ok E s dp \<longleftrightarrow> fs_laws E s \<and> dirent_laws E (ninodes (sb s)) \<and> file_ok E s dp \<and> NB E * BSIZE E < 2 ^ 31 \<and>
     itype (icache s ! dp) = T_DIR \<and> unat (isize (icache s ! dp)) = entries E s dp * dirent_size E \<and>
     unat (isize (icache s ! dp)) \<le> NB E * BSIZE E \<and> \<not> holes E s dp 0 (unat (isize (icache s ! dp)))"

lemma dir_okD:
  assumes "dir_ok E s dp"
  shows "fs_laws E s" "dirent_laws E (ninodes (sb s))" "file_ok E s dp" "NB E * BSIZE E < 2 ^ 31"
    "itype (icache s ! dp) = T_DIR" "unat (isize (icache s ! dp)) = entries E s dp * dirent_size E"
    "entries E s dp * dirent_size E \<le> NB E * BSIZE E" "\<not> holes E s dp 0 (entries E s dp * dirent_size E)"
  using assms unfolding dir_ok_def by metis+

text \<open>Offset \<open>k\<close> in the loops.\<close>

lemma entry_offset:
  assumes "dir_ok E s dp" "k \<le> entries E s dp"
  shows "unat (of_nat (k * dirent_size E) :: u32) = k * dirent_size E"
    "(of_nat (k * dirent_size E) :: u32) < isize (icache s ! dp) \<longleftrightarrow> k < entries E s dp"
proof -
  note D = dir_okD [OF assms(1)]
  have "k * dirent_size E \<le> entries E s dp * dirent_size E" using assms(2) by simp
  also have "\<dots> < 2 ^ 31" using D(4,7) by linarith
  finally show k: "unat (of_nat (k * dirent_size E) :: u32) = k * dirent_size E"
    by (simp only: unat_of_nat take_bit_nat_eq_self_iff) simp
  show "(of_nat (k * dirent_size E) :: u32) < isize (icache s ! dp) \<longleftrightarrow> k < entries E s dp"
    using dirent_lawsD(1) [OF D(2)] by (simp only: word_less_nat_alt k D(6)) simp
qed

lemma read_entry:
  assumes "dir_ok E s dp" "k < entries E s dp"
  shows "readi E dp (of_nat (k * dirent_size E)) (of_nat (dirent_size E)) s =
    Inr ((int (dirent_size E), map (content E s dp) [k * dirent_size E..<k * dirent_size E + dirent_size E]), s)"
proof -
  note D = dir_okD [OF assms(1)] and u = entry_offset(1) [OF assms(1) less_imp_le [OF assms(2)]]
  have "Suc k * dirent_size E \<le> entries E s dp * dirent_size E" using assms(2) by (intro mult_le_mono1) simp
  then have fits: "k * dirent_size E + dirent_size E \<le> entries E s dp * dirent_size E" by simp
  then have "\<not> holes E s dp (k * dirent_size E) (dirent_size E)" using D(8) by (auto simp: holes_def)
  then show ?thesis
    using readi_full [OF D(1,3) _ D(4), of "of_nat (k * dirent_size E)" "dirent_size E"] D(5-7) fits
    by (simp only: u T_DEV_def T_DIR_def) simp
qed

lemma entry_next: "(of_nat (k * d) + of_nat d :: u32) = of_nat (Suc k * d)"
  by (simp add: algebra_simps)

lemma dirlookup_loop_finds:
  assumes "dir_ok E s dp" "k \<le> entries E s dp" "entries E s dp - k < fuel"
  shows "dirlookup_loop fuel E dp name (of_nat (k * dirent_size E)) s =
    (case find (has_name E s dp name) [k..<entries E s dp] of
       None \<Rightarrow> Inr (None, s)
     | Some j \<Rightarrow> fbind (iget (i_dev (icache s ! dp)) (fst (entry E s dp j))) (\<lambda>i. fret (Some (i, of_nat (j * dirent_size E)))) s)"
  using assms(2,3)
proof (induction fuel arbitrary: k)
  case (Suc fuel)
  note off = entry_offset(2) [OF assms(1) Suc.prems(1)]
  show ?case
  proof (cases "k < entries E s dp")
    case False
    with off show ?thesis by simp
  next
    case True
    have next_k: "dirlookup_loop fuel E dp name (of_nat (k * dirent_size E) + of_nat (dirent_size E)) s =
      (case find (has_name E s dp name) [Suc k..<entries E s dp] of None \<Rightarrow> Inr (None, s)
       | Some j \<Rightarrow> fbind (iget (i_dev (icache s ! dp)) (fst (entry E s dp j))) (\<lambda>i. fret (Some (i, of_nat (j * dirent_size E)))) s)"
      unfolding entry_next using Suc.IH [of "Suc k"] True Suc.prems(2) by simp
    have "fst (entry E s dp k) \<noteq> 0 \<and> namecmp E name (snd (entry E s dp k)) = 0 \<longleftrightarrow> has_name E s dp name k"
      by (auto simp: has_name_def namecmp_cut)
    with True off read_entry [OF assms(1) True] next_k show ?thesis
      by (simp add: upt_conv_Cons case_prod_beta entry_def [symmetric] del: upt_Suc of_nat_mult)
  qed
qed simp

lemma dirlookup_result:
  assumes "dir_ok E s dp"
  shows "case dir_map E s dp name of
      None \<Rightarrow> dirlookup E dp name s = Inr (None, s)
    | Some inm \<Rightarrow> \<exists>ofs. dirlookup E dp name s = fbind (iget (i_dev (icache s ! dp)) inm) (\<lambda>i. fret (Some (i, ofs))) s"
proof -
  have "dirent_size E > 0" using dirent_lawsD(1) [OF dir_okD(2) [OF assms]] .
  then have "entries E s dp < Suc (unat (isize (icache s ! dp)))" using dir_okD(6) [OF assms] by (cases "dirent_size E") auto
  from dirlookup_loop_finds [OF assms le0, of "unat (isize (icache s ! dp)) + 1" name] this dir_okD(5) [OF assms]
  show ?thesis by (auto simp: dirlookup_def dir_map_def split: option.splits)
qed

text \<open>C14. \<open>dirlookup\<close> refines the lookup in the map of the directory: it finds a name exactly when the map does, returns
  the cached inode of the number the map gives, and a miss changes nothing; names agree if their first \<open>DIRSIZ\<close>
  characters do.\<close>

theorem dirlookup_refines:
  assumes "dir_ok E s dp"
  shows "case dir_map E s dp name of
      None \<Rightarrow> dirlookup E dp name s = Inr (None, s)
    | Some inm \<Rightarrow> \<exists>ofs. dirlookup E dp name s = fbind (iget (i_dev (icache s ! dp)) inm) (\<lambda>i. fret (Some (i, ofs))) s"
  by (rule dirlookup_result [OF assms])

section \<open>Linking a name\<close>

lemma empty_entry_finds:
  assumes "dir_ok E s dp" "k \<le> entries E s dp" "entries E s dp - k < fuel"
  shows "\<exists>j. empty_entry fuel E dp (of_nat (k * dirent_size E)) s = Inr (of_nat (j * dirent_size E), s) \<and>
    (j < entries E s dp \<and> fst (entry E s dp j) = 0 \<or> j = entries E s dp)"
  using assms(2,3)
proof (induction fuel arbitrary: k)
  case (Suc fuel)
  note off = entry_offset(2) [OF assms(1) Suc.prems(1)]
  show ?case
  proof (cases "k < entries E s dp")
    case False
    with off Suc.prems(1) show ?thesis by (intro exI [of _ k]) (simp del: of_nat_mult)
  next
    case True
    note read = read_entry [OF assms(1) True]
    show ?thesis
    proof (cases "fst (entry E s dp k) = 0")
      case z: True
      with True off read show ?thesis by (intro exI [of _ k]) (simp add: entry_def [symmetric] del: of_nat_mult)
    next
      case nz: False
      have "empty_entry (Suc fuel) E dp (of_nat (k * dirent_size E)) s = empty_entry fuel E dp (of_nat (Suc k * dirent_size E)) s"
        using True off read nz by (simp add: entry_def [symmetric] entry_next [symmetric] del: of_nat_mult mult_Suc)
      with Suc.IH [of "Suc k"] True Suc.prems(2) show ?thesis by (simp only:)
    qed
  qed
qed simp

text \<open>The directory with the new entry at position \<open>j\<close>.\<close>

lemma linked:
  assumes "dir_ok E s dp" "j \<le> entries E s dp" "dirent_laws E (ninodes (sb s))" "i < ninodes (sb s)" "length nm = DIRSIZ E"
    and t: "content E t dp = overwrite (content E s dp) (j * dirent_size E) (put_dirent E (i, nm))"
      "unat (isize (icache t ! dp)) = max (entries E s dp) (Suc j) * dirent_size E"
  shows "entries E t dp = max (entries E s dp) (Suc j)" "entry E t dp k = (if k = j then (i, nm) else entry E s dp k)"
proof -
  note L = dirent_lawsD [OF assms(3)]
  let ?d = "dirent_size E"
  show "entries E t dp = max (entries E s dp) (Suc j)" using L(1) by (simp add: entries_def t(2))
  have len: "length (put_dirent E (i, nm)) = ?d" by (rule L(2) [OF assms(4,5)])
  show "entry E t dp k = (if k = j then (i, nm) else entry E s dp k)"
  proof (cases "k = j")
    case True
    then have "map (content E t dp) [k * ?d..<k * ?d + ?d] = put_dirent E (i, nm)"
      using map_overwrite [of "content E s dp" "j * ?d" "put_dirent E (i, nm)"] by (simp add: t(1) len)
    with True L(3) [OF assms(4,5)] show ?thesis by (simp add: entry_def)
  next
    case False
    then have "Suc k \<le> j \<or> Suc j \<le> k" by linarith
    then have "Suc k * ?d \<le> j * ?d \<or> Suc j * ?d \<le> k * ?d" by (metis mult_le_mono1)
    then have "map (content E t dp) [k * ?d..<k * ?d + ?d] = map (content E s dp) [k * ?d..<k * ?d + ?d]"
      by (auto simp: t(1) overwrite_def len)
    with False show ?thesis unfolding entry_def by (simp only: if_False)
  qed
qed

lemma find_upt_None: "find P [0..<n] = None \<longleftrightarrow> (\<forall>k < n. \<not> P k)"
  by (auto simp: find_None_iff)

lemma find_only: "P j \<Longrightarrow> j < n \<Longrightarrow> (\<And>k. k < n \<Longrightarrow> k \<noteq> j \<Longrightarrow> \<not> P k) \<Longrightarrow> find P [0..<n] = Some j"
  unfolding find_Some_iff by (intro exI [of _ j]) auto

lemma find_longer:
  assumes "\<And>k. k < n \<Longrightarrow> P k = Q k" "\<And>k. n \<le> k \<Longrightarrow> k < m \<Longrightarrow> \<not> P k" "n \<le> m"
  shows "find P [0..<m] = find Q [0..<n]"
proof -
  have "[0..<m] = [0..<n] @ [n..<m]" using assms(3) upt_add_eq_append [of 0 n "m - n"] by simp
  moreover have "find P [0..<n] = find Q [0..<n]" using assms(1) by (intro find_cong) auto
  moreover have "find P [n..<m] = None" using assms(2) by (auto simp: find_None_iff)
  moreover have "find P (xs @ ys) = (case find P xs of None \<Rightarrow> find P ys | Some x \<Rightarrow> Some x)" for xs ys
    by (induction xs) auto
  ultimately show ?thesis by (auto split: option.splits)
qed

lemma linked_map:
  assumes "\<And>k. entry E t dp k = (if k = j then (i, nm) else entry E s dp k)" "entries E t dp = max (entries E s dp) (Suc j)"
    and "j < entries E s dp \<and> fst (entry E s dp j) = 0 \<or> j = entries E s dp" "dir_map E s dp name = None" "i \<noteq> 0" "cut E nm = cut E name"
  shows "dir_map E t dp x = (if cut E x = cut E name then Some i else dir_map E s dp x)"
proof (cases "cut E x = cut E name")
  case True
  have no: "\<not> has_name E s dp name k" if "k < entries E s dp" for k
    using assms(4) that by (simp add: dir_map_def find_upt_None)
  have "has_name E t dp x k \<longleftrightarrow> k = j" if k: "k < entries E t dp" for k
    using no [of k] k assms(2,3,5,6) True by (auto simp: has_name_def assms(1) max_def split: if_splits)
  moreover have "j < entries E t dp" using assms(2) by simp
  ultimately have "find (has_name E t dp x) [0..<entries E t dp] = Some j" by (intro find_only) auto
  with True show ?thesis by (simp add: dir_map_def assms(1))
next
  case False
  have same: "has_name E t dp x k = has_name E s dp x k" if "k < entries E s dp" for k
    using False that assms(3,6) by (auto simp: has_name_def assms(1))
  have "\<not> has_name E t dp x k" if "entries E s dp \<le> k" "k < entries E t dp" for k
    using False that assms(2,3,6) by (auto simp: has_name_def assms(1) max_def split: if_splits)
  with same have find: "find (has_name E t dp x) [0..<entries E t dp] = find (has_name E s dp x) [0..<entries E s dp]"
    using assms(2) by (intro find_longer) auto
  have "fst (entry E t dp k) = fst (entry E s dp k)" if "find (has_name E s dp x) [0..<entries E s dp] = Some k" for k
    using that assms(3) by (auto simp: find_Some_iff has_name_def assms(1))
  with False find show ?thesis by (cases "find (has_name E s dp x) [0..<entries E s dp]") (auto simp: dir_map_def)
qed

text \<open>Writing one entry of a directory, an old one or the next.\<close>

lemma write_entry:
  assumes "dir_ok E s dp" "j \<le> entries E s dp" "i < ninodes (sb s)" "length nm = DIRSIZ E"
    and fits: "j * dirent_size E + dirent_size E \<le> NB E * BSIZE E"
  shows "writei E dp (put_dirent E (i, nm)) (of_nat (j * dirent_size E)) s = Inl no_blocks \<or>
    (\<exists>t. writei E dp (put_dirent E (i, nm)) (of_nat (j * dirent_size E)) s = Inr (int (dirent_size E), t) \<and> dir_ok E t dp \<and>
      entries E t dp = max (entries E s dp) (Suc j) \<and> (\<forall>k. entry E t dp k = (if k = j then (i, nm) else entry E s dp k)))"
proof -
  let ?d = "dirent_size E" and ?n = "entries E s dp" and ?ip = "icache s ! dp" and ?data = "put_dirent E (i, nm)"
  let ?o = "of_nat (j * ?d) :: u32"
  note D = dir_okD [OF assms(1)] and u = entry_offset(1) [OF assms(1,2)]
  have len: "length ?data = ?d" using dirent_lawsD(2) [OF D(2) assms(3,4)] .
  have jd: "j * ?d \<le> ?n * ?d" using assms(2) by simp
  have range: "file_range E s dp ?o (length ?data)"
    unfolding file_range_def word_le_nat_alt u len using D(4-6) jd fits by (simp add: T_DEV_def T_DIR_def)
  from writei_effect [OF D(1,3) range] show ?thesis
  proof (elim disjE exE conjE)
    fix t ad assume t: "writei E dp ?data ?o s = Inr (int (length ?data), t)" "fs_laws E t" "file_ok E t dp"
      "content E t dp = overwrite (content E s dp) (unat ?o) ?data" "\<not> holes E t dp (unat ?o) (length ?data)"
      "\<forall>k \<le> NB E. slot E s dp k \<noteq> 0 \<longrightarrow> slot E t dp k = slot E s dp k"
      "icache t ! dp = ?ip\<lparr>addrs := ad, isize := max (isize ?ip) (?o + of_nat (length ?data))\<rparr>" "sb t = sb s"
    have "unat (max a b) = max (unat a) (unat b)" for a b :: u32 by (simp add: max_def word_le_nat_alt)
    moreover have "unat (?o + of_nat (length ?data)) = Suc j * ?d" using unat_range(1) [OF range] by (simp only: u len) simp
    ultimately have size: "unat (isize (icache t ! dp)) = max ?n (Suc j) * ?d"
      using D(6) unfolding t(7) nat_mult_max_left by (simp del: of_nat_mult mult_Suc)
    have bytes: "content E t dp = overwrite (content E s dp) (j * ?d) ?data" using t(4) by (simp only: u)
    note N = linked [OF assms(1,2) D(2) assms(3,4) bytes size]
    have "slot E t dp (p div BSIZE E) \<noteq> 0" if p: "p < max ?n (Suc j) * ?d" for p
    proof
      assume z: "slot E t dp (p div BSIZE E) = 0"
      then have out: "\<not> (j * ?d \<le> p \<and> p < j * ?d + ?d)" using t(5) unfolding holes_def u len by blast
      have lt: "p < ?n * ?d"
      proof (cases "Suc j \<le> ?n")
        case False
        then have "max ?n (Suc j) * ?d = j * ?d + ?d" by (simp add: max_def)
        with p jd out show ?thesis by linarith
      qed (use p in \<open>simp add: max_def\<close>)
      then have "p div BSIZE E \<le> NB E" using block_in_range [of p "NB E" "BSIZE E"] D(7) fs_lawsD(4) [OF D(1)] by fastforce
      with D(8) t(6) lt z show False by (auto simp: holes_def)
    qed
    then have "\<not> holes E t dp 0 (unat (isize (icache t ! dp)))" by (auto simp: holes_def size)
    moreover have "unat (isize (icache t ! dp)) \<le> NB E * BSIZE E" using fits D(7) by (auto simp: size max_def)
    ultimately have "dir_ok E t dp"
      using t(2,3) D(2,4,5) N(1) size unfolding dir_ok_def t(8) by (simp add: t(7))
    moreover have "writei E dp ?data ?o s = Inr (int ?d, t)" using t(1) unfolding len .
    ultimately show ?thesis using N by blast
  qed simp
qed

text \<open>C7. \<open>dirlink\<close> of a new name refines the update of the map: it runs out of free blocks, or returns 0 with a directory
  whose map gives the inode number for every name that agrees with the new one and is as before for all others, whether
  an empty entry is used again or the directory grows.\<close>

theorem dirlink_refines:
  assumes "dir_ok E s dp" "dir_map E s dp name = None" "inm \<noteq> 0" "inm < ninodes (sb s)"
    and "unat (isize (icache s ! dp)) + dirent_size E \<le> NB E * BSIZE E"
  shows "case dirlink E pid dp name inm s of
      Inl e \<Rightarrow> e = Panics ''balloc: out of blocks''
    | Inr (r, t) \<Rightarrow> r = 0 \<and> dir_ok E t dp \<and>
        (\<forall>x. dir_map E t dp x = (if cut E x = cut E name then Some inm else dir_map E s dp x))"
proof -
  let ?d = "dirent_size E" and ?n = "entries E s dp" and ?ip = "icache s ! dp" and ?nm = "strncpy (DIRSIZ E) name"
  note D = dir_okD [OF assms(1)]
  have "0 < ?d" using dirent_lawsD(1) [OF D(2)] .
  then have fuel: "entries E s dp - 0 < unat (isize ?ip) + 1" using D(6) by (cases ?d) auto
  from empty_entry_finds [OF assms(1) le0 fuel] obtain j where
    j: "empty_entry (unat (isize ?ip) + 1) E dp 0 s = Inr (of_nat (j * ?d), s)" "j < ?n \<and> fst (entry E s dp j) = 0 \<or> j = ?n"
    by auto
  then have le: "j \<le> ?n" by auto
  then have "j * ?d \<le> ?n * ?d" by simp
  with assms(5) D(6) have fits: "j * ?d + ?d \<le> NB E * BSIZE E" by linarith
  have nm: "length ?nm = DIRSIZ E" by (simp add: strncpy_def)
  have "dirlookup E dp name s = Inr (None, s)" using dirlookup_result [OF assms(1), of name] assms(2) by simp
  then have run: "dirlink E pid dp name inm s = fbind (writei E dp (put_dirent E (inm, ?nm)) (of_nat (j * ?d))) (\<lambda>k.
      if k \<noteq> int ?d then fail (Panics ''dirlink'') else fret 0) s"
    using j(1) by (simp add: dirlink_def fbind_def del: of_nat_mult)
  from write_entry [OF assms(1) le assms(4) nm fits] show ?thesis
  proof (elim disjE exE conjE)
    fix t assume t: "writei E dp (put_dirent E (inm, ?nm)) (of_nat (j * ?d)) s = Inr (int ?d, t)" "dir_ok E t dp"
      "entries E t dp = max ?n (Suc j)" "\<forall>k. entry E t dp k = (if k = j then (inm, ?nm) else entry E s dp k)"
    have "dir_map E t dp x = (if cut E x = cut E name then Some inm else dir_map E s dp x)" for x
      using t(4) by (intro linked_map [OF _ t(3) j(2) assms(2,3) cut_strncpy]) blast
    with run t(1,2) show ?thesis by (simp add: fbind_def)
  qed (simp add: run fbind_def)
qed

section \<open>The hypotheses can hold\<close>

lemma example_dirent_laws: "dirent_laws example_env 4"
proof -
  have "unat (of_nat i :: u8) = i" if "i < 4" for i using that by (simp add: unat_of_nat take_bit_nat_eq_self)
  then show ?thesis by (simp add: dirent_laws_def example_env_def comp_def)
qed

lemma example_dirent_size [simp]: "dirent_size example_env = 5" "ninodes (sb example_files) = 4"
  by (simp_all add: example_env_def example_files_def example_state_def)

lemma example_entries [simp]: "entries example_env example_files (Suc 0) = 2"
  by (simp add: entries_def)

lemma example_dir: "dir_ok example_env example_files (Suc 0)"
proof -
  have "\<not> holes example_env example_files (Suc 0) 0 10" by (auto simp: holes_def example_slots)
  then show ?thesis
    using example_fs_laws example_dirent_laws example_ok(2) by (simp add: dir_ok_def T_DIR_def)
qed

lemma example_no_names: "dir_map example_env example_files (Suc 0) name = None"
proof -
  have "fst (entry example_env example_files (Suc 0) k) = 0" if "k < 2" for k
  proof -
    have "content example_env example_files (Suc 0) p = 0" if "p < 64" for p
      using that by (simp add: content_def example_slots) (simp add: example_env_def example_files_def)
    with that have "map (content example_env example_files (Suc 0)) [k * 5..<k * 5 + 5] = replicate 5 0"
      by (intro nth_equalityI) simp_all
    moreover have "fst (get_dirent example_env (replicate 5 0)) = 0" by (simp add: example_env_def hd_replicate)
    ultimately show ?thesis by (simp only: entry_def example_dirent_size)
  qed
  then show ?thesis by (auto simp: dir_map_def find_upt_None has_name_def)
qed

theorem dirlookup_refines_witness: "dirlookup example_env (Suc 0) ''init'' example_files = Inr (None, example_files)"
  using dirlookup_refines [OF example_dir, of "''init''"] by (simp add: example_no_names)

theorem dirlink_refines_witness:
  "case dirlink example_env 1 (Suc 0) ''init'' 3 example_files of
      Inl e \<Rightarrow> e = Panics ''balloc: out of blocks''
    | Inr (r, t) \<Rightarrow> r = 0 \<and> dir_map example_env t (Suc 0) ''init'' = Some 3 \<and> dir_map example_env t (Suc 0) ''sh'' = None"
proof -
  have "cut example_env ''sh'' \<noteq> cut example_env ''init''" by (simp add: cut_def example_env_def cstr_def)
  then show ?thesis
    using dirlink_refines [OF example_dir example_no_names, of 3 "''init''" 1] by (auto split: sum.splits simp: example_no_names)
qed

end
