(* ===== verification/FsTrunc.thy ===== *)
theory FsTrunc
  imports FsContent
begin

text \<open>
  Emptying a file: \<open>itrunc\<close> of \<open>fs.c\<close> gives back exactly the blocks of the file, the indirect block and those it lists
  included, and leaves a file of size 0.
\<close>

section \<open>Giving blocks back\<close>

text \<open>The state with the blocks \<open>B\<close> of a device free, too.\<close>

definition freed :: "'d env \<Rightarrow> nat \<Rightarrow> nat set \<Rightarrow> 'd fs \<Rightarrow> 'd fs \<Rightarrow> bool" where
  "freed E dev B s t \<longleftrightarrow> sb t = sb s \<and> free_blocks E dev t = free_blocks E dev s \<union> B \<and>
     (\<forall>d c. d \<noteq> dev \<or> \<not> is_bitmap E s c \<longrightarrow> rd E (disk t) d c = rd E (disk s) d c)"

lemma freedD:
  assumes "freed E dev B s t"
  shows "sb t = sb s" "free_blocks E dev t = free_blocks E dev s \<union> B"
    "d \<noteq> dev \<or> \<not> is_bitmap E s c \<Longrightarrow> rd E (disk t) d c = rd E (disk s) d c"
  using assms unfolding freed_def by blast+

lemma freed_none: "freed E dev {} s s"
  by (simp add: freed_def)

lemma freed_trans:
  assumes "freed E dev B s t" "freed E dev C t u"
  shows "freed E dev (B \<union> C) s u"
proof -
  note S = freedD [OF assms(1)] and T = freedD [OF assms(2)]
  have "is_bitmap E t = is_bitmap E s" using is_bitmap_sb [OF S(1)] .
  then have "rd E (disk u) d c = rd E (disk s) d c" if "d \<noteq> dev \<or> \<not> is_bitmap E s c" for d c
    using S(3) [OF that] T(3) [of d c] that by simp
  moreover have "free_blocks E dev u = free_blocks E dev s \<union> (B \<union> C)" by (simp only: S(2) T(2) Un_assoc)
  ultimately show ?thesis using S(1) T(1) by (simp add: freed_def)
qed

lemma freed_icache [simp]: "freed E dev B s (t\<lparr>icache := c\<rparr>) = freed E dev B s t"
proof -
  have "free_blocks E dev (t\<lparr>icache := c\<rparr>) = free_blocks E dev t" by (simp add: free_blocks_def used_def)
  then show ?thesis by (simp add: freed_def)
qed

text \<open>The superblock in memory is the one on disk, and no bitmap block.\<close>

definition super_ok :: "'d env \<Rightarrow> nat \<Rightarrow> 'd fs \<Rightarrow> bool" where
  "super_ok E dev s \<longleftrightarrow> disk_laws E \<and> bitmap_laws E \<and> get_sb E (rd E (disk s) dev 1) = sb s \<and> \<not> is_bitmap E s 1"

lemma super_freed: "super_ok E dev s \<Longrightarrow> freed E dev B s t \<Longrightarrow> super_ok E dev t"
  unfolding super_ok_def using freedD(1,3) is_bitmap_sb by metis

definition may_free :: "'d env \<Rightarrow> nat \<Rightarrow> 'd fs \<Rightarrow> nat set \<Rightarrow> bool" where
  "may_free E dev s B \<longleftrightarrow> super_ok E dev s \<and> B \<inter> free_blocks E dev s = {} \<and> (\<forall>b \<in> B. b < sb_size (sb s))"

lemma may_free_sub: "may_free E dev s C \<Longrightarrow> D \<subseteq> C \<Longrightarrow> may_free E dev s D"
  unfolding may_free_def by blast

lemma may_free_rest:
  assumes "may_free E dev s C" "freed E dev B s t" "B \<inter> D = {}" "D \<subseteq> C"
  shows "may_free E dev t D"
  using assms super_freed [OF _ assms(2)] freedD(1,2) [OF assms(2)] unfolding may_free_def by auto

lemma bfree_frees:
  assumes "may_free E dev s C" "b \<in> C"
  obtains t where "bfree E dev b s = Inr ((), t)" "icache t = icache s" "freed E dev {b} s t"
proof -
  have *: "disk_laws E" "bitmap_laws E" "get_sb E (rd E (disk s) dev 1) = sb s" "b < sb_size (sb s)" "b \<notin> free_blocks E dev s"
    using assms by (auto simp: may_free_def super_ok_def)
  from bfree_used [OF this] obtain t where t: "bfree E dev b s = Inr ((), t)" "free_blocks E dev t = insert b (free_blocks E dev s)"
    "sb t = sb s" "icache t = icache s"
    "\<And>d c. (d, c) \<noteq> (dev, BBLOCK E b (sb s)) \<Longrightarrow> rd E (disk t) d c = rd E (disk s) d c" by blast
  have "rd E (disk t) d c = rd E (disk s) d c" if "d \<noteq> dev \<or> \<not> is_bitmap E s c" for d c
    using that *(4) by (intro t(5)) (auto simp: is_bitmap_def)
  with t(2,3) have "freed E dev {b} s t" by (simp add: freed_def)
  with t(1,4) that show ?thesis by blast
qed

text \<open>The blocks an indirect block lists.\<close>

definition listed_blocks :: "'d env \<Rightarrow> u8 list \<Rightarrow> nat list \<Rightarrow> nat set" where
  "listed_blocks E data js = {get_addr E data j | j. j \<in> set js} - {0}"

lemma listed_Cons: "listed_blocks E data (j # js) =
    (if get_addr E data j = 0 then listed_blocks E data js else insert (get_addr E data j) (listed_blocks E data js))"
  by (auto simp: listed_blocks_def)

lemma free_listed_frees:
  assumes "may_free E dev s (listed_blocks E data js)" "distinct js"
    and "\<And>j k. j \<in> set js \<Longrightarrow> k \<in> set js \<Longrightarrow> get_addr E data j = get_addr E data k \<Longrightarrow> get_addr E data j \<noteq> 0 \<Longrightarrow> j = k"
  shows "\<exists>t. free_listed E dev data js s = Inr ((), t) \<and> icache t = icache s \<and> freed E dev (listed_blocks E data js) s t"
  using assms
proof (induction js arbitrary: s)
  case Nil
  then show ?case by (simp add: listed_blocks_def freed_none)
next
  case (Cons j js)
  show ?case
  proof (cases "get_addr E data j = 0")
    case True
    with Cons show ?thesis by (simp add: listed_Cons)
  next
    case False
    let ?b = "get_addr E data j"
    have b: "?b \<in> listed_blocks E data (j # js)" using False by (simp add: listed_Cons)
    from bfree_frees [OF Cons.prems(1) b] obtain u where
      u: "bfree E dev ?b s = Inr ((), u)" "icache u = icache s" "freed E dev {?b} s u" .
    have "?b \<notin> listed_blocks E data js"
      using Cons.prems(2,3) False unfolding listed_blocks_def by fastforce
    then have "may_free E dev u (listed_blocks E data js)"
      using may_free_rest [OF Cons.prems(1) u(3)] by (simp add: listed_Cons False) blast
    from Cons.IH [OF this] Cons.prems(2,3) obtain t where
      t: "free_listed E dev data js u = Inr ((), t)" "icache t = icache u" "freed E dev (listed_blocks E data js) u t" by auto
    have "freed E dev (listed_blocks E data (j # js)) s t"
      using freed_trans [OF u(3) t(3)] by (simp add: listed_Cons False)
    with u t(1,2) False show ?thesis by (simp add: fbind_def)
  qed
qed

text \<open>The direct blocks.\<close>

definition direct_blocks :: "nat list \<Rightarrow> nat list \<Rightarrow> nat set" where
  "direct_blocks ad ks = {ad ! k | k. k \<in> set ks} - {0}"

lemma direct_Cons: "direct_blocks ad (k # ks) = (if ad ! k = 0 then direct_blocks ad ks else insert (ad ! k) (direct_blocks ad ks))"
  by (auto simp: direct_blocks_def)

lemma direct_other: "k \<notin> set ks \<Longrightarrow> direct_blocks (ad[k := x]) ks = direct_blocks ad ks"
  unfolding direct_blocks_def by (metis (mono_tags, lifting) nth_list_update_neq)

definition cleared :: "nat list \<Rightarrow> nat list \<Rightarrow> nat list \<Rightarrow> bool" where
  "cleared ks ad ad' \<longleftrightarrow> length ad' = length ad \<and> (\<forall>k < length ad. ad' ! k = (if k \<in> set ks then 0 else ad ! k))"

lemma free_direct_frees:
  assumes "i < length (icache s)" "ad = addrs (icache s ! i)" "may_free E (i_dev (icache s ! i)) s (direct_blocks ad ks)"
    and "distinct ks" "\<forall>k \<in> set ks. k < length ad"
    and "\<And>j k. j \<in> set ks \<Longrightarrow> k \<in> set ks \<Longrightarrow> ad ! j = ad ! k \<Longrightarrow> ad ! j \<noteq> 0 \<Longrightarrow> j = k"
  shows "\<exists>t ad'. free_direct E i ks s = Inr ((), t) \<and> icache t = (icache s)[i := (icache s ! i)\<lparr>addrs := ad'\<rparr>] \<and>
    cleared ks ad ad' \<and> freed E (i_dev (icache s ! i)) (direct_blocks ad ks) s t"
  using assms
proof (induction ks arbitrary: s ad)
  case Nil
  then show ?case
    by (intro exI [of _ s] exI [of _ ad]) (simp add: direct_blocks_def freed_none cleared_def)
next
  case (Cons k ks)
  let ?ip = "icache s ! i" and ?b = "ad ! k"
  let ?dev = "i_dev ?ip"
  show ?case
  proof (cases "?b = 0")
    case True
    with Cons.IH [OF Cons.prems(1,2)] Cons.prems(3-6) obtain t ad' where
      t: "free_direct E i ks s = Inr ((), t)" "icache t = (icache s)[i := ?ip\<lparr>addrs := ad'\<rparr>]"
      "cleared ks ad ad'" "freed E ?dev (direct_blocks ad ks) s t" by (auto simp: direct_Cons)
    moreover have "cleared (k # ks) ad ad'" using t(3) True by (auto simp: cleared_def)
    ultimately show ?thesis using True Cons.prems(2) by (intro exI [of _ t] exI [of _ ad']) (simp add: direct_Cons)
  next
    case False
    have b: "?b \<in> direct_blocks ad (k # ks)" using False by (simp add: direct_Cons)
    from bfree_frees [OF Cons.prems(3) b] obtain u where
      u: "bfree E ?dev ?b s = Inr ((), u)" "icache u = icache s" "freed E ?dev {?b} s u" .
    let ?v = "u\<lparr>icache := (icache s)[i := ?ip\<lparr>addrs := ad[k := 0]\<rparr>]\<rparr>"
    have ip: "icache ?v ! i = ?ip\<lparr>addrs := ad[k := 0]\<rparr>" "i < length (icache ?v)" using Cons.prems(1) by simp_all
    have v: "freed E ?dev {?b} s ?v" using u(3) by simp
    have k: "k \<notin> set ks" using Cons.prems(4) by simp
    have "?b \<notin> direct_blocks ad ks" using Cons.prems(4,6) False unfolding direct_blocks_def by fastforce
    then have may: "may_free E ?dev ?v (direct_blocks (ad[k := 0]) ks)"
      unfolding direct_other [OF k] by (intro may_free_rest [OF Cons.prems(3) v]) (auto simp: direct_Cons False)
    have inj: "j = l" if "j \<in> set ks" "l \<in> set ks" "ad[k := 0] ! j = ad[k := 0] ! l" "ad[k := 0] ! j \<noteq> 0" for j l
      using that Cons.prems(6) [of j l] k by (metis list.set_intros(2) nth_list_update_neq)
    have "\<exists>t ad'. free_direct E i ks ?v = Inr ((), t) \<and> icache t = (icache ?v)[i := (icache ?v ! i)\<lparr>addrs := ad'\<rparr>] \<and>
        cleared ks (ad[k := 0]) ad' \<and> freed E (i_dev (icache ?v ! i)) (direct_blocks (ad[k := 0]) ks) ?v t"
      using may Cons.prems(1,4,5) inj by (intro Cons.IH) simp_all
    then obtain t ad' where t: "free_direct E i ks ?v = Inr ((), t)" "icache t = (icache s)[i := ?ip\<lparr>addrs := ad'\<rparr>]"
      "cleared ks (ad[k := 0]) ad'" "freed E ?dev (direct_blocks ad ks) ?v t"
      unfolding direct_other [OF k] ip(1) by auto
    have "cleared (k # ks) ad ad'" using t(3) k Cons.prems(5) by (auto simp: cleared_def nth_list_update)
    moreover have "freed E ?dev (direct_blocks ad (k # ks)) s t" using freed_trans [OF v t(4)] by (simp add: direct_Cons False)
    moreover have "free_direct E i (k # ks) s = free_direct E i ks ?v"
      using False u(1,2) Cons.prems(2) by (simp add: fbind_def)
    ultimately show ?thesis using t(1,2) by (intro exI [of _ t] exI [of _ ad']) simp
  qed
qed

section \<open>The blocks of a file\<close>

abbreviation indirect :: "'d env \<Rightarrow> 'd fs \<Rightarrow> nat \<Rightarrow> nat" where
  "indirect E s i \<equiv> addrs (icache s ! i) ! NDIRECT E"

abbreviation directs :: "'d env \<Rightarrow> 'd fs \<Rightarrow> nat \<Rightarrow> nat set" where
  "directs E s i \<equiv> direct_blocks (addrs (icache s ! i)) [0..<NDIRECT E]"

abbreviation listeds :: "'d env \<Rightarrow> 'd fs \<Rightarrow> nat \<Rightarrow> nat set" where
  "listeds E s i \<equiv> listed_blocks E (rd E (disk s) (i_dev (icache s ! i)) (indirect E s i)) [0..<NINDIRECT E]"

lemma direct_slot: "k < NDIRECT E \<Longrightarrow> addrs (icache s ! i) ! k = slot E s i k"
  by (simp add: slot_def Let_def)

lemma listed_slot: "indirect E s i \<noteq> 0 \<Longrightarrow> k < NINDIRECT E \<Longrightarrow>
    get_addr E (rd E (disk s) (i_dev (icache s ! i)) (indirect E s i)) k = slot E s i (NDIRECT E + k)"
  by (simp add: slot_def Let_def NB_def)

lemma slot_no_indirect: "indirect E s i = 0 \<Longrightarrow> NDIRECT E \<le> k \<Longrightarrow> slot E s i k = 0"
  by (simp add: slot_def Let_def)

lemma directs_iff: "b \<in> directs E s i \<longleftrightarrow> (\<exists>k < NDIRECT E. b = slot E s i k) \<and> b \<noteq> 0"
  using direct_slot [of _ E s i] unfolding direct_blocks_def by (auto intro: sym)

lemma listeds_iff:
  assumes "indirect E s i \<noteq> 0"
  shows "b \<in> listeds E s i \<longleftrightarrow> (\<exists>k < NINDIRECT E. b = slot E s i (NDIRECT E + k)) \<and> b \<noteq> 0"
  using listed_slot [OF assms] unfolding listed_blocks_def by (auto intro: sym)

lemma owned_parts: "owned E s i = directs E s i \<union> (if indirect E s i = 0 then {} else insert (indirect E s i) (listeds E s i))"
proof (intro set_eqI iffI)
  fix b assume "b \<in> owned E s i"
  then obtain k where k: "k \<le> NB E" "b = slot E s i k" "b \<noteq> 0" by (auto simp: owned_def)
  consider "k < NDIRECT E" | "NDIRECT E \<le> k" "k < NB E" | "k = NB E" using k(1) by linarith
  then show "b \<in> directs E s i \<union> (if indirect E s i = 0 then {} else insert (indirect E s i) (listeds E s i))"
  proof cases
    case 1
    with k have "b \<in> directs E s i" unfolding directs_iff by blast
    then show ?thesis by simp
  next
    case 2
    with k(2,3) slot_no_indirect [of s i E k] have ind: "indirect E s i \<noteq> 0" by auto
    have "k - NDIRECT E < NINDIRECT E" "k = NDIRECT E + (k - NDIRECT E)" using 2 by (simp_all add: NB_def)
    with k(2,3) have "b \<in> listeds E s i" unfolding listeds_iff [OF ind] by metis
    with ind show ?thesis by simp
  next
    case 3
    with k show ?thesis by (simp add: slot_NB)
  qed
next
  fix b assume b: "b \<in> directs E s i \<union> (if indirect E s i = 0 then {} else insert (indirect E s i) (listeds E s i))"
  have "b \<in> directs E s i \<Longrightarrow> b \<in> owned E s i" unfolding directs_iff owned_def by (auto simp: NB_def intro: less_imp_le trans_le_add1)
  moreover have "indirect E s i \<noteq> 0 \<Longrightarrow> b = indirect E s i \<Longrightarrow> b \<in> owned E s i"
    using ownedI [of "NB E" E s i] by (simp add: slot_NB)
  moreover have "indirect E s i \<noteq> 0 \<Longrightarrow> b \<in> listeds E s i \<Longrightarrow> b \<in> owned E s i"
    unfolding owned_def by (auto simp: listeds_iff NB_def)
  ultimately show "b \<in> owned E s i" using b by (auto split: if_splits)
qed

lemma parts_disjoint:
  assumes "file_ok E s i" "indirect E s i \<noteq> 0"
  shows "directs E s i \<inter> listeds E s i = {}" "indirect E s i \<notin> directs E s i" "indirect E s i \<notin> listeds E s i"
proof -
  note inj = file_okD(5) [OF assms(1)] and nb = slot_NB [of E s i]
  have "b \<notin> listeds E s i" if d: "b \<in> directs E s i" for b
  proof
    assume l: "b \<in> listeds E s i"
    from d [unfolded directs_iff] l [unfolded listeds_iff [OF assms(2)]] obtain k j where
      kj: "k < NDIRECT E" "b = slot E s i k" "b \<noteq> 0" "j < NINDIRECT E" "b = slot E s i (NDIRECT E + j)" by blast
    with inj [of k "NDIRECT E + j"] show False by (simp add: NB_def)
  qed
  then show "directs E s i \<inter> listeds E s i = {}" by blast
  show "indirect E s i \<notin> directs E s i"
  proof
    assume "indirect E s i \<in> directs E s i"
    then obtain k where "k < NDIRECT E" "slot E s i (NB E) = slot E s i k" unfolding directs_iff nb by blast
    with inj [of "NB E" k] assms(2) nb show False by (simp add: NB_def)
  qed
  show "indirect E s i \<notin> listeds E s i"
  proof
    assume "indirect E s i \<in> listeds E s i"
    then obtain k where "k < NINDIRECT E" "slot E s i (NB E) = slot E s i (NDIRECT E + k)" unfolding listeds_iff [OF assms(2)] nb by blast
    with inj [of "NB E" "NDIRECT E + k"] assms(2) nb show False by (simp add: NB_def)
  qed
qed

section \<open>itrunc\<close>

definition can_empty :: "'d env \<Rightarrow> 'd fs \<Rightarrow> nat \<Rightarrow> bool" where
  "can_empty E s i \<longleftrightarrow> fs_laws E s \<and> file_ok E s i \<and> super_ok E (i_dev (icache s ! i)) s \<and>
     (\<forall>b \<in> owned E s i. b < sb_size (sb s))"

lemma can_empty_may_free: "can_empty E s i \<Longrightarrow> may_free E (i_dev (icache s ! i)) s (owned E s i)"
  using file_okD(6) unfolding can_empty_def may_free_def by blast

text \<open>The second half of \<open>itrunc\<close>: the indirect block and what it lists.\<close>

lemma free_indirect:
  assumes "can_empty E s i" "freed E (i_dev (icache s ! i)) (directs E s i) s t"
    and "indirect E s i \<noteq> 0" "dev = i_dev (icache s ! i)" "data = rd E (disk t) dev (indirect E s i)"
  shows "\<exists>u. fbind (free_listed E dev data [0..<NINDIRECT E]) (\<lambda>_. bfree E dev (indirect E s i)) t = Inr ((), u) \<and>
    icache u = icache t \<and> freed E dev (owned E s i) s u"
proof -
  note may = can_empty_may_free [OF assms(1)] and ok = assms(1) [unfolded can_empty_def] and ind = assms(3)
  note P = owned_parts [of E s i] and dis = parts_disjoint [OF _ ind] and dev = assms(4)
  have fo: "file_ok E s i" using ok by simp
  have iown: "indirect E s i \<in> owned E s i" using P ind by simp
  have data: "data = rd E (disk s) dev (indirect E s i)"
    using freedD(3) [OF assms(2)] file_okD(7) [OF fo iown] by (simp add: assms(5))
  let ?L = "listed_blocks E data [0..<NINDIRECT E]"
  have L: "?L = listeds E s i" by (simp only: data dev)
  have inj: "j = k" if "j \<in> set [0..<NINDIRECT E]" "k \<in> set [0..<NINDIRECT E]" "get_addr E data j = get_addr E data k" "get_addr E data j \<noteq> 0" for j k
    using that listed_slot [OF ind, of j] listed_slot [OF ind, of k] file_okD(5) [OF fo, of "NDIRECT E + j" "NDIRECT E + k"]
    by (simp add: data dev NB_def)
  have ow: "directs E s i \<union> insert (indirect E s i) ?L = owned E s i" using P ind by (simp only: L if_False)
  then have sub: "insert (indirect E s i) ?L \<subseteq> owned E s i" by blast
  have "directs E s i \<inter> insert (indirect E s i) ?L = {}" unfolding L using dis(1,2) [OF fo] by blast
  from may_free_rest [OF may assms(2) this sub] have mi: "may_free E dev t (insert (indirect E s i) ?L)" unfolding dev .
  then have rest: "may_free E dev t ?L" by (rule may_free_sub) blast
  obtain v where v: "free_listed E dev data [0..<NINDIRECT E] t = Inr ((), v)" "icache v = icache t" "freed E dev ?L t v"
    using free_listed_frees [OF rest distinct_upt inj] by blast
  have "?L \<inter> {indirect E s i} = {}" unfolding L using dis(3) [OF fo] by blast
  from may_free_rest [OF mi v(3) this] have "may_free E dev v {indirect E s i}" by simp
  from bfree_frees [OF this singletonI] obtain u where
    u: "bfree E dev (indirect E s i) v = Inr ((), u)" "icache u = icache v" "freed E dev {indirect E s i} v u" .
  have "directs E s i \<union> (?L \<union> {indirect E s i}) = owned E s i" using ow by simp
  with freed_trans [OF assms(2) [folded dev] freed_trans [OF v(3) u(3)]] have "freed E dev (owned E s i) s u" by simp
  with v(1,2) u(1,2) show ?thesis by (simp add: fbind_def)
qed

lemma itrunc_run:
  assumes "can_empty E s i"
  shows "\<exists>w ad. itrunc E i s = Inr ((), resized E i 0 w) \<and> icache w = (icache s)[i := (icache s ! i)\<lparr>addrs := ad\<rparr>] \<and>
    length ad = NDIRECT E + 1 \<and> (\<forall>k \<le> NDIRECT E. ad ! k = 0) \<and> freed E (i_dev (icache s ! i)) (owned E s i) s w"
proof -
  let ?ip = "icache s ! i" and ?ad = "addrs (icache s ! i)"
  let ?dev = "i_dev ?ip"
  note may = can_empty_may_free [OF assms] and ok = assms [unfolded can_empty_def] and P = owned_parts [of E s i]
  have fo: "file_ok E s i" using ok by simp
  note S = file_okD [OF fo]
  have sub: "may_free E ?dev s (directs E s i)" using P by (intro may_free_sub [OF may]) blast
  have inj: "j = k" if "j \<in> set [0..<NDIRECT E]" "k \<in> set [0..<NDIRECT E]" "?ad ! j = ?ad ! k" "?ad ! j \<noteq> 0" for j k
    using that S(5) [of j k] by (simp add: direct_slot NB_def)
  have lt: "\<forall>k \<in> set [0..<NDIRECT E]. k < length ?ad" using S(2) by simp
  obtain t ad where t: "free_direct E i [0..<NDIRECT E] s = Inr ((), t)" "icache t = (icache s)[i := ?ip\<lparr>addrs := ad\<rparr>]"
    "cleared [0..<NDIRECT E] ?ad ad" "freed E ?dev (directs E s i) s t"
    using free_direct_frees [OF S(1) refl sub distinct_upt lt inj] by blast
  have ad: "length ad = NDIRECT E + 1" "ad ! NDIRECT E = ?ad ! NDIRECT E" "\<And>k. k < NDIRECT E \<Longrightarrow> ad ! k = 0"
    using t(3) S(2) by (auto simp: cleared_def)
  have ip: "icache t ! i = ?ip\<lparr>addrs := ad\<rparr>" "i < length (icache t)" using S(1) by (simp_all add: t(2))
  let ?fin = "fbind (set_ino i (\<lambda>ip. ip\<lparr>isize := 0\<rparr>)) (\<lambda>_. iupdate E i)"
  have fin: "i < length (icache w) \<Longrightarrow> ?fin w = Inr ((), resized E i 0 w)" for w
    by (simp add: iupdate_def resized_def Let_def)
  show ?thesis
  proof (cases "indirect E s i = 0")
    case True
    have "itrunc E i s = ?fin t" using t(1) True by (simp add: itrunc_def fbind_def ip ad(2))
    moreover have "ad ! k = 0" if "k \<le> NDIRECT E" for k using ad that True by (cases "k = NDIRECT E") simp_all
    ultimately show ?thesis using fin [OF ip(2)] t(2,4) ad(1) P True by auto
  next
    case False
    from free_indirect [OF assms t(4) False refl refl] obtain u where
      u: "fbind (free_listed E ?dev (rd E (disk t) ?dev (indirect E s i)) [0..<NINDIRECT E]) (\<lambda>_. bfree E ?dev (indirect E s i)) t = Inr ((), u)"
      "icache u = icache t" "freed E ?dev (owned E s i) s u" by blast
    let ?w = "u\<lparr>icache := (icache s)[i := ?ip\<lparr>addrs := ad[NDIRECT E := 0]\<rparr>]\<rparr>"
    have "itrunc E i s = ?fin ?w"
      using t(1) u(1) False S(1) by (auto simp: itrunc_def fbind_def ip ad(2) u(2) t(2) split: sum.splits)
    moreover have "(ad[NDIRECT E := 0]) ! k = 0" if "k \<le> NDIRECT E" for k
      using ad(1,3) that by (cases "k = NDIRECT E") simp_all
    moreover have "freed E ?dev (owned E s i) s ?w" using u(3) by simp
    moreover have "i < length (icache ?w)" using S(1) by simp
    ultimately show ?thesis using fin [of ?w] ad(1)
      by (intro exI [of _ ?w] exI [of _ "ad[NDIRECT E := 0]"]) simp
  qed
qed

lemma freed_empty:
  assumes "can_empty E s i" "icache w = (icache s)[i := (icache s ! i)\<lparr>addrs := ad\<rparr>]" "length ad = NDIRECT E + 1"
    and "\<forall>k \<le> NDIRECT E. ad ! k = 0" "freed E (i_dev (icache s ! i)) (owned E s i) s w"
  shows "slot E w i k = 0" "owned E w i = {}" "file_ok E w i" "fs_laws E w" "free_of E w i = free_of E s i \<union> owned E s i"
    "icache w ! i = (icache s ! i)\<lparr>addrs := ad\<rparr>"
proof -
  have ok: "fs_laws E s" "file_ok E s i" using assms(1) by (simp_all add: can_empty_def)
  note S = file_okD [OF ok(2)] and F = freedD [OF assms(5)]
  show ip: "icache w ! i = (icache s ! i)\<lparr>addrs := ad\<rparr>" using S(1) assms(2) by simp
  have z: "slot E w i k = 0" for k using assms(4) by (simp add: slot_def Let_def ip)
  then show "slot E w i k = 0" .
  have ow: "owned E w i = {}" by (auto simp: owned_def z)
  then show "owned E w i = {}" .
  show "fs_laws E w" using ok(1) F(1) by (simp add: fs_laws_def)
  show free: "free_of E w i = free_of E s i \<union> owned E s i" using F(2) by (simp add: ip)
  have "bitmap_used E (i_dev (icache s ! i)) w"
  proof -
    have "is_bitmap E s (BBLOCK E b (sb s))" if "b < sb_size (sb s)" for b using that by (auto simp: is_bitmap_def)
    with S(3,7) F(1,2) show ?thesis unfolding bitmap_used_def by auto
  qed
  moreover have "0 \<notin> free_of E s i \<union> owned E s i" using S(4) by (simp add: owned_def)
  moreover have "iblock E w i = iblock E s i" by (simp add: ip F(1))
  ultimately show "file_ok E w i"
    using S(1,8-10) assms(2,3) F(2) is_bitmap_sb [OF F(1)] unfolding file_ok_def ow z by (simp add: ip)
qed

text \<open>C9. \<open>itrunc\<close> gives back exactly what the file owns: it returns, the direct blocks, the indirect block and the
  blocks listed there become free and no other block does, the file is then of size 0, owns nothing and reads as
  zeros, and the content of every other file is as before.\<close>

theorem itrunc_empties:
  assumes "can_empty E s i"
  shows "\<exists>t. itrunc E i s = Inr ((), t) \<and> free_blocks E (i_dev (icache s ! i)) t = free_of E s i \<union> owned E s i \<and> owned E t i = {} \<and> file_ok E t i \<and>
    isize (icache t ! i) = 0 \<and> content E t i = (\<lambda>_. 0) \<and>
    (\<forall>j. file_ok E s j \<and> apart E s i j \<longrightarrow> content E t j = content E s j \<and> icache t ! j = icache s ! j)"
proof -
  let ?dev = "i_dev (icache s ! i)"
  have ok: "fs_laws E s" "file_ok E s i" using assms by (simp_all add: can_empty_def)
  obtain w ad where w: "itrunc E i s = Inr ((), resized E i 0 w)" "icache w = (icache s)[i := (icache s ! i)\<lparr>addrs := ad\<rparr>]"
    "length ad = NDIRECT E + 1" "\<forall>k \<le> NDIRECT E. ad ! k = 0" "freed E ?dev (owned E s i) s w"
    using itrunc_run [OF assms] by blast
  note W = freed_empty [OF assms w(2-5)] and F = freedD [OF w(5)]
  let ?t = "resized E i 0 w"
  note V = resized_ok [OF W(4,3)]
  have i: "i < length (icache w)" using file_okD(1) [OF W(3)] .
  have ip: "icache ?t ! i = (icache s ! i)\<lparr>addrs := ad, isize := 0\<rparr>" using i by (simp add: V(5) W(6))
  have owned: "owned E ?t i = {}" using V(4) W(1) by (auto simp: owned_def)
  have "content E ?t i = (\<lambda>_. 0)" unfolding V(2) by (rule ext) (simp add: content_def W(1))
  moreover have "free_blocks E ?dev ?t = free_of E s i \<union> owned E s i"
  proof -
    have "rd E (disk ?t) ?dev c = rd E (disk w) ?dev c" if "is_bitmap E w c" for c
      using V(6) [of ?dev c] file_okD(10) [OF W(3)] that by (auto simp: W(6))
    then have "free_blocks E ?dev ?t = free_blocks E ?dev w"
      by (intro free_blocks_cong) (simp_all add: resized_def Let_def)
    with W(5,6) show ?thesis by simp
  qed
  moreover have "content E ?t j = content E s j \<and> icache ?t ! j = icache s ! j" if j: "file_ok E s j" "apart E s i j" for j
  proof -
    have ij: "j \<noteq> i" using j(2) by (auto simp: apart_def)
    then have jp: "icache ?t ! j = icache s ! j" by (simp add: V(5) w(2))
    have "rd E (disk ?t) (i_dev (icache s ! j)) c = rd E (disk s) (i_dev (icache s ! j)) c" if c: "c \<in> owned E s j" for c
    proof -
      have "i_dev (icache s ! j) \<noteq> i_dev (icache w ! i) \<or> c \<noteq> iblock E w i"
        using j(2) c by (auto simp: apart_def W(6) F(1))
      from V(6) [OF this] F(3) [of _ c] file_okD(7) [OF j(1) c] show ?thesis by simp
    qed
    from content_cong [OF jp fs_lawsD(4) [OF ok(1)] this] jp show ?thesis by simp
  qed
  ultimately show ?thesis using w(1) owned V(1) ip by (intro exI [of _ ?t]) simp
qed

section \<open>The hypotheses can hold\<close>

lemma example_can_empty: "can_empty example_env example_files 0"
proof -
  have "get_sb example_env x = sb example_files" for x by (simp add: example_env_def example_files_def example_state_def)
  moreover have "\<not> is_bitmap example_env example_files (Suc 0)" by (auto simp: is_bitmap_def)
  ultimately show ?thesis
    using example_fs_laws example_ok(1) example_disk_laws example_bitmap_laws
    by (simp add: can_empty_def super_ok_def example_owned)
qed

theorem itrunc_empties_witness:
  "\<exists>t. itrunc example_env 0 example_files = Inr ((), t) \<and>
    free_blocks example_env 1 t = insert 6 (free_blocks example_env 1 example_files) \<and> isize (icache t ! 0) = 0 \<and>
    content example_env t 1 = content example_env example_files 1"
proof -
  obtain t where t: "itrunc example_env 0 example_files = Inr ((), t)"
    "free_blocks example_env (i_dev (icache example_files ! 0)) t = free_of example_env example_files 0 \<union> owned example_env example_files 0" "isize (icache t ! 0) = 0"
    "\<forall>j. file_ok example_env example_files j \<and> apart example_env example_files 0 j \<longrightarrow>
      content example_env t j = content example_env example_files j \<and> icache t ! j = icache example_files ! j"
    "owned example_env t 0 = {}"
    using itrunc_empties [OF example_can_empty] by blast
  then show ?thesis using example_ok(2) example_apart by (auto simp: example_owned)
qed

end
