(* ===== verification/Paging.thy ===== *)
theory Paging
  imports FsInode
begin

unbundle bit_operations_syntax

text \<open>
  \<open>vm.c\<close>: page tables in a byte memory. The headers \<open>mmu.h\<close> and \<open>memlayout.h\<close> and the page allocator
  \<open>kalloc.c\<close> are not in the repository: their macros, constants and functions are fields of the parameter
  \<open>mmu\<close>. Addresses are 32-bit words; a null pointer is address 0.
\<close>

section \<open>Memory\<close>

type_synonym bytes = "u32 \<Rightarrow> u8"

text \<open>The 32-bit word at an address, least significant byte first.\<close>

definition ld32 :: "bytes \<Rightarrow> u32 \<Rightarrow> u32" where
  "ld32 m a = ucast (m a) OR push_bit 8 (ucast (m (a + 1))) OR push_bit 16 (ucast (m (a + 2))) OR push_bit 24 (ucast (m (a + 3)))"

definition st32 :: "bytes \<Rightarrow> u32 \<Rightarrow> u32 \<Rightarrow> bytes" where
  "st32 m a w = m(a := ucast w, a + 1 := ucast (drop_bit 8 w), a + 2 := ucast (drop_bit 16 w), a + 3 := ucast (drop_bit 24 w))"

text \<open>\<open>memmove\<close> from a buffer of the kernel, and \<open>memset\<close>.\<close>

fun put_bytes :: "bytes \<Rightarrow> u32 \<Rightarrow> u8 list \<Rightarrow> bytes" where
  "put_bytes m a [] = m"
| "put_bytes m a (x # xs) = put_bytes (m(a := x)) (a + 1) xs"

definition get_bytes :: "bytes \<Rightarrow> u32 \<Rightarrow> nat \<Rightarrow> u8 list" where
  "get_bytes m a n = map (\<lambda>k. m (a + of_nat k)) [0..<n]"

section \<open>The machine\<close>

record 'k mmu =
  PGSIZE :: u32
  PDX :: "u32 \<Rightarrow> u32"
  PTX :: "u32 \<Rightarrow> u32"
  PTE_ADDR :: "u32 \<Rightarrow> u32"
  PTE_FLAGS :: "u32 \<Rightarrow> u32"
  PTE_P :: u32
  PTE_W :: u32
  PTE_U :: u32
  PGROUNDUP :: "u32 \<Rightarrow> u32"
  PGROUNDDOWN :: "u32 \<Rightarrow> u32"
  PGADDR :: "u32 \<Rightarrow> u32 \<Rightarrow> u32 \<Rightarrow> u32"
  NPDENTRIES :: nat
  KBASE :: u32
  P2V :: "u32 \<Rightarrow> u32"
  V2P :: "u32 \<Rightarrow> u32"
  KERNLINK :: u32
  EXTMEM :: u32
  PHYSTOP :: u32
  DEVSPACE :: u32
  data_start :: u32
  SEG :: "u32 \<Rightarrow> u32 \<Rightarrow> u32 \<Rightarrow> u32 \<Rightarrow> 64 word"
  SEG16 :: "u32 \<Rightarrow> u32 \<Rightarrow> u32 \<Rightarrow> u32 \<Rightarrow> 64 word"
  clear_s :: "64 word \<Rightarrow> 64 word"
  STA_X :: u32
  STA_R :: u32
  STA_W :: u32
  STS_T32A :: u32
  DPL_USER :: u32
  SEG_KCODE :: nat
  SEG_KDATA :: nat
  SEG_UCODE :: nat
  SEG_UDATA :: nat
  SEG_TSS :: nat
  ts_addr :: u32
  ts_size :: u32
  kalloc_page :: "'k \<Rightarrow> bytes \<Rightarrow> u32 \<times> 'k \<times> bytes"
  kfree_page :: "u32 \<Rightarrow> 'k \<Rightarrow> bytes \<Rightarrow> 'k \<times> bytes"

text \<open>The state: memory, allocator, the file system, and of the CPU what the code sets.\<close>

record ('d, 'k) kern =
  mem :: bytes
  heap :: 'k
  fsys :: "'d fs"
  kpgdir :: u32
  cpus :: cpu_state
  gdt :: "nat \<Rightarrow> 64 word"
  gdtr :: "nat \<Rightarrow> 64 word"
  ss0 :: u32
  esp0 :: u32
  iomb :: u32
  tr :: u32
  cr3 :: u32

type_synonym ('d, 'k, 'a) vmm = "(('d, 'k) kern, 'a) km"

definition load :: "u32 \<Rightarrow> ('d, 'k, u32) vmm" where
  "load a = fget (\<lambda>s. ld32 (mem s) a)"

definition store :: "u32 \<Rightarrow> u32 \<Rightarrow> ('d, 'k, unit) vmm" where
  "store a w = fmod (\<lambda>s. s\<lparr>mem := st32 (mem s) a w\<rparr>)"

definition poke :: "u32 \<Rightarrow> u8 list \<Rightarrow> ('d, 'k, unit) vmm" where
  "poke a xs = fmod (\<lambda>s. s\<lparr>mem := put_bytes (mem s) a xs\<rparr>)"

definition zero_page :: "'k mmu \<Rightarrow> u32 \<Rightarrow> ('d, 'k, unit) vmm" where
  "zero_page M a = poke a (replicate (unat (PGSIZE M)) 0)"

definition kalloc :: "'k mmu \<Rightarrow> ('d, 'k, u32) vmm" where
  "kalloc M s = (let (v, h, m) = kalloc_page M (heap s) (mem s) in Inr (v, s\<lparr>heap := h, mem := m\<rparr>))"

definition kfree :: "'k mmu \<Rightarrow> u32 \<Rightarrow> ('d, 'k, unit) vmm" where
  "kfree M v = fmod (\<lambda>s. let (h, m) = kfree_page M v (heap s) (mem s) in s\<lparr>heap := h, mem := m\<rparr>)"

text \<open>A file system operation inside the kernel.\<close>

definition on_fs :: "('d, 'a) fsm \<Rightarrow> ('d, 'k, 'a) vmm" where
  "on_fs f s = (case f (fsys s) of Inl e \<Rightarrow> Inl e | Inr (x, t) \<Rightarrow> Inr (x, s\<lparr>fsys := t\<rparr>))"

lemma vm_simps [simp]:
  "load a s = Inr (ld32 (mem s) a, s)"
  "store a w s = Inr ((), s\<lparr>mem := st32 (mem s) a w\<rparr>)"
  "poke a xs s = Inr ((), s\<lparr>mem := put_bytes (mem s) a xs\<rparr>)"
  "zero_page M a s = Inr ((), s\<lparr>mem := put_bytes (mem s) a (replicate (unat (PGSIZE M)) 0)\<rparr>)"
  by (simp_all add: load_def store_def poke_def zero_page_def)

section \<open>Page tables\<close>

definition walkpgdir :: "'k mmu \<Rightarrow> u32 \<Rightarrow> u32 \<Rightarrow> bool \<Rightarrow> ('d, 'k, u32) vmm" where
  "walkpgdir M pgdir va alloc =
     (let pde = pgdir + 4 * PDX M va in
      fbind (load pde) (\<lambda>e.
        if e AND PTE_P M \<noteq> 0 then fret (P2V M (PTE_ADDR M e) + 4 * PTX M va)
        else if \<not> alloc then fret 0
        else
          fbind (kalloc M) (\<lambda>pgtab.
            if pgtab = 0 then fret 0
            else
              fbind (zero_page M pgtab) (\<lambda>_.
              fbind (store pde (V2P M pgtab OR PTE_P M OR PTE_W M OR PTE_U M)) (\<lambda>_.
              fret (pgtab + 4 * PTX M va))))))"

text \<open>The loop of \<open>mappages\<close>: as much fuel as there are pages from \<open>a\<close> to \<open>last\<close>.\<close>

fun map_loop :: "nat \<Rightarrow> 'k mmu \<Rightarrow> u32 \<Rightarrow> u32 \<Rightarrow> u32 \<Rightarrow> u32 \<Rightarrow> u32 \<Rightarrow> ('d, 'k, int) vmm" where
  "map_loop 0 M pgdir a lst pa perm = fail Runs_on"
| "map_loop (Suc n) M pgdir a lst pa perm =
     fbind (walkpgdir M pgdir a True) (\<lambda>pte.
       if pte = 0 then fret (- 1)
       else
         fbind (load pte) (\<lambda>e.
           if e AND PTE_P M \<noteq> 0 then fail (Panics ''remap'')
           else
             fbind (store pte (pa OR perm OR PTE_P M)) (\<lambda>_.
               if a = lst then fret 0
               else map_loop n M pgdir (a + PGSIZE M) lst (pa + PGSIZE M) perm)))"

definition mappages :: "'k mmu \<Rightarrow> u32 \<Rightarrow> u32 \<Rightarrow> u32 \<Rightarrow> u32 \<Rightarrow> u32 \<Rightarrow> ('d, 'k, int) vmm" where
  "mappages M pgdir va sz pa perm =
     (let a = PGROUNDDOWN M va; lst = PGROUNDDOWN M (va + sz - 1)
      in map_loop (unat (lst - a) div unat (PGSIZE M) + 1) M pgdir a lst pa perm)"

text \<open>The loop of \<open>deallocuvm\<close>: where a page table is missing it goes on at the next one.\<close>

fun dealloc_loop :: "nat \<Rightarrow> 'k mmu \<Rightarrow> u32 \<Rightarrow> u32 \<Rightarrow> u32 \<Rightarrow> ('d, 'k, unit) vmm" where
  "dealloc_loop n M pgdir a oldsz =
     (if \<not> a < oldsz then fret ()
      else
        (case n of
           0 \<Rightarrow> fail Runs_on
         | Suc k \<Rightarrow>
             fbind (walkpgdir M pgdir a False) (\<lambda>pte.
               if pte = 0 then dealloc_loop k M pgdir (PGADDR M (PDX M a + 1) 0 0 - PGSIZE M + PGSIZE M) oldsz
               else
                 fbind (load pte) (\<lambda>e.
                   if e AND PTE_P M \<noteq> 0 then
                     (if PTE_ADDR M e = 0 then fail (Panics ''kfree'')
                      else
                        fbind (kfree M (P2V M (PTE_ADDR M e))) (\<lambda>_.
                        fbind (store pte 0) (\<lambda>_.
                        dealloc_loop k M pgdir (a + PGSIZE M) oldsz)))
                   else dealloc_loop k M pgdir (a + PGSIZE M) oldsz))))"

declare dealloc_loop.simps [simp del]

definition rounds_for :: "'k mmu \<Rightarrow> u32 \<Rightarrow> nat" where
  "rounds_for M sz = unat sz div unat (PGSIZE M) + 1"

definition deallocuvm :: "'k mmu \<Rightarrow> u32 \<Rightarrow> u32 \<Rightarrow> u32 \<Rightarrow> ('d, 'k, u32) vmm" where
  "deallocuvm M pgdir oldsz newsz =
     (if newsz \<ge> oldsz then fret oldsz
      else fbind (dealloc_loop (rounds_for M oldsz) M pgdir (PGROUNDUP M newsz) oldsz) (\<lambda>_. fret newsz))"

fun free_tables :: "'k mmu \<Rightarrow> u32 \<Rightarrow> nat list \<Rightarrow> ('d, 'k, unit) vmm" where
  "free_tables M pgdir [] = fret ()"
| "free_tables M pgdir (i # ks) =
     fbind (load (pgdir + 4 * of_nat i)) (\<lambda>e.
       if e AND PTE_P M \<noteq> 0 then fbind (kfree M (P2V M (PTE_ADDR M e))) (\<lambda>_. free_tables M pgdir ks)
       else free_tables M pgdir ks)"

definition freevm :: "'k mmu \<Rightarrow> u32 \<Rightarrow> ('d, 'k, unit) vmm" where
  "freevm M pgdir =
     (if pgdir = 0 then fail (Panics ''freevm: no pgdir'')
      else
        fbind (deallocuvm M pgdir (KBASE M) 0) (\<lambda>_.
        fbind (free_tables M pgdir [0..<NPDENTRIES M]) (\<lambda>_.
        kfree M pgdir)))"

section \<open>The kernel's mappings\<close>

record kmap_entry =
  virt :: u32
  phys_start :: u32
  phys_end :: u32
  perm :: u32

definition kmap :: "'k mmu \<Rightarrow> kmap_entry list" where
  "kmap M =
     [\<lparr>virt = KBASE M, phys_start = 0, phys_end = EXTMEM M, perm = PTE_W M\<rparr>,
      \<lparr>virt = KERNLINK M, phys_start = V2P M (KERNLINK M), phys_end = V2P M (data_start M), perm = 0\<rparr>,
      \<lparr>virt = data_start M, phys_start = V2P M (data_start M), phys_end = PHYSTOP M, perm = PTE_W M\<rparr>,
      \<lparr>virt = DEVSPACE M, phys_start = DEVSPACE M, phys_end = 0, perm = PTE_W M\<rparr>]"

fun map_kernel :: "'k mmu \<Rightarrow> u32 \<Rightarrow> kmap_entry list \<Rightarrow> ('d, 'k, u32) vmm" where
  "map_kernel M pgdir [] = fret pgdir"
| "map_kernel M pgdir (k # ks) =
     fbind (mappages M pgdir (virt k) (phys_end k - phys_start k) (phys_start k) (perm k)) (\<lambda>r.
       if r < 0 then fbind (freevm M pgdir) (\<lambda>_. fret 0) else map_kernel M pgdir ks)"

definition setupkvm :: "'k mmu \<Rightarrow> ('d, 'k, u32) vmm" where
  "setupkvm M =
     fbind (kalloc M) (\<lambda>pgdir.
       if pgdir = 0 then fret 0
       else
         fbind (zero_page M pgdir) (\<lambda>_.
           if P2V M (PHYSTOP M) > DEVSPACE M then fail (Panics ''PHYSTOP too high'')
           else map_kernel M pgdir (kmap M)))"

definition switchkvm :: "'k mmu \<Rightarrow> ('d, 'k, unit) vmm" where
  "switchkvm M = fmod (\<lambda>s. s\<lparr>cr3 := V2P M (kpgdir s)\<rparr>)"

definition kvmalloc :: "'k mmu \<Rightarrow> ('d, 'k, unit) vmm" where
  "kvmalloc M = fbind (setupkvm M) (\<lambda>p. fbind (fmod (\<lambda>s. s\<lparr>kpgdir := p\<rparr>)) (\<lambda>_. switchkvm M))"

section \<open>Segments and address spaces\<close>

definition seginit :: "'k mmu \<Rightarrow> ('d, 'k, unit) vmm" where
  "seginit M =
     fbind (fmod (\<lambda>s. s\<lparr>gdt := (gdt s)
       (SEG_KCODE M := SEG M (STA_X M OR STA_R M) 0 0xffffffff 0,
        SEG_KDATA M := SEG M (STA_W M) 0 0xffffffff 0,
        SEG_UCODE M := SEG M (STA_X M OR STA_R M) 0 0xffffffff (DPL_USER M),
        SEG_UDATA M := SEG M (STA_W M) 0 0xffffffff (DPL_USER M))\<rparr>)) (\<lambda>_.
     fmod (\<lambda>s. s\<lparr>gdtr := gdt s\<rparr>))"

text \<open>Of a process: the page directory, the kernel stack, the size, and what \<open>exec\<close> sets of its trap frame.\<close>

record proc =
  pgdir_of :: u32
  kstack :: u32
  p_sz :: u32
  p_name :: string
  eip :: u32
  esp :: u32

definition on_cpu :: "(cpu_state \<Rightarrow> cpu_state kres) \<Rightarrow> ('d, 'k, unit) vmm" where
  "on_cpu f s = (case f (cpus s) of Inl (Panic msg) \<Rightarrow> Inl (Panics msg) | Inr c \<Rightarrow> Inr ((), s\<lparr>cpus := c\<rparr>))"

definition KSTACKSIZE :: u32 where "KSTACKSIZE = 4096"

definition switchuvm :: "'k mmu \<Rightarrow> proc option \<Rightarrow> ('d, 'k, unit) vmm" where
  "switchuvm M pr =
     (case pr of
        None \<Rightarrow> fail (Panics ''switchuvm: no process'')
      | Some p \<Rightarrow>
          if kstack p = 0 then fail (Panics ''switchuvm: no kstack'')
          else if pgdir_of p = 0 then fail (Panics ''switchuvm: no pgdir'')
          else
            fbind (on_cpu (\<lambda>c. Inr (pushcli c))) (\<lambda>_.
            fbind (fmod (\<lambda>s. s\<lparr>gdt := (gdt s)(SEG_TSS M := clear_s M (SEG16 M (STS_T32A M) (ts_addr M) (ts_size M - 1) 0)),
               ss0 := push_bit 3 (of_nat (SEG_KDATA M)), esp0 := kstack p + KSTACKSIZE, iomb := 0xFFFF,
               tr := push_bit 3 (of_nat (SEG_TSS M)), cr3 := V2P M (pgdir_of p)\<rparr>)) (\<lambda>_.
            on_cpu popcli)))"

section \<open>User memory\<close>

definition inituvm :: "'k mmu \<Rightarrow> u32 \<Rightarrow> u8 list \<Rightarrow> ('d, 'k, unit) vmm" where
  "inituvm M pgdir init =
     (if of_nat (length init) \<ge> PGSIZE M then fail (Panics ''inituvm: more than a page'')
      else
        fbind (kalloc M) (\<lambda>m.
        fbind (zero_page M m) (\<lambda>_.
        fbind (mappages M pgdir 0 (PGSIZE M) (V2P M m) (PTE_W M OR PTE_U M)) (\<lambda>_.
        poke m init))))"

fun load_loop :: "nat \<Rightarrow> 'k mmu \<Rightarrow> 'd env \<Rightarrow> u32 \<Rightarrow> u32 \<Rightarrow> nat \<Rightarrow> u32 \<Rightarrow> u32 \<Rightarrow> u32 \<Rightarrow> ('d, 'k, int) vmm" where
  "load_loop fuel M E pgdir addr ip ofs sz i =
     (if \<not> i < sz then fret 0
      else
        (case fuel of
           0 \<Rightarrow> fail Runs_on
         | Suc k \<Rightarrow>
             fbind (walkpgdir M pgdir (addr + i) False) (\<lambda>pte.
               if pte = 0 then fail (Panics ''loaduvm: address should exist'')
               else
                 fbind (load pte) (\<lambda>e.
                 let n = (if sz - i < PGSIZE M then sz - i else PGSIZE M) in
                 fbind (on_fs (readi E ip (ofs + i) n)) (\<lambda>(r, bs).
                 fbind (poke (P2V M (PTE_ADDR M e)) bs) (\<lambda>_.
                   if (word_of_int r :: u32) \<noteq> n then fret (- 1)
                   else load_loop k M E pgdir addr ip ofs sz (i + PGSIZE M)))))))"

declare load_loop.simps [simp del]

definition loaduvm :: "'k mmu \<Rightarrow> 'd env \<Rightarrow> u32 \<Rightarrow> u32 \<Rightarrow> nat \<Rightarrow> u32 \<Rightarrow> u32 \<Rightarrow> ('d, 'k, int) vmm" where
  "loaduvm M E pgdir addr ip ofs sz =
     (if addr mod PGSIZE M \<noteq> 0 then fail (Panics ''loaduvm: addr must be page aligned'')
      else load_loop (rounds_for M sz) M E pgdir addr ip ofs sz 0)"

fun alloc_loop :: "nat \<Rightarrow> 'k mmu \<Rightarrow> u32 \<Rightarrow> u32 \<Rightarrow> u32 \<Rightarrow> u32 \<Rightarrow> ('d, 'k, u32) vmm" where
  "alloc_loop fuel M pgdir a oldsz newsz =
     (if \<not> a < newsz then fret newsz
      else
        (case fuel of
           0 \<Rightarrow> fail Runs_on
         | Suc k \<Rightarrow>
             fbind (kalloc M) (\<lambda>m.
               if m = 0 then fbind (deallocuvm M pgdir newsz oldsz) (\<lambda>_. fret 0)
               else
                 fbind (zero_page M m) (\<lambda>_.
                 fbind (mappages M pgdir a (PGSIZE M) (V2P M m) (PTE_W M OR PTE_U M)) (\<lambda>r.
                   if r < 0 then
                     fbind (deallocuvm M pgdir newsz oldsz) (\<lambda>_. fbind (kfree M m) (\<lambda>_. fret 0))
                   else alloc_loop k M pgdir (a + PGSIZE M) oldsz newsz)))))"

declare alloc_loop.simps [simp del]

definition allocuvm :: "'k mmu \<Rightarrow> u32 \<Rightarrow> u32 \<Rightarrow> u32 \<Rightarrow> ('d, 'k, u32) vmm" where
  "allocuvm M pgdir oldsz newsz =
     (if newsz \<ge> KBASE M then fret 0
      else if newsz < oldsz then fret oldsz
      else alloc_loop (rounds_for M newsz) M pgdir (PGROUNDUP M oldsz) oldsz newsz)"

definition clearpteu :: "'k mmu \<Rightarrow> u32 \<Rightarrow> u32 \<Rightarrow> ('d, 'k, unit) vmm" where
  "clearpteu M pgdir uva =
     fbind (walkpgdir M pgdir uva False) (\<lambda>pte.
       if pte = 0 then fail (Panics ''clearpteu'')
       else fbind (load pte) (\<lambda>e. store pte (e AND NOT (PTE_U M))))"

fun copy_loop :: "nat \<Rightarrow> 'k mmu \<Rightarrow> u32 \<Rightarrow> u32 \<Rightarrow> u32 \<Rightarrow> u32 \<Rightarrow> ('d, 'k, u32) vmm" where
  "copy_loop fuel M pgdir d sz i =
     (if \<not> i < sz then fret d
      else
        (case fuel of
           0 \<Rightarrow> fail Runs_on
         | Suc k \<Rightarrow>
             fbind (walkpgdir M pgdir i False) (\<lambda>pte.
               if pte = 0 then fail (Panics ''copyuvm: pte should exist'')
               else
                 fbind (load pte) (\<lambda>e.
                   if e AND PTE_P M = 0 then fail (Panics ''copyuvm: page not present'')
                   else
                     fbind (kalloc M) (\<lambda>m.
                       if m = 0 then fbind (freevm M d) (\<lambda>_. fret 0)
                       else
                         fbind (fget (\<lambda>s. get_bytes (mem s) (P2V M (PTE_ADDR M e)) (unat (PGSIZE M)))) (\<lambda>bs.
                         fbind (poke m bs) (\<lambda>_.
                         fbind (mappages M d i (PGSIZE M) (V2P M m) (PTE_FLAGS M e)) (\<lambda>r.
                           if r < 0 then fbind (kfree M m) (\<lambda>_. fbind (freevm M d) (\<lambda>_. fret 0))
                           else copy_loop k M pgdir d sz (i + PGSIZE M)))))))))"

declare copy_loop.simps [simp del]

definition copyuvm :: "'k mmu \<Rightarrow> u32 \<Rightarrow> u32 \<Rightarrow> ('d, 'k, u32) vmm" where
  "copyuvm M pgdir sz =
     fbind (setupkvm M) (\<lambda>d. if d = 0 then fret 0 else copy_loop (rounds_for M sz) M pgdir d sz 0)"

text \<open>\<open>uva2ka\<close> reads through the pointer \<open>walkpgdir\<close> returned without asking whether it is null.\<close>

definition uva2ka :: "'k mmu \<Rightarrow> u32 \<Rightarrow> u32 \<Rightarrow> ('d, 'k, u32) vmm" where
  "uva2ka M pgdir uva =
     fbind (walkpgdir M pgdir uva False) (\<lambda>pte.
       if pte = 0 then fail Stray
       else
         fbind (load pte) (\<lambda>e.
           if e AND PTE_P M = 0 then fret 0
           else if e AND PTE_U M = 0 then fret 0
           else fret (P2V M (PTE_ADDR M e))))"

text \<open>The loop of \<open>copyout\<close>: each round copies at least one byte of the buffer.\<close>

fun copyout_loop :: "nat \<Rightarrow> 'k mmu \<Rightarrow> u32 \<Rightarrow> u32 \<Rightarrow> u8 list \<Rightarrow> ('d, 'k, int) vmm" where
  "copyout_loop fuel M pgdir va [] = fret 0"
| "copyout_loop 0 M pgdir va (x # xs) = fail Runs_on"
| "copyout_loop (Suc k) M pgdir va (x # xs) =
     (let va0 = PGROUNDDOWN M va in
      fbind (uva2ka M pgdir va0) (\<lambda>pa0.
        if pa0 = 0 then fret (- 1)
        else
          (let n = min (unat (PGSIZE M - (va - va0))) (length (x # xs))
           in fbind (poke (pa0 + (va - va0)) (take n (x # xs))) (\<lambda>_.
              copyout_loop k M pgdir (va0 + PGSIZE M) (drop n (x # xs))))))"

definition copyout :: "'k mmu \<Rightarrow> u32 \<Rightarrow> u32 \<Rightarrow> u8 list \<Rightarrow> ('d, 'k, int) vmm" where
  "copyout M pgdir va p = copyout_loop (length p) M pgdir va p"

end
