(* ===== verification/PageWords.thy ===== *)
theory PageWords
  imports Paging
begin

unbundle bit_operations_syntax

text \<open>
  Facts about 32-bit addresses, pages of 4096 bytes, and the byte memory of the paging code.
\<close>

section \<open>Pages\<close>

definition aligned :: "u32 \<Rightarrow> bool" where
  "aligned x \<longleftrightarrow> 4096 dvd unat x"

definition page :: "u32 \<Rightarrow> nat" where
  "page x = unat x div 4096"

lemma unat_lt: "unat (x :: u32) < 4294967296"
  using unsigned_less [of x, where 'a = nat] by simp

lemma unat_add: "unat (x + y :: u32) = (unat x + unat y) mod 4294967296"
  by (simp add: unat_word_ariths)

lemma aligned_cases:
  assumes "aligned T"
  obtains q where "unat T = 4096 * q" "q < 1048576"
proof -
  from assms obtain q where q: "unat T = 4096 * q" unfolding aligned_def by (elim dvdE)
  moreover have "q < 1048576" using q unat_lt [of T] by simp
  ultimately show thesis by (rule that)
qed

lemma page_offset:
  assumes "aligned T" "unat x < 4096"
  shows "unat (T + x) = unat T + unat x" "page (T + x) = page T"
proof -
  obtain q where q: "unat T = 4096 * q" "q < 1048576" using assms(1) by (rule aligned_cases)
  then have "unat T + unat x < 4294967296" using assms(2) by simp
  then show u: "unat (T + x) = unat T + unat x" by (simp add: unat_add)
  show "page (T + x) = page T" using q assms(2) by (simp add: page_def u)
qed

lemma page_eq: "aligned T \<Longrightarrow> aligned S \<Longrightarrow> page T = page S \<longleftrightarrow> T = S"
  unfolding page_def aligned_def by (metis dvd_mult_div_cancel word_unat_eq_iff)

text \<open>The slots of a table: four bytes each, 1024 of them.\<close>

definition slot :: "u32 \<Rightarrow> u32 \<Rightarrow> u32" where
  "slot T i = T + 4 * i"

lemma unat_slot_offset: "unat (i :: u32) < 1024 \<Longrightarrow> unat (4 * i) = 4 * unat i"
  by (simp add: unat_word_ariths)

lemma unat_slot: "aligned T \<Longrightarrow> unat i < 1024 \<Longrightarrow> unat (slot T i) = unat T + 4 * unat i"
  using page_offset(1) [of T "4 * i"] by (simp add: slot_def unat_slot_offset)

lemma page_slot: "aligned T \<Longrightarrow> unat i < 1024 \<Longrightarrow> page (slot T i) = page T"
  using page_offset(2) [of T "4 * i"] by (simp add: slot_def unat_slot_offset)

lemma slot_byte:
  assumes "aligned T" "unat i < 1024" "unat k < 4"
  shows "unat (slot T i + k) = unat T + 4 * unat i + unat k" "page (slot T i + k) = page T"
proof -
  have o: "unat (4 * i + k) = 4 * unat i + unat k"
    using assms(2,3) unat_slot_offset [OF assms(2)] by (simp add: unat_add)
  have s: "slot T i + k = T + (4 * i + k)" by (simp add: slot_def add.assoc)
  show "unat (slot T i + k) = unat T + 4 * unat i + unat k" "page (slot T i + k) = page T"
    unfolding s using page_offset [OF assms(1), of "4 * i + k"] assms(2,3) o by simp_all
qed

lemma slot_inj:
  assumes "aligned T" "unat i < 1024" "unat k < 4" "aligned S" "unat j < 1024" "unat l < 4"
    and "slot T i + k = slot S j + l"
  shows "T = S \<and> i = j \<and> k = l"
proof -
  have "page T = page S"
    using slot_byte(2) [OF assms(1-3)] slot_byte(2) [OF assms(4-6)] assms(7) by simp
  then have "T = S" using page_eq assms(1,4) by blast
  moreover have "4 * unat i + unat k = 4 * unat j + unat l"
    using slot_byte(1) [OF assms(1-3)] slot_byte(1) [OF assms(4-6)] assms(7) \<open>T = S\<close> by simp
  then have "unat i = unat j" "unat k = unat l" using assms(3,6) by presburger+
  ultimately show ?thesis by (simp add: word_unat_eq_iff)
qed

section \<open>Words in memory\<close>

lemma ld32_cong: "m a = m' a \<Longrightarrow> m (a + 1) = m' (a + 1) \<Longrightarrow> m (a + 2) = m' (a + 2) \<Longrightarrow> m (a + 3) = m' (a + 3) \<Longrightarrow> ld32 m a = ld32 m' a"
  by (simp add: ld32_def)

lemma ld32_page:
  assumes "aligned T" "unat i < 1024" "\<And>x. page x = page T \<Longrightarrow> m x = m' x"
  shows "ld32 m (slot T i) = ld32 m' (slot T i)"
proof (rule ld32_cong)
  show "m (slot T i) = m' (slot T i)" using slot_byte(2) [OF assms(1,2), of 0] assms(3) by simp
  show "m (slot T i + 1) = m' (slot T i + 1)" using slot_byte(2) [OF assms(1,2), of 1] assms(3) by simp
  show "m (slot T i + 2) = m' (slot T i + 2)" using slot_byte(2) [OF assms(1,2), of 2] assms(3) by simp
  show "m (slot T i + 3) = m' (slot T i + 3)" using slot_byte(2) [OF assms(1,2), of 3] assms(3) by simp
qed

lemma distinct_bytes: "(a :: u32) \<noteq> a + 1" "a \<noteq> a + 2" "a \<noteq> a + 3" "a + 1 \<noteq> a + 2" "a + 1 \<noteq> a + 3" "a + 2 \<noteq> a + 3"
  by simp_all

lemma join_bytes:
  "ucast (ucast w :: u8) OR push_bit 8 (ucast (ucast (drop_bit 8 w) :: u8)) OR push_bit 16 (ucast (ucast (drop_bit 16 w) :: u8)) OR
   push_bit 24 (ucast (ucast (drop_bit 24 w) :: u8)) = (w :: u32)"
proof (rule bit_word_eqI)
  fix n :: nat
  consider "n < 8" | "8 \<le> n" "n < 16" | "16 \<le> n" "n < 24" | "24 \<le> n" by linarith
  then show "bit (ucast (ucast w :: u8) OR push_bit 8 (ucast (ucast (drop_bit 8 w) :: u8)) OR
      push_bit 16 (ucast (ucast (drop_bit 16 w) :: u8)) OR push_bit 24 (ucast (ucast (drop_bit 24 w) :: u8)) :: u32) n = bit w n"
    if "n < LENGTH(32)" using that
    by cases (auto simp: bit_or_iff bit_push_bit_iff bit_ucast_iff bit_drop_bit_eq)
qed

lemma ld32_st32_same [simp]: "ld32 (st32 m a w) a = w"
  unfolding ld32_def st32_def using join_bytes [of w] by (simp add: distinct_bytes)

lemma st32_other:
  assumes "\<And>k. unat k < 4 \<Longrightarrow> x \<noteq> a + k"
  shows "st32 m a w x = m x"
  using assms [of 0] assms [of 1] assms [of 2] assms [of 3] by (simp add: st32_def)


lemma unat_pred: "z \<noteq> 0 \<Longrightarrow> unat (z :: u32) = Suc (unat (z - 1))"
proof -
  assume "z \<noteq> 0"
  then have "0 < unat z" by (simp add: unat_gt_0)
  then have "(1 :: u32) \<le> z" by (simp add: word_le_nat_alt)
  then have "unat (z - 1) = unat z - 1" by (simp add: unat_sub)
  with \<open>0 < unat z\<close> show ?thesis by simp
qed

lemma put_bytes_at:
  "length xs \<le> 4294967296 \<Longrightarrow> put_bytes m a xs x = (if unat (x - a) < length xs then xs ! unat (x - a) else m x)"
proof (induction xs arbitrary: m a)
  case (Cons y ys)
  show ?case
  proof (cases "x = a")
    case True
    have "unat (x - (a + 1)) = 4294967295" using True by (simp add: unsigned_minus_1_eq_mask mask_eq_exp_minus_1)
    with Cons True show ?thesis by simp
  next
    case False
    then have "unat (x - a) = Suc (unat (x - (a + 1)))" using unat_pred [of "x - a"] by (simp add: algebra_simps)
    with Cons False show ?thesis by simp
  qed
qed simp

lemma in_page: "aligned v \<Longrightarrow> unat (x - v) < 4096 \<longleftrightarrow> page x = page v"
proof
  assume "aligned v" "unat (x - v) < 4096"
  from page_offset(2) [OF this] show "page x = page v" by simp
next
  assume v: "aligned v" and p: "page x = page v"
  obtain q where q: "unat v = 4096 * q" "q < 1048576" using v by (rule aligned_cases)
  with p have d: "unat x div 4096 = q" by (simp add: page_def)
  have "unat x = 4096 * q + unat x mod 4096" unfolding d [symmetric] by simp
  moreover have "unat x mod 4096 < 4096" by simp
  ultimately have "unat v \<le> unat x" "unat x - unat v < 4096" using q(1) by linarith+
  then show "unat (x - v) < 4096" by (simp add: unat_sub word_le_nat_alt)
qed

lemma put_page:
  assumes "aligned v" "length xs = 4096"
  shows "put_bytes m v xs x = (if page x = page v then xs ! unat (x - v) else m x)"
  using put_bytes_at [of xs m v x] in_page [OF assms(1), of x] assms(2) by simp

lemma ld32_zeroed: "aligned v \<Longrightarrow> unat i < 1024 \<Longrightarrow> ld32 (put_bytes m v (replicate 4096 0)) (slot v i) = 0"
proof -
  assume v: "aligned v" "unat i < 1024"
  have "put_bytes m v (replicate 4096 0) (slot v i + k) = 0" if "unat k < 4" for k
    using slot_byte(2) [OF v that] put_page [OF v(1), of "replicate 4096 0" m "slot v i + k"]
      in_page [OF v(1), of "slot v i + k"] by simp
  from this [of 0] this [of 1] this [of 2] this [of 3] show ?thesis by (simp add: ld32_def)
qed

lemma aligned_push: "aligned (push_bit 12 (e :: u32))"
proof -
  have "unat (push_bit 12 e :: u32) = (unat e * 4096) mod 4294967296"
    unfolding unsigned_push_bit_eq by (simp add: push_bit_eq_mult take_bit_eq_mod)
  then show ?thesis by (simp add: aligned_def dvd_mod)
qed

lemma aligned_add: "aligned x \<Longrightarrow> aligned y \<Longrightarrow> aligned (x + y)"
  by (simp add: aligned_def unat_add dvd_mod)

lemma aligned_push_drop: "aligned w \<Longrightarrow> push_bit 12 (drop_bit 12 w) = w"
proof -
  assume "aligned w"
  then have "unat w mod 4096 = 0" by (simp add: aligned_def dvd_eq_mod_eq_0)
  then have "unat (take_bit 12 w) = 0" unfolding unsigned_take_bit_eq by (simp add: take_bit_eq_mod)
  then have "take_bit 12 w = 0" by (rule unsigned_eq_0_iff [THEN iffD1])
  then show ?thesis using bits_ident [of 12 w] by simp
qed

end
