(* ===== verification/PageTable.thy ===== *)
theory PageTable
  imports PageWords
begin

unbundle bit_operations_syntax

text \<open>
  Page tables as maps: \<open>pte_of\<close> is the entry the hardware finds for an address. A page directory is well formed
  when its tables are different pages, none of them the directory or free; under this invariant the code of
  \<open>vm.c\<close> changes exactly the entries it means to.
\<close>

section \<open>What the environment promises\<close>

text \<open>The x86 layout of page tables and the kernel's linear mapping, as \<open>mmu.h\<close> and \<open>memlayout.h\<close> have them.\<close>

definition x86 :: "'k mmu \<Rightarrow> bool" where
  "x86 M \<longleftrightarrow> PGSIZE M = 4096 \<and> PTE_P M = 1 \<and> PTE_W M = 2 \<and> PTE_U M = 4 \<and>
     (\<forall>a. PDX M a = drop_bit 22 a) \<and> (\<forall>a. PTX M a = take_bit 10 (drop_bit 12 a)) \<and>
     (\<forall>e. PTE_ADDR M e = push_bit 12 (drop_bit 12 e)) \<and> (\<forall>e. PTE_FLAGS M e = take_bit 12 e) \<and>
     (\<forall>a. PGROUNDDOWN M a = push_bit 12 (drop_bit 12 a)) \<and>
     (\<forall>a. PGROUNDUP M a = push_bit 12 (drop_bit 12 (a + 4095))) \<and>
     KBASE M = 0x80000000 \<and> (\<forall>a. P2V M a = a + 0x80000000) \<and> (\<forall>a. V2P M a = a - 0x80000000)"

text \<open>The allocator: \<open>F\<close> is the set of free pages it stands for. It writes only into free pages.\<close>

definition heap_laws :: "'k mmu \<Rightarrow> ('k \<Rightarrow> u32 set) \<Rightarrow> bool" where
  "heap_laws M F \<longleftrightarrow>
     (\<forall>h v. v \<in> F h \<longrightarrow> aligned v \<and> v \<noteq> 0) \<and>
     (\<forall>h m v h' m'. kalloc_page M h m = (v, h', m') \<longrightarrow>
        (v = 0 \<and> F h' = F h \<or> v \<in> F h \<and> F h' = F h - {v}) \<and>
        (\<forall>x. page x \<notin> page ` F h \<longrightarrow> m' x = m x)) \<and>
     (\<forall>v h m h' m'. aligned v \<and> v \<noteq> 0 \<and> kfree_page M v h m = (h', m') \<longrightarrow>
        F h' = insert v (F h) \<and> (\<forall>x. page x \<notin> page ` insert v (F h) \<longrightarrow> m' x = m x))"

section \<open>Entries\<close>

definition pde_of :: "bytes \<Rightarrow> u32 \<Rightarrow> u32 \<Rightarrow> u32" where
  "pde_of m pgdir d = ld32 m (slot pgdir d)"

definition present :: "u32 \<Rightarrow> bool" where
  "present e \<longleftrightarrow> e AND 1 \<noteq> 0"

definition table_of :: "u32 \<Rightarrow> u32" where
  "table_of e = push_bit 12 (drop_bit 12 e) + 0x80000000"

definition dir_index :: "u32 \<Rightarrow> u32" where
  "dir_index va = drop_bit 22 va"

definition tab_index :: "u32 \<Rightarrow> u32" where
  "tab_index va = take_bit 10 (drop_bit 12 va)"

definition pte_of :: "bytes \<Rightarrow> u32 \<Rightarrow> u32 \<Rightarrow> u32" where
  "pte_of m pgdir va =
     (let e = pde_of m pgdir (dir_index va) in if present e then ld32 m (slot (table_of e) (tab_index va)) else 0)"

definition pt_wf :: "bytes \<Rightarrow> u32 \<Rightarrow> u32 set \<Rightarrow> bool" where
  "pt_wf m pgdir free \<longleftrightarrow> aligned pgdir \<and> pgdir \<noteq> 0 \<and> pgdir \<notin> free \<and>
     (\<forall>d. unat d < 1024 \<longrightarrow> present (pde_of m pgdir d) \<longrightarrow> table_of (pde_of m pgdir d) \<notin> free \<union> {0, pgdir}) \<and>
     (\<forall>d d'. unat d < 1024 \<longrightarrow> unat d' < 1024 \<longrightarrow> present (pde_of m pgdir d) \<longrightarrow> present (pde_of m pgdir d') \<longrightarrow>
        table_of (pde_of m pgdir d) = table_of (pde_of m pgdir d') \<longrightarrow> d = d')"

text \<open>The pages of a page directory: itself and its tables.\<close>

definition table_pages :: "bytes \<Rightarrow> u32 \<Rightarrow> u32 set" where
  "table_pages m pgdir = insert pgdir {table_of (pde_of m pgdir d) | d. unat d < 1024 \<and> present (pde_of m pgdir d)}"

lemma pt_wfD:
  assumes "pt_wf m pgdir free"
  shows "aligned pgdir" "pgdir \<noteq> 0" "pgdir \<notin> free"
    "unat d < 1024 \<Longrightarrow> present (pde_of m pgdir d) \<Longrightarrow> table_of (pde_of m pgdir d) \<notin> free \<union> {0, pgdir}"
    "unat d < 1024 \<Longrightarrow> unat d' < 1024 \<Longrightarrow> present (pde_of m pgdir d) \<Longrightarrow> present (pde_of m pgdir d') \<Longrightarrow>
       table_of (pde_of m pgdir d) = table_of (pde_of m pgdir d') \<Longrightarrow> d = d'"
  using assms unfolding pt_wf_def by blast+

lemma unat_indices:
  "unat (dir_index va) = unat va div 4194304" "unat (tab_index va) = unat va div 4096 mod 1024"
  unfolding dir_index_def tab_index_def unsigned_drop_bit_eq unsigned_take_bit_eq
  by (simp_all add: drop_bit_eq_div take_bit_eq_mod unat_lt)

lemma dir_index_lt [simp]: "unat (dir_index va) < 1024"
  using unat_lt [of va] by (simp add: unat_indices)

lemma tab_index_lt [simp]: "unat (tab_index va) < 1024"
  by (simp add: unat_indices)

lemma indices_page: "page va = 1024 * unat (dir_index va) + unat (tab_index va)"
proof -
  have "(4194304 :: nat) = 4096 * 1024" by simp
  then have "unat va div 4194304 = unat va div 4096 div 1024" by (simp only: div_mult2_eq)
  then show ?thesis unfolding page_def unat_indices by (simp only: mult_div_mod_eq)
qed

lemma mixed_radix:
  assumes "k * a + b = k * c + d" "b < k" "d < (k :: nat)"
  shows "a = c \<and> b = d"
proof -
  have "(k * a + b) div k = a" "(k * c + d) div k = c" "(k * a + b) mod k = b" "(k * c + d) mod k = d"
    using assms(2,3) by simp_all
  with assms(1) show ?thesis by simp
qed

lemma same_indices: "dir_index va = dir_index vb \<Longrightarrow> tab_index va = tab_index vb \<Longrightarrow> page va = page vb"
  by (simp add: indices_page)

lemma same_page:
  assumes "page va = page vb"
  shows "dir_index va = dir_index vb" "tab_index va = tab_index vb"
proof -
  have "1024 * unat (dir_index va) + unat (tab_index va) = 1024 * unat (dir_index vb) + unat (tab_index vb)"
    using assms by (simp add: indices_page)
  from mixed_radix [OF this tab_index_lt tab_index_lt]
  have "unat (dir_index va) = unat (dir_index vb) \<and> unat (tab_index va) = unat (tab_index vb)" .
  then show "dir_index va = dir_index vb" "tab_index va = tab_index vb" by (simp_all add: word_unat_eq_iff)
qed

lemma aligned_base: "aligned 0x80000000"
  by (simp add: aligned_def)

lemma aligned_table [simp]: "aligned (table_of e)"
  unfolding table_of_def by (intro aligned_add aligned_push aligned_base)

section \<open>Storing an entry\<close>

lemma st32_slot_other:
  assumes "aligned T" "unat i < 1024" "page x \<noteq> page T"
  shows "st32 m (slot T i) w x = m x"
  by (rule st32_other) (use assms slot_byte(2) in metis)

lemma ld32_st32_slot:
  assumes "aligned T" "unat i < 1024" "aligned S" "unat j < 1024"
  shows "ld32 (st32 m (slot T i) w) (slot S j) = (if T = S \<and> i = j then w else ld32 m (slot S j))"
proof (cases "T = S \<and> i = j")
  case False
  have "st32 m (slot T i) w (slot S j + l) = m (slot S j + l)" if "unat l < 4" for l
    by (rule st32_other) (use False slot_inj [OF assms(3,4) that assms(1,2)] in blast)
  from this [of 0] this [of 1] this [of 2] this [of 3] have
    "ld32 (st32 m (slot T i) w) (slot S j) = ld32 m (slot S j)" by (intro ld32_cong) simp_all
  with False show ?thesis by auto
qed simp

text \<open>Writing the entry of an address whose table is present.\<close>

lemma store_entry:
  assumes "pt_wf m pgdir free" "present (pde_of m pgdir (dir_index va))"
    and "m' = st32 m (slot (table_of (pde_of m pgdir (dir_index va))) (tab_index va)) w"
  shows "pde_of m' pgdir d = pde_of m pgdir d \<or> \<not> unat d < 1024"
    and "pt_wf m' pgdir free"
    and "pte_of m' pgdir vb = (if page vb = page va then w else pte_of m pgdir vb)"
    and "page x \<noteq> page (table_of (pde_of m pgdir (dir_index va))) \<Longrightarrow> m' x = m x"
proof -
  let ?T = "table_of (pde_of m pgdir (dir_index va))"
  note wf = pt_wfD [OF assms(1)]
  have T: "?T \<noteq> pgdir" using wf(4) [of "dir_index va"] assms(2) by simp
  have pde: "pde_of m' pgdir d = pde_of m pgdir d" if "unat d < 1024" for d
    using T wf(1) that by (simp add: pde_of_def assms(3) ld32_st32_slot)
  then show "pde_of m' pgdir d = pde_of m pgdir d \<or> \<not> unat d < 1024" by blast
  show "pt_wf m' pgdir free" using assms(1) unfolding pt_wf_def by (simp add: pde)
  show "page x \<noteq> page ?T \<Longrightarrow> m' x = m x" unfolding assms(3) by (rule st32_slot_other) simp_all
  show "pte_of m' pgdir vb = (if page vb = page va then w else pte_of m pgdir vb)"
  proof (cases "present (pde_of m pgdir (dir_index vb))")
    case True
    have "?T = table_of (pde_of m pgdir (dir_index vb)) \<and> tab_index va = tab_index vb \<longleftrightarrow> page vb = page va"
    proof
      assume "?T = table_of (pde_of m pgdir (dir_index vb)) \<and> tab_index va = tab_index vb"
      then have "dir_index va = dir_index vb" "tab_index va = tab_index vb"
        using wf(5) [of "dir_index va" "dir_index vb"] assms(2) True by simp_all
      then show "page vb = page va" using same_indices by metis
    next
      assume "page vb = page va"
      then show "?T = table_of (pde_of m pgdir (dir_index vb)) \<and> tab_index va = tab_index vb"
        using same_page [of vb va] by simp
    qed
    moreover have "ld32 m' (slot S j) = (if ?T = S \<and> tab_index va = j then w else ld32 m (slot S j))"
      if "aligned S" "unat j < 1024" for S j
      using that by (simp add: assms(3) ld32_st32_slot)
    ultimately show ?thesis using True by (simp add: pte_of_def Let_def pde)
  next
    case False
    then have "page vb \<noteq> page va" using assms(2) same_page(1) [of vb va] by auto
    with False show ?thesis by (simp add: pte_of_def Let_def pde)
  qed
qed


section \<open>Walking and mapping\<close>

text \<open>Memory that agrees on the pages of a directory has the same entries.\<close>

lemma table_page_in:
  "pgdir \<in> table_pages m pgdir"
  "unat d < 1024 \<Longrightarrow> present (pde_of m pgdir d) \<Longrightarrow> table_of (pde_of m pgdir d) \<in> table_pages m pgdir"
  unfolding table_pages_def by blast+

lemma agree_entries:
  assumes "aligned pgdir" "\<And>x. page x \<in> page ` table_pages m pgdir \<Longrightarrow> m' x = m x"
  shows "unat d < 1024 \<Longrightarrow> pde_of m' pgdir d = pde_of m pgdir d" and "pte_of m' pgdir va = pte_of m pgdir va"
proof -
  have pde: "pde_of m' pgdir d = pde_of m pgdir d" if "unat d < 1024" for d
    unfolding pde_of_def by (rule ld32_page [OF assms(1) that]) (use assms(2) table_page_in(1) in blast)
  then show "unat d < 1024 \<Longrightarrow> pde_of m' pgdir d = pde_of m pgdir d" .
  have "ld32 m' (slot (table_of (pde_of m pgdir (dir_index va))) (tab_index va)) =
    ld32 m (slot (table_of (pde_of m pgdir (dir_index va))) (tab_index va))" if "present (pde_of m pgdir (dir_index va))"
    by (rule ld32_page) (use assms(2) table_page_in(2) [OF dir_index_lt that] in auto)
  then show "pte_of m' pgdir va = pte_of m pgdir va" by (simp add: pte_of_def Let_def pde)
qed

lemma agree_wf:
  assumes "pt_wf m pgdir free" "\<And>x. page x \<in> page ` table_pages m pgdir \<Longrightarrow> m' x = m x" "free' \<subseteq> free"
  shows "pt_wf m' pgdir free'"
proof -
  note pde = agree_entries(1) [OF pt_wfD(1) [OF assms(1)] assms(2)]
  from assms(1,3) show ?thesis unfolding pt_wf_def by (simp add: pde) blast
qed

lemma free_not_table:
  assumes "pt_wf m pgdir free" "\<And>v. v \<in> free \<Longrightarrow> aligned v" "page x \<in> page ` table_pages m pgdir"
  shows "page x \<notin> page ` free"
proof
  assume "page x \<in> page ` free"
  then obtain v T where v: "v \<in> free" "T \<in> table_pages m pgdir" "page v = page T" using assms(3) by auto
  have "aligned T \<and> T \<notin> free"
    using v(2) pt_wfD(1,3,4) [OF assms(1)] unfolding table_pages_def by auto
  moreover have "v = T" using v page_eq assms(2) calculation by blast
  ultimately show False using v(1) by blast
qed

text \<open>Entering a fresh table that holds no entries.\<close>

lemma enter_table:
  assumes "pt_wf m pgdir free" "\<And>u. u \<in> free \<Longrightarrow> aligned u" "v \<in> free" "v \<noteq> 0"
    and "unat d0 < 1024" "\<not> present (pde_of m pgdir d0)" "\<And>i. unat i < 1024 \<Longrightarrow> ld32 m (slot v i) = 0"
    and "present e" "table_of e = v" "m' = st32 m (slot pgdir d0) e"
  shows "pt_wf m' pgdir (free - {v})" "\<And>va. pte_of m' pgdir va = pte_of m pgdir va" "pde_of m' pgdir d0 = e"
proof -
  note wf = pt_wfD [OF assms(1)]
  have pde: "pde_of m' pgdir d = (if d = d0 then e else pde_of m pgdir d)" if "unat d < 1024" for d
    using wf(1) that assms(5,10) by (auto simp: pde_of_def ld32_st32_slot)
  from this [OF assms(5)] show "pde_of m' pgdir d0 = e" by simp
  have v: "v \<noteq> pgdir" "\<And>d. unat d < 1024 \<Longrightarrow> present (pde_of m pgdir d) \<Longrightarrow> table_of (pde_of m pgdir d) \<noteq> v"
    using wf(3,4) assms(3) by blast+
  show "pt_wf m' pgdir (free - {v})"
    unfolding pt_wf_def
  proof (intro conjI allI impI)
    fix d
    assume "unat d < 1024" "present (pde_of m' pgdir d)"
    then show "table_of (pde_of m' pgdir d) \<notin> free - {v} \<union> {0, pgdir}"
      using wf(4) [of d] v(1) assms(4,9) by (auto simp: pde)
  next
    fix d d'
    assume d: "unat d < 1024" "unat d' < 1024" "present (pde_of m' pgdir d)" "present (pde_of m' pgdir d')"
      "table_of (pde_of m' pgdir d) = table_of (pde_of m' pgdir d')"
    show "d = d'"
    proof (rule ccontr)
      assume n: "d \<noteq> d'"
      consider "d = d0" "d' \<noteq> d0" | "d' = d0" "d \<noteq> d0" | "d \<noteq> d0" "d' \<noteq> d0" using n by blast
      then show False
      proof cases
        case 1
        then show False using d assms(9) v(2) [OF d(2)] by (simp add: pde)
      next
        case 2
        then show False using d assms(9) v(2) [OF d(1)] by (simp add: pde)
      next
        case 3
        then show False using d n wf(5) [OF d(1,2)] by (simp add: pde)
      qed
    qed
  qed (use wf(1-3) in auto)
  show "pte_of m' pgdir va = pte_of m pgdir va" for va
  proof -
    have m': "ld32 m' (slot S j) = ld32 m (slot S j)" if "aligned S" "unat j < 1024" "S \<noteq> pgdir" for S j
      using that wf(1) assms(5) by (simp add: assms(10) ld32_st32_slot)
    have va: "aligned v" using assms(2,3) by blast
    show ?thesis
    proof (cases "dir_index va = d0")
      case True
      with assms(6,8,9) m' [OF va, of "tab_index va"] v(1) assms(7) [of "tab_index va"] show ?thesis
        by (simp add: pte_of_def Let_def pde [OF assms(5)])
    next
      case False
      have "table_of (pde_of m pgdir (dir_index va)) \<noteq> pgdir" if "present (pde_of m pgdir (dir_index va))"
        using wf(4) [OF dir_index_lt that] by simp
      with False m' show ?thesis by (simp add: pte_of_def Let_def pde)
    qed
  qed
qed


text \<open>What a step of the code may change: no entry but those given, and no memory outside the directory's
  pages and pages that were free.\<close>

definition touches_only :: "u32 \<Rightarrow> u32 set \<Rightarrow> bytes \<Rightarrow> bytes \<Rightarrow> bool" where
  "touches_only pgdir free m m' \<longleftrightarrow> (\<forall>x. page x \<notin> page ` (table_pages m pgdir \<union> free) \<longrightarrow> m' x = m x)"

definition pages_grow :: "u32 \<Rightarrow> u32 set \<Rightarrow> bytes \<Rightarrow> u32 set \<Rightarrow> bytes \<Rightarrow> bool" where
  "pages_grow pgdir free m free' m' \<longleftrightarrow> free' \<subseteq> free \<and> table_pages m' pgdir \<subseteq> table_pages m pgdir \<union> free \<and>
     touches_only pgdir free m m'"

lemma grow_trans:
  assumes "pages_grow pgdir f m f' m'" "pages_grow pgdir f' m' f'' m''"
  shows "pages_grow pgdir f m f'' m''"
proof -
  have sub: "table_pages m' pgdir \<union> f' \<subseteq> table_pages m pgdir \<union> f" using assms(1) unfolding pages_grow_def by blast
  then have "page ` (table_pages m' pgdir \<union> f') \<subseteq> page ` (table_pages m pgdir \<union> f)" by (rule image_mono)
  with assms have "touches_only pgdir f m m''" unfolding pages_grow_def touches_only_def by (metis subsetD)
  moreover have "f'' \<subseteq> f" "table_pages m'' pgdir \<subseteq> table_pages m pgdir \<union> f"
    using assms sub unfolding pages_grow_def by blast+
  ultimately show ?thesis unfolding pages_grow_def by blast
qed

lemma table_pages_mono:
  assumes "\<And>d. unat d < 1024 \<Longrightarrow> present (pde_of m' pgdir d) \<Longrightarrow>
    present (pde_of m pgdir d) \<and> table_of (pde_of m' pgdir d) = table_of (pde_of m pgdir d) \<or> table_of (pde_of m' pgdir d) \<in> free"
  shows "table_pages m' pgdir \<subseteq> table_pages m pgdir \<union> free"
  using assms unfolding table_pages_def by fastforce

lemma x86_simps:
  assumes "x86 M"
  shows "PGSIZE M = 4096" "PTE_P M = 1" "PTE_W M = 2" "PTE_U M = 4" "P2V M (PTE_ADDR M e) = table_of e"
    "pgdir + 4 * PDX M va = slot pgdir (dir_index va)" "T + 4 * PTX M va = slot T (tab_index va)"
    "V2P M v = v - 0x80000000" "P2V M v = v + 0x80000000" "PTE_ADDR M e = push_bit 12 (drop_bit 12 e)"
    "PGROUNDDOWN M va = push_bit 12 (drop_bit 12 va)" "KBASE M = 0x80000000" "PGROUNDUP M va = push_bit 12 (drop_bit 12 (va + 4095))"
  using assms unfolding x86_def by (simp_all add: table_of_def slot_def dir_index_def tab_index_def)

lemma heapD:
  assumes "heap_laws M F"
  shows "v \<in> F h \<Longrightarrow> aligned v \<and> v \<noteq> 0"
    "kalloc_page M h m = (v, h', m') \<Longrightarrow> v = 0 \<and> F h' = F h \<or> v \<in> F h \<and> F h' = F h - {v}"
    "kalloc_page M h m = (v, h', m') \<Longrightarrow> page x \<notin> page ` F h \<Longrightarrow> m' x = m x"
    "kfree_page M v h m = (h', m') \<Longrightarrow> aligned v \<Longrightarrow> v \<noteq> 0 \<Longrightarrow> F h' = insert v (F h)"
    "kfree_page M v h m = (h', m') \<Longrightarrow> aligned v \<Longrightarrow> v \<noteq> 0 \<Longrightarrow> page x \<notin> page ` insert v (F h) \<Longrightarrow> m' x = m x"
proof -
  note L = assms [unfolded heap_laws_def]
  note A = L [THEN conjunct1] and B = L [THEN conjunct2, THEN conjunct1] and C = L [THEN conjunct2, THEN conjunct2]
  show "v \<in> F h \<Longrightarrow> aligned v \<and> v \<noteq> 0" using A by simp
  note B = B [rule_format, of h m v h' m'] and C = C [rule_format, of v h m h' m']
  show "kalloc_page M h m = (v, h', m') \<Longrightarrow> v = 0 \<and> F h' = F h \<or> v \<in> F h \<and> F h' = F h - {v}"
    by (erule B [THEN conjunct1])
  show "kalloc_page M h m = (v, h', m') \<Longrightarrow> page x \<notin> page ` F h \<Longrightarrow> m' x = m x"
    by (erule B [THEN conjunct2, rule_format])
  show "kfree_page M v h m = (h', m') \<Longrightarrow> aligned v \<Longrightarrow> v \<noteq> 0 \<Longrightarrow> F h' = insert v (F h)"
    by (rule C [THEN conjunct1]) (intro conjI)
  show "kfree_page M v h m = (h', m') \<Longrightarrow> aligned v \<Longrightarrow> v \<noteq> 0 \<Longrightarrow> page x \<notin> page ` insert v (F h) \<Longrightarrow> m' x = m x"
    by (rule C [THEN conjunct2, rule_format]) (intro conjI)
qed

lemma present_bit: "present e \<longleftrightarrow> bit e 0"
  using and_exp_eq_0_iff_not_bit [of e 0] by (simp add: present_def)

lemma new_pde:
  assumes "aligned v"
  shows "present ((v - 0x80000000) OR 7)" "table_of ((v - 0x80000000) OR 7) = v"
proof -
  have "bit (7 :: u32) 0" by simp
  then show "present ((v - 0x80000000) OR 7)" unfolding present_bit bit_or_iff by (rule disjI2)
  have sub: "v - 0x80000000 = v + 0x80000000" by simp
  have "aligned (v - 0x80000000)" unfolding sub by (rule aligned_add [OF assms aligned_base])
  from aligned_push_drop [OF this] have "push_bit 12 (drop_bit 12 (v - 0x80000000)) = v - 0x80000000" .
  moreover have "drop_bit 12 ((v - 0x80000000) OR 7) = drop_bit 12 (v - 0x80000000)"
    by (simp add: drop_bit_or)
  ultimately show "table_of ((v - 0x80000000) OR 7) = v" by (simp add: table_of_def)
qed

text \<open>\<open>walkpgdir\<close> that may allocate: it changes no entry and finds the slot of the address, or memory is used up.\<close>

lemma walk_alloc:
  assumes M: "x86 M" and H: "heap_laws M F" and wf: "pt_wf (mem s) pgdir (F (heap s))"
  shows "\<exists>pte t. walkpgdir M pgdir va True s = Inr (pte, t) \<and> pt_wf (mem t) pgdir (F (heap t)) \<and>
    pages_grow pgdir (F (heap s)) (mem s) (F (heap t)) (mem t) \<and>
    (\<forall>vb. pte_of (mem t) pgdir vb = pte_of (mem s) pgdir vb) \<and>
    (pte = 0 \<or> pte \<noteq> 0 \<and> present (pde_of (mem t) pgdir (dir_index va)) \<and>
       pte = slot (table_of (pde_of (mem t) pgdir (dir_index va))) (tab_index va))"
proof (cases "present (pde_of (mem s) pgdir (dir_index va))")
  case True
  let ?T = "table_of (pde_of (mem s) pgdir (dir_index va))"
  have "?T \<noteq> 0" using pt_wfD(4) [OF wf dir_index_lt True] by simp
  then have "slot ?T (tab_index va) \<noteq> 0"
    using unat_slot [of ?T "tab_index va"] by (metis aligned_table tab_index_lt add_is_0 unsigned_0 unsigned_eq_0_iff)
  moreover have "walkpgdir M pgdir va True s = Inr (slot ?T (tab_index va), s)"
    using True by (simp add: walkpgdir_def Let_def x86_simps [OF M] pde_of_def present_def table_of_def)
  moreover have "pages_grow pgdir (F (heap s)) (mem s) (F (heap s)) (mem s)"
    by (auto simp: pages_grow_def touches_only_def)
  ultimately show ?thesis using wf True by blast
next
  case False
  obtain v h' m' where k: "kalloc_page M (heap s) (mem s) = (v, h', m')" by (metis prod_cases3)
  have al: "\<And>u. u \<in> F (heap s) \<Longrightarrow> aligned u" using heapD(1) [OF H] by blast
  have same: "\<And>x. page x \<in> page ` table_pages (mem s) pgdir \<Longrightarrow> m' x = mem s x"
    using heapD(3) [OF H k] free_not_table [OF wf al] by blast
  note pdeq = agree_entries(1) [OF pt_wfD(1) [OF wf] same]
  have outside: "\<And>x. page x \<notin> page ` F (heap s) \<Longrightarrow> m' x = mem s x" using heapD(3) [OF H k] .
  have e0: "ld32 (mem s) (slot pgdir (dir_index va)) AND 1 = 0" using False by (simp add: present_def pde_of_def)
  show ?thesis
  proof (cases "v = 0")
    case True
    let ?t = "s\<lparr>heap := h', mem := m'\<rparr>"
    have F': "F h' = F (heap s)" using heapD(2) [OF H k] heapD(1) [OF H] True by blast
    have run: "walkpgdir M pgdir va True s = Inr (0, ?t)"
      using e0 True by (simp add: walkpgdir_def Let_def x86_simps [OF M] kalloc_def k)
    have "pt_wf m' pgdir (F h')" using agree_wf [OF wf same] F' by simp
    moreover have "table_pages m' pgdir \<subseteq> table_pages (mem s) pgdir \<union> F (heap s)"
      by (rule table_pages_mono) (simp add: pdeq)
    then have "pages_grow pgdir (F (heap s)) (mem s) (F h') m'"
      using outside F' by (auto simp: pages_grow_def touches_only_def)
    ultimately show ?thesis using run agree_entries(2) [OF pt_wfD(1) [OF wf] same] by (intro exI [of _ 0] exI [of _ ?t]) simp
  next
    case nz: False
    then have v: "v \<in> F (heap s)" "F h' = F (heap s) - {v}" using heapD(2) [OF H k] by blast+
    then have va: "aligned v" "v \<noteq> 0" using heapD(1) [OF H] by blast+
    define m1 where "m1 = put_bytes m' v (replicate 4096 0)"
    define e where "e = (v - 0x80000000) OR 7"
    define m2 where "m2 = st32 m1 (slot pgdir (dir_index va)) e"
    have m1: "m1 x = (if page x = page v then 0 else m' x)" for x
      using put_page [OF va(1), of "replicate 4096 0" m' x] in_page [OF va(1), of x] by (simp add: m1_def)
    have same1: "m1 x = mem s x" if "page x \<in> page ` table_pages (mem s) pgdir" for x
      using same [OF that] free_not_table [OF wf al that] v(1) m1 [of x] by auto
    have wf1: "pt_wf m1 pgdir (F (heap s))" by (rule agree_wf [OF wf same1]) simp_all
    note pde1 = agree_entries(1) [OF pt_wfD(1) [OF wf] same1]
    have np: "\<not> present (pde_of m1 pgdir (dir_index va))" using False pde1 by simp
    note z = ld32_zeroed [OF va(1), of _ m', folded m1_def]
    have ent: "pt_wf m2 pgdir (F (heap s) - {v})" "pte_of m2 pgdir vb = pte_of m1 pgdir vb" for vb
      by (rule enter_table [OF wf1 al v(1) va(2) dir_index_lt np z _ _ m2_def];
          simp add: e_def new_pde [OF va(1)])+
    let ?t = "s\<lparr>heap := h', mem := m2\<rparr>"
    have run: "walkpgdir M pgdir va True s = Inr (slot v (tab_index va), ?t)"
      using e0 nz by (simp add: walkpgdir_def Let_def x86_simps [OF M] kalloc_def k m2_def m1_def e_def)
    have d: "pde_of m2 pgdir d = (if d = dir_index va then e else pde_of m1 pgdir d)" if "unat d < 1024" for d
      using that pt_wfD(1) [OF wf] by (auto simp: m2_def pde_of_def ld32_st32_slot)
    have "table_pages m2 pgdir \<subseteq> table_pages (mem s) pgdir \<union> F (heap s)"
      by (rule table_pages_mono) (use d pde1 new_pde(2) [OF va(1)] v(1) in \<open>auto simp: e_def split: if_splits\<close>)
    moreover have "m2 x = mem s x" if x: "page x \<notin> page ` (table_pages (mem s) pgdir \<union> F (heap s))" for x
    proof -
      have "page x \<noteq> page pgdir" using x table_page_in(1) by blast
      then have "m2 x = m1 x" using pt_wfD(1) [OF wf] by (simp add: m2_def st32_slot_other)
      also have "\<dots> = mem s x" using x v(1) m1 [of x] outside [of x] by auto
      finally show ?thesis .
    qed
    ultimately have "pages_grow pgdir (F (heap s)) (mem s) (F h') m2"
      using v(2) unfolding pages_grow_def touches_only_def by blast
    moreover have "slot v (tab_index va) \<noteq> 0"
      using unat_slot [OF va(1), of "tab_index va"] va(2) by (metis tab_index_lt add_is_0 unsigned_0 unsigned_eq_0_iff)
    moreover have "pte_of m2 pgdir vb = pte_of (mem s) pgdir vb" for vb
      using ent(2) agree_entries(2) [OF pt_wfD(1) [OF wf] same1] by simp
    moreover have "pt_wf m2 pgdir (F h')" using ent(1) v(2) by simp
    moreover have "pde_of m2 pgdir (dir_index va) = e" using d by simp
    ultimately show ?thesis
      using run new_pde [OF va(1)] by (intro exI [of _ "slot v (tab_index va)"] exI [of _ ?t]) (simp add: e_def)
  qed
qed


lemma store_grow:
  assumes "pt_wf m pgdir free" "present (pde_of m pgdir (dir_index va))"
    and "m' = st32 m (slot (table_of (pde_of m pgdir (dir_index va))) (tab_index va)) w"
  shows "pages_grow pgdir free m free m'"
proof -
  have "pde_of m' pgdir d = pde_of m pgdir d" if "unat d < 1024" for d
    using store_entry(1) [OF assms, of d] that by blast
  then have "table_pages m' pgdir \<subseteq> table_pages m pgdir \<union> free" by (intro table_pages_mono) simp
  moreover have "touches_only pgdir free m m'"
    using store_entry(4) [OF assms] table_page_in(2) [OF dir_index_lt assms(2)] unfolding touches_only_def by blast
  ultimately show ?thesis unfolding pages_grow_def by blast
qed

lemma page_lt: "page x < 1048576"
  using unat_lt [of x] by (simp add: page_def less_mult_imp_div_less)

lemma next_page: "aligned a \<Longrightarrow> Suc (page a) < 1048576 \<Longrightarrow> page (a + 4096) = Suc (page a) \<and> aligned (a + 4096)"
proof -
  assume a: "aligned a" "Suc (page a) < 1048576"
  obtain q where q: "unat a = 4096 * q" "q < 1048576" using a(1) by (rule aligned_cases)
  then have "unat (a + 4096) = 4096 * Suc q" using a(2) by (simp add: unat_add page_def)
  with q show ?thesis by (simp add: page_def aligned_def)
qed

text \<open>The entry \<open>mappages\<close> makes for the \<open>k\<close>-th page.\<close>

definition entry_for :: "u32 \<Rightarrow> u32 \<Rightarrow> nat \<Rightarrow> u32" where
  "entry_for pa fl k = (pa + of_nat k * 4096) OR fl OR 1"

text \<open>Entries for the first \<open>k\<close> pages from page \<open>p\<close>, and the old entries elsewhere.\<close>

definition maps_run :: "u32 \<Rightarrow> nat \<Rightarrow> nat \<Rightarrow> u32 \<Rightarrow> u32 \<Rightarrow> bytes \<Rightarrow> bytes \<Rightarrow> bool" where
  "maps_run pgdir p k pa fl m m' \<longleftrightarrow>
     (\<forall>va. pte_of m' pgdir va =
        (if p \<le> page va \<and> page va < p + k then entry_for pa fl (page va - p) else pte_of m pgdir va))"

lemma maps_run_Suc:
  assumes "\<And>va. pte_of m1 pgdir va = (if page va = p then pa OR fl OR 1 else pte_of m pgdir va)"
    and "maps_run pgdir (Suc p) k (pa + 4096) fl m1 m2"
  shows "maps_run pgdir p (Suc k) pa fl m m2"
  unfolding maps_run_def
proof
  fix va
  have e: "entry_for (pa + 4096) fl (page va - Suc p) = entry_for pa fl (page va - p)" if "Suc p \<le> page va"
  proof -
    have "page va - p = Suc (page va - Suc p)" using that by simp
    then show ?thesis by (simp add: entry_for_def algebra_simps)
  qed
  have z: "entry_for pa fl (p - p) = pa OR fl OR 1" by (simp add: entry_for_def)
  consider "page va = p" | "Suc p \<le> page va" "page va < Suc p + k" | "page va < p \<or> Suc p + k \<le> page va" by linarith
  then show "pte_of m2 pgdir va =
      (if p \<le> page va \<and> page va < p + Suc k then entry_for pa fl (page va - p) else pte_of m pgdir va)"
    by cases (use assms e z in \<open>auto simp: maps_run_def\<close>)
qed

lemma map_step:
  assumes M: "x86 M" and H: "heap_laws M F" and wf: "pt_wf (mem s) pgdir (F (heap s))"
  shows "(\<exists>t. map_loop (Suc n) M pgdir a lst pa fl s = Inr (- 1, t) \<and> pt_wf (mem t) pgdir (F (heap t)) \<and>
        pages_grow pgdir (F (heap s)) (mem s) (F (heap t)) (mem t) \<and> maps_run pgdir (page a) 0 pa fl (mem s) (mem t)) \<or>
      present (pte_of (mem s) pgdir a) \<and> map_loop (Suc n) M pgdir a lst pa fl s = Inl (Panics ''remap'') \<or>
      (\<exists>t. map_loop (Suc n) M pgdir a lst pa fl s = (if a = lst then Inr (0, t) else map_loop n M pgdir (a + 4096) lst (pa + 4096) fl t) \<and>
        pt_wf (mem t) pgdir (F (heap t)) \<and> pages_grow pgdir (F (heap s)) (mem s) (F (heap t)) (mem t) \<and>
        (\<forall>va. pte_of (mem t) pgdir va = (if page va = page a then pa OR fl OR 1 else pte_of (mem s) pgdir va)))"
proof -
  obtain pte t where w: "walkpgdir M pgdir a True s = Inr (pte, t)" "pt_wf (mem t) pgdir (F (heap t))"
    "pages_grow pgdir (F (heap s)) (mem s) (F (heap t)) (mem t)" "\<And>vb. pte_of (mem t) pgdir vb = pte_of (mem s) pgdir vb"
    "pte = 0 \<or> pte \<noteq> 0 \<and> present (pde_of (mem t) pgdir (dir_index a)) \<and>
       pte = slot (table_of (pde_of (mem t) pgdir (dir_index a))) (tab_index a)"
    using walk_alloc [OF M H wf, of a] by blast
  show ?thesis
  proof (cases "pte = 0")
    case True
    with w show ?thesis by (auto simp: maps_run_def)
  next
    case False
    then have pr: "present (pde_of (mem t) pgdir (dir_index a))"
      and pte: "pte = slot (table_of (pde_of (mem t) pgdir (dir_index a))) (tab_index a)" using w(5) by blast+
    have ld: "ld32 (mem t) pte = pte_of (mem s) pgdir a" using w(4) [of a] pr pte by (simp add: pte_of_def Let_def)
    show ?thesis
    proof (cases "present (pte_of (mem s) pgdir a)")
      case True
      with w(1) False ld have "map_loop (Suc n) M pgdir a lst pa fl s = Inl (Panics ''remap'')"
        by (simp add: x86_simps [OF M] present_def)
      with True show ?thesis by blast
    next
      case np: False
      define m' where "m' = st32 (mem t) pte (pa OR fl OR 1)"
      note st = store_entry [OF w(2) pr m'_def [unfolded pte]] store_grow [OF w(2) pr m'_def [unfolded pte]]
      have "map_loop (Suc n) M pgdir a lst pa fl s =
        (if a = lst then Inr (0, t\<lparr>mem := m'\<rparr>) else map_loop n M pgdir (a + 4096) lst (pa + 4096) fl (t\<lparr>mem := m'\<rparr>))"
        using w(1) False ld np by (simp add: x86_simps [OF M] present_def m'_def)
      moreover have "pages_grow pgdir (F (heap s)) (mem s) (F (heap t)) m'" using grow_trans [OF w(3) st(5)] .
      ultimately show ?thesis using st(2,3) w(4) by (intro disjI2) (auto intro!: exI [of _ "t\<lparr>mem := m'\<rparr>"])
    qed
  qed
qed

lemma map_loop_ok:
  assumes M: "x86 M" and H: "heap_laws M F"
  shows "pt_wf (mem s) pgdir (F (heap s)) \<Longrightarrow> aligned a \<Longrightarrow> aligned lst \<Longrightarrow> page lst = page a + n \<Longrightarrow>
    (case map_loop (Suc n) M pgdir a lst pa fl s of
       Inl e \<Rightarrow> e = Panics ''remap'' \<and> (\<exists>va. page a \<le> page va \<and> page va \<le> page lst \<and> present (pte_of (mem s) pgdir va))
     | Inr (r, t) \<Rightarrow> pt_wf (mem t) pgdir (F (heap t)) \<and> pages_grow pgdir (F (heap s)) (mem s) (F (heap t)) (mem t) \<and>
         (\<exists>k. (r = 0 \<and> k = Suc n \<or> r = - 1 \<and> k \<le> n) \<and> maps_run pgdir (page a) k pa fl (mem s) (mem t)))"
proof (induction n arbitrary: a pa s)
  case 0
  then have al: "a = lst" using page_eq by simp
  from map_step [OF M H 0(1), of 0 a lst pa fl] show ?case
  proof (elim disjE exE conjE)
    fix t assume "map_loop (Suc 0) M pgdir a lst pa fl s = Inr (- 1, t)" "maps_run pgdir (page a) 0 pa fl (mem s) (mem t)"
      "pt_wf (mem t) pgdir (F (heap t))" "pages_grow pgdir (F (heap s)) (mem s) (F (heap t)) (mem t)"
    then show ?thesis by (auto simp del: map_loop.simps)
  next
    assume "present (pte_of (mem s) pgdir a)" "map_loop (Suc 0) M pgdir a lst pa fl s = Inl (Panics ''remap'')"
    then show ?thesis using al by (auto simp del: map_loop.simps)
  next
    fix t assume "map_loop (Suc 0) M pgdir a lst pa fl s =
      (if a = lst then Inr (0, t) else map_loop 0 M pgdir (a + 4096) lst (pa + 4096) fl t)"
      "pt_wf (mem t) pgdir (F (heap t))" "pages_grow pgdir (F (heap s)) (mem s) (F (heap t)) (mem t)"
      "\<forall>va. pte_of (mem t) pgdir va = (if page va = page a then pa OR fl OR 1 else pte_of (mem s) pgdir va)"
    moreover from this(4) have "maps_run pgdir (page a) (Suc 0) pa fl (mem s) (mem t)"
      by (intro maps_run_Suc [where ?m1.0 = "mem t"]) (auto simp: maps_run_def)
    ultimately show ?thesis using al by (auto simp del: map_loop.simps)
  qed
next
  case (Suc n)
  have ne: "a \<noteq> lst" using Suc.prems(4) by auto
  have "Suc (page a) < 1048576" using Suc.prems(4) page_lt [of lst] by simp
  note nx = next_page [OF Suc.prems(2) this]
  from map_step [OF M H Suc.prems(1), of "Suc n" a lst pa fl] show ?case
  proof (elim disjE exE conjE)
    fix t assume "map_loop (Suc (Suc n)) M pgdir a lst pa fl s = Inr (- 1, t)" "maps_run pgdir (page a) 0 pa fl (mem s) (mem t)"
      "pt_wf (mem t) pgdir (F (heap t))" "pages_grow pgdir (F (heap s)) (mem s) (F (heap t)) (mem t)"
    then show ?thesis by (auto simp del: map_loop.simps)
  next
    assume "present (pte_of (mem s) pgdir a)" "map_loop (Suc (Suc n)) M pgdir a lst pa fl s = Inl (Panics ''remap'')"
    then show ?thesis using Suc.prems(4) by (auto simp del: map_loop.simps)
  next
    fix t assume run: "map_loop (Suc (Suc n)) M pgdir a lst pa fl s =
        (if a = lst then Inr (0, t) else map_loop (Suc n) M pgdir (a + 4096) lst (pa + 4096) fl t)"
      and wf: "pt_wf (mem t) pgdir (F (heap t))" and grow: "pages_grow pgdir (F (heap s)) (mem s) (F (heap t)) (mem t)"
      and pte: "\<forall>va. pte_of (mem t) pgdir va = (if page va = page a then pa OR fl OR 1 else pte_of (mem s) pgdir va)"
    have pl: "page lst = page (a + 4096) + n" using nx Suc.prems(4) by simp
    note IH = Suc.IH [OF wf nx [THEN conjunct2] Suc.prems(3) pl, of "pa + 4096"]
    have run': "map_loop (Suc (Suc n)) M pgdir a lst pa fl s = map_loop (Suc n) M pgdir (a + 4096) lst (pa + 4096) fl t"
      using run ne by simp
    show ?thesis
    proof (cases "map_loop (Suc n) M pgdir (a + 4096) lst (pa + 4096) fl t")
      case (Inl e)
      with IH obtain va where va: "e = Panics ''remap''" "Suc (page a) \<le> page va" "page va \<le> page lst" "present (pte_of (mem t) pgdir va)"
        using nx by (auto simp del: map_loop.simps)
      then have "present (pte_of (mem s) pgdir va)" using pte by simp
      with va Inl run' show ?thesis by (auto simp del: map_loop.simps intro!: exI [of _ va])
    next
      case (Inr z)
      obtain r u where z: "z = (r, u)" by fastforce
      from IH Inr z obtain k where k: "pt_wf (mem u) pgdir (F (heap u))" "pages_grow pgdir (F (heap t)) (mem t) (F (heap u)) (mem u)"
        "r = 0 \<and> k = Suc n \<or> r = - 1 \<and> k \<le> n" "maps_run pgdir (Suc (page a)) k (pa + 4096) fl (mem t) (mem u)"
        using nx by (auto simp del: map_loop.simps)
      have "maps_run pgdir (page a) (Suc k) pa fl (mem s) (mem u)"
        by (rule maps_run_Suc [OF _ k(4)]) (use pte in blast)
      moreover have "r = 0 \<and> Suc k = Suc (Suc n) \<or> r = - 1 \<and> Suc k \<le> Suc n" using k(3) by auto
      ultimately show ?thesis using k(1) grow_trans [OF grow k(2)] Inr z run'
        by (auto simp del: map_loop.simps intro!: exI [of _ "Suc k"])
    qed
  qed
qed

lemma round_down: "unat (push_bit 12 (drop_bit 12 (x :: u32))) = 4096 * page x"
  and page_round_down: "page (push_bit 12 (drop_bit 12 x)) = page x"
  and aligned_round_down: "aligned (push_bit 12 (drop_bit 12 x))"
proof -
  have d: "unat (drop_bit 12 x) = page x"
    unfolding unsigned_drop_bit_eq by (simp add: page_def drop_bit_eq_div take_bit_eq_mod unat_lt)
  have "unat (push_bit 12 (drop_bit 12 x)) = (page x * 4096) mod 4294967296"
    unfolding unsigned_push_bit_eq d by (simp add: push_bit_eq_mult take_bit_eq_mod)
  moreover have "page x * 4096 < 4294967296" using page_lt [of x] by simp
  ultimately show "unat (push_bit 12 (drop_bit 12 x)) = 4096 * page x" by simp
  then show "page (push_bit 12 (drop_bit 12 x)) = page x" by (simp add: page_def [of "push_bit 12 (drop_bit 12 x)"])
  show "aligned (push_bit 12 (drop_bit 12 x))" by (rule aligned_push)
qed

lemma pages_between: "page x \<le> page y \<Longrightarrow>
  unat (push_bit 12 (drop_bit 12 y) - push_bit 12 (drop_bit 12 (x :: u32))) div 4096 = page y - page x"
  by (simp add: unat_sub word_le_nat_alt round_down flip: diff_mult_distrib2)

lemma last_page:
  assumes "0 < unat (sz :: u32)" "unat va + unat sz \<le> 4294967296"
  shows "page va \<le> page (va + sz - 1)"
proof -
  have split: "va + sz - 1 = va + (sz - 1)" by simp
  have "sz \<noteq> 0" using assms(1) by auto
  then have pred: "unat (sz - 1) = unat sz - 1" using unat_pred [of sz] by simp
  have "unat (va + sz - 1) = unat va + (unat sz - 1)"
    unfolding split unat_add pred using assms by simp
  then show ?thesis using assms(1) by (simp add: page_def div_le_mono)
qed

text \<open>C4. \<open>mappages\<close> refines the update of the map from pages to entries: it enters consecutive physical pages
  for exactly the pages the range touches, or, when a table cannot be allocated, for the first of them and
  returns -1; it panics only when a page of the range is mapped already. The directory stays well formed, and no
  memory outside its pages and the free pages is written.\<close>

theorem mappages_maps:
  assumes M: "x86 M" and H: "heap_laws M F" and wf: "pt_wf (mem s) pgdir (F (heap s))"
    and sz: "0 < unat sz" "unat va + unat sz \<le> 4294967296"
  shows "case mappages M pgdir va sz pa fl s of
      Inl e \<Rightarrow> e = Panics ''remap'' \<and> (\<exists>u. page va \<le> page u \<and> page u \<le> page (va + sz - 1) \<and> present (pte_of (mem s) pgdir u))
    | Inr (r, t) \<Rightarrow> pt_wf (mem t) pgdir (F (heap t)) \<and> pages_grow pgdir (F (heap s)) (mem s) (F (heap t)) (mem t) \<and>
        (\<exists>k. (r = 0 \<and> k = Suc (page (va + sz - 1) - page va) \<or> r = - 1 \<and> k \<le> page (va + sz - 1) - page va) \<and>
           maps_run pgdir (page va) k pa fl (mem s) (mem t))"
proof -
  let ?a = "push_bit 12 (drop_bit 12 va)" and ?l = "push_bit 12 (drop_bit 12 (va + sz - 1))"
  have p: "page va \<le> page (va + sz - 1)" by (rule last_page [OF sz])
  have run: "mappages M pgdir va sz pa fl s = map_loop (Suc (page (va + sz - 1) - page va)) M pgdir ?a ?l pa fl s"
    using pages_between [OF p] by (simp add: mappages_def Let_def x86_simps [OF M] del: map_loop.simps)
  have "page ?l = page ?a + (page (va + sz - 1) - page va)" using p by (simp add: page_round_down)
  from map_loop_ok [OF M H wf aligned_round_down aligned_round_down this, of pa fl] show ?thesis
    unfolding run page_round_down .
qed

end
