(* ===== verification/CopyOut.thy ===== *)
theory CopyOut
  imports PageTable
begin

unbundle bit_operations_syntax

text \<open>
  \<open>copyout\<close> through the map from pages to entries, and an environment in which the hypotheses on paging hold.
\<close>

section \<open>User addresses\<close>

text \<open>The kernel address of the byte at a user address, and the pages \<open>uva2ka\<close> accepts.\<close>

definition frame_of :: "bytes \<Rightarrow> u32 \<Rightarrow> u32 \<Rightarrow> u32" where
  "frame_of m pgdir va = table_of (pte_of m pgdir va)"

definition user_addr :: "bytes \<Rightarrow> u32 \<Rightarrow> u32 \<Rightarrow> u32" where
  "user_addr m pgdir va = frame_of m pgdir va + take_bit 12 va"

definition user_page :: "bytes \<Rightarrow> u32 \<Rightarrow> u32 \<Rightarrow> bool" where
  "user_page m pgdir va \<longleftrightarrow> present (pte_of m pgdir va) \<and> pte_of m pgdir va AND 4 \<noteq> 0 \<and>
     frame_of m pgdir va \<notin> insert 0 (table_pages m pgdir)"

text \<open>The bytes from \<open>va\<close> lie in user pages whose frames are different.\<close>

definition user_range :: "bytes \<Rightarrow> u32 \<Rightarrow> u32 \<Rightarrow> nat \<Rightarrow> bool" where
  "user_range m pgdir va n \<longleftrightarrow>
     (\<forall>i < n. user_page m pgdir (va + of_nat i)) \<and>
     (\<forall>i < n. \<forall>j < n. frame_of m pgdir (va + of_nat i) = frame_of m pgdir (va + of_nat j) \<longrightarrow>
        page (va + of_nat i) = page (va + of_nat j))"

definition copied :: "bytes \<Rightarrow> u32 \<Rightarrow> u32 \<Rightarrow> u8 list \<Rightarrow> bytes \<Rightarrow> bool" where
  "copied m pgdir va xs m' \<longleftrightarrow>
     (\<forall>i < length xs. m' (user_addr m pgdir (va + of_nat i)) = xs ! i) \<and>
     (\<forall>x. (\<forall>i < length xs. x \<noteq> user_addr m pgdir (va + of_nat i)) \<longrightarrow> m' x = m x)"

lemma present_pde: "present (pte_of m pgdir va) \<Longrightarrow> present (pde_of m pgdir (dir_index va))"
  by (rule ccontr) (simp add: pte_of_def present_def)

lemma pte_page: "page va = page vb \<Longrightarrow> pte_of m pgdir va = pte_of m pgdir vb"
  using same_page [of va vb] by (simp add: pte_of_def Let_def)

lemma offset_split: "push_bit 12 (drop_bit 12 va) + take_bit 12 va = (va :: u32)"
  by (rule bits_ident)

lemma unat_offset: "unat (take_bit 12 (va :: u32)) < 4096"
  unfolding unsigned_take_bit_eq by (simp add: take_bit_eq_mod)

lemma unat_page_offset: "unat va = 4096 * page va + unat (take_bit 12 (va :: u32))"
  unfolding unsigned_take_bit_eq by (simp add: page_def take_bit_eq_mod)

lemma within_page:
  assumes "unat (take_bit 12 va) + i < 4096"
  shows "page (va + of_nat i) = page va" "take_bit 12 (va + of_nat i) = take_bit 12 va + of_nat i"
proof -
  let ?b = "push_bit 12 (drop_bit 12 va)"
  have o: "unat (take_bit 12 va + of_nat i) = unat (take_bit 12 va) + i"
    using assms by (simp add: unat_add unsigned_of_nat take_bit_eq_mod)
  have s: "va + of_nat i = ?b + (take_bit 12 va + of_nat i)" using offset_split [of va] by (metis add.assoc)
  have lt: "unat (take_bit 12 va + of_nat i) < 4096" using o assms by simp
  show "page (va + of_nat i) = page va"
    unfolding s using page_offset(2) [OF aligned_round_down lt] page_round_down by simp
  then have "unat (va + of_nat i) = 4096 * page va + unat (take_bit 12 (va + of_nat i))"
    using unat_page_offset [of "va + of_nat i"] by simp
  moreover have "unat (va + of_nat i) = 4096 * page va + (unat (take_bit 12 va) + i)"
    unfolding s page_offset(1) [OF aligned_round_down lt] round_down o ..
  ultimately have "unat (take_bit 12 (va + of_nat i)) = unat (take_bit 12 va + of_nat i)" using o by simp
  then show "take_bit 12 (va + of_nat i) = take_bit 12 va + of_nat i" by (simp only: word_unat_eq_iff)
qed

text \<open>Where a piece that stays inside one page lands.\<close>

lemma piece_addr:
  assumes "unat (take_bit 12 va) + i < 4096"
  shows "frame_of m pgdir (va + of_nat i) = frame_of m pgdir va"
    "user_addr m pgdir (va + of_nat i) = user_addr m pgdir va + of_nat i"
  using within_page [OF assms] pte_page [OF within_page(1) [OF assms], of m pgdir]
  by (simp_all add: user_addr_def frame_of_def add.assoc)

lemma user_addr_page: "page (user_addr m pgdir va) = page (frame_of m pgdir va)"
  unfolding user_addr_def by (rule page_offset(2)) (simp_all add: frame_of_def unat_offset)

lemma poke_piece:
  assumes "unat (take_bit 12 va) + length xs \<le> 4096"
  shows "copied m pgdir va xs (put_bytes m (user_addr m pgdir va) xs)"
proof -
  let ?a = "user_addr m pgdir va"
  have len: "length xs \<le> 4294967296" "length xs \<le> 4096" using assms by simp_all
  have idx: "unat (?a + of_nat i - ?a) = i" if "i < length xs" for i
    using that len by (simp add: unsigned_of_nat take_bit_eq_mod)
  have at: "user_addr m pgdir (va + of_nat i) = ?a + of_nat i" if "i < length xs" for i
    using piece_addr(2) that assms by simp
  show ?thesis
    unfolding copied_def
  proof (intro conjI allI impI)
    fix i assume "i < length xs"
    then show "put_bytes m ?a xs (user_addr m pgdir (va + of_nat i)) = xs ! i"
      using put_bytes_at [OF len(1), of m ?a "?a + of_nat i"] idx at by simp
  next
    fix x assume x: "\<forall>i < length xs. x \<noteq> user_addr m pgdir (va + of_nat i)"
    have "\<not> unat (x - ?a) < length xs"
    proof
      assume "unat (x - ?a) < length xs"
      with x at have "x \<noteq> ?a + of_nat (unat (x - ?a))" by metis
      then show False by simp
    qed
    then show "put_bytes m ?a xs x = m x" using put_bytes_at [OF len(1), of m ?a x] by simp
  qed
qed

text \<open>Copying keeps the entries, since no user frame is a page of the directory.\<close>

lemma copied_entries:
  assumes "copied m pgdir va xs m'" "user_range m pgdir va n" "length xs \<le> n" "aligned pgdir"
    and "\<And>T. T \<in> table_pages m pgdir \<Longrightarrow> aligned T"
  shows "pte_of m' pgdir vb = pte_of m pgdir vb" "table_pages m' pgdir = table_pages m pgdir"
    "pt_wf m pgdir free \<Longrightarrow> pt_wf m' pgdir free"
proof -
  have same: "m' x = m x" if x: "page x \<in> page ` table_pages m pgdir" for x
  proof -
    have "x \<noteq> user_addr m pgdir (va + of_nat i)" if i: "i < length xs" for i
    proof
      assume "x = user_addr m pgdir (va + of_nat i)"
      then obtain T where T: "T \<in> table_pages m pgdir" "page (frame_of m pgdir (va + of_nat i)) = page T"
        using x user_addr_page by auto
      then have "frame_of m pgdir (va + of_nat i) = T" using page_eq assms(5) by (simp add: frame_of_def)
      with T(1) assms(2,3) i show False by (auto simp: user_range_def user_page_def)
    qed
    with assms(1) show ?thesis unfolding copied_def by blast
  qed
  show "pte_of m' pgdir vb = pte_of m pgdir vb" by (rule agree_entries(2) [OF assms(4) same])
  show "pt_wf m pgdir free \<Longrightarrow> pt_wf m' pgdir free" by (erule agree_wf, erule same, rule order_refl)
  have pde: "pde_of m' pgdir d = pde_of m pgdir d" if "unat d < 1024" for d
    by (rule agree_entries(1) [OF assms(4) same that])
  have "(T = table_of (pde_of m' pgdir d) \<and> unat d < 1024 \<and> present (pde_of m' pgdir d)) =
    (T = table_of (pde_of m pgdir d) \<and> unat d < 1024 \<and> present (pde_of m pgdir d))" for T d
    using pde [of d] by (cases "unat d < 1024") simp_all
  then show "table_pages m' pgdir = table_pages m pgdir"
    unfolding table_pages_def by presburger
qed

lemma copied_append:
  assumes "copied m pgdir va xs m1" "copied m1 pgdir (va + of_nat (length xs)) ys m2"
    and "\<And>vb. user_addr m1 pgdir vb = user_addr m pgdir vb"
    and "\<And>i j. i < length xs \<Longrightarrow> j < length ys \<Longrightarrow>
      user_addr m pgdir (va + of_nat i) \<noteq> user_addr m pgdir (va + of_nat (length xs + j))"
  shows "copied m pgdir va (xs @ ys) m2"
  unfolding copied_def
proof (intro conjI allI impI)
  have shift: "va + of_nat (length xs) + of_nat j = va + of_nat (length xs + j)" for j by (simp add: add.assoc)
  have y: "m2 (user_addr m pgdir (va + of_nat (length xs + j))) = ys ! j" if "j < length ys" for j
    using assms(2,3) that unfolding copied_def shift by simp
  have rest: "m2 x = m1 x" if "\<forall>j < length ys. x \<noteq> user_addr m pgdir (va + of_nat (length xs + j))" for x
    using assms(2,3) that unfolding copied_def shift by simp
  fix i assume i: "i < length (xs @ ys)"
  show "m2 (user_addr m pgdir (va + of_nat i)) = (xs @ ys) ! i"
  proof (cases "i < length xs")
    case True
    then have "m2 (user_addr m pgdir (va + of_nat i)) = m1 (user_addr m pgdir (va + of_nat i))"
      using assms(4) by (intro rest) blast
    with True assms(1) show ?thesis by (simp add: copied_def nth_append)
  next
    case False
    with i y [of "i - length xs"] show ?thesis by (simp add: nth_append)
  qed
next
  fix x assume x: "\<forall>i < length (xs @ ys). x \<noteq> user_addr m pgdir (va + of_nat i)"
  have "m2 x = m1 x"
    using assms(2,3) x unfolding copied_def by (simp add: add.assoc flip: of_nat_add)
  also have "\<dots> = m x" using assms(1) x unfolding copied_def by simp
  finally show "m2 x = m x" .
qed


lemma user_addr_inj:
  assumes "user_range m pgdir va n" "unat va + n \<le> 4294967296" "i < n" "j < n"
    and "user_addr m pgdir (va + of_nat i) = user_addr m pgdir (va + of_nat j)"
  shows "i = j"
proof -
  have "page (frame_of m pgdir (va + of_nat i)) = page (frame_of m pgdir (va + of_nat j))"
    using assms(5) user_addr_page by metis
  then have f: "frame_of m pgdir (va + of_nat i) = frame_of m pgdir (va + of_nat j)"
    using page_eq by (simp add: frame_of_def)
  then have "page (va + of_nat i) = page (va + of_nat j)" using assms(1,3,4) unfolding user_range_def by blast
  moreover have "take_bit 12 (va + of_nat i) = take_bit 12 (va + of_nat j)" using assms(5) f by (simp add: user_addr_def)
  ultimately have "unat (va + of_nat i) = unat (va + of_nat j)"
    using unat_page_offset [of "va + of_nat i"] unat_page_offset [of "va + of_nat j"] by simp
  moreover have "unat (va + of_nat k) = unat va + k" if "k < n" for k
    using that assms(2) by (simp add: unat_add unsigned_of_nat take_bit_eq_mod)
  ultimately show ?thesis using assms(3,4) by simp
qed

text \<open>\<open>uva2ka\<close> of a user page is its frame.\<close>

lemma uva2ka_frame:
  assumes M: "x86 M" and wf: "pt_wf (mem s) pgdir free" and u: "user_page (mem s) pgdir va"
  shows "uva2ka M pgdir (push_bit 12 (drop_bit 12 va)) s = Inr (frame_of (mem s) pgdir va, s)"
proof -
  let ?b = "push_bit 12 (drop_bit 12 va)"
  let ?T = "table_of (pde_of (mem s) pgdir (dir_index va))"
  have i: "dir_index ?b = dir_index va" "tab_index ?b = tab_index va"
    using same_page [OF page_round_down] by blast+
  have pr: "present (pde_of (mem s) pgdir (dir_index va))" using u present_pde by (simp add: user_page_def)
  then have "?T \<noteq> 0" using pt_wfD(4) [OF wf dir_index_lt] by simp
  then have nz: "slot ?T (tab_index va) \<noteq> 0"
    using unat_slot [of ?T "tab_index va"] by (metis aligned_table tab_index_lt add_is_0 unsigned_0 unsigned_eq_0_iff)
  have walk: "walkpgdir M pgdir ?b False s = Inr (slot ?T (tab_index va), s)"
    using pr i by (simp add: walkpgdir_def Let_def x86_simps [OF M] pde_of_def present_def table_of_def)
  have ld: "ld32 (mem s) (slot ?T (tab_index va)) = pte_of (mem s) pgdir va" using pr by (simp add: pte_of_def Let_def)
  show ?thesis
    using u walk nz ld by (simp add: uva2ka_def x86_simps [OF M] user_page_def present_def frame_of_def table_of_def)
qed

lemma user_range_later:
  assumes "user_range m pgdir va (k + n)" "\<And>vb. pte_of m' pgdir vb = pte_of m pgdir vb" "table_pages m' pgdir = table_pages m pgdir"
  shows "user_range m' pgdir (va + of_nat k) n"
proof -
  have f: "frame_of m' pgdir vb = frame_of m pgdir vb" for vb by (simp add: frame_of_def assms(2))
  have sh: "va + of_nat k + of_nat i = va + of_nat (k + i)" for i by (simp add: add.assoc)
  from assms(1) show ?thesis
    unfolding user_range_def user_page_def f sh assms(2,3) by (meson add_less_cancel_left)
qed

lemma copyout_loop_ok:
  assumes M: "x86 M"
  shows "pt_wf (mem s) pgdir free \<Longrightarrow> user_range (mem s) pgdir va (length xs) \<Longrightarrow> unat va + length xs \<le> 4294967296 \<Longrightarrow>
    length xs \<le> fuel \<Longrightarrow> \<exists>t. copyout_loop fuel M pgdir va xs s = Inr (0, t) \<and> copied (mem s) pgdir va xs (mem t) \<and>
      (\<forall>vb. pte_of (mem t) pgdir vb = pte_of (mem s) pgdir vb)"
proof (induction fuel arbitrary: va xs s)
  case 0
  then show ?case by (simp add: copied_def)
next
  case (Suc fuel)
  show ?case
  proof (cases xs)
    case Nil
    then show ?thesis by (simp add: copied_def)
  next
    case (Cons y ys)
    let ?off = "take_bit 12 va"
    let ?b = "push_bit 12 (drop_bit 12 va)"
    define n where "n = min (4096 - unat ?off) (length xs)"
    have off: "unat ?off < 4096" by (rule unat_offset)
    have n: "0 < n" "n \<le> length xs" "unat ?off + n \<le> 4096" using Cons off by (auto simp: n_def)
    have diff: "va - ?b = ?off" using offset_split [of va] by (metis add_diff_cancel_left')
    have room: "unat (4096 - ?off) = 4096 - unat ?off" using off by (simp add: unat_sub word_le_nat_alt)
    have u: "user_page (mem s) pgdir va" using Suc.prems(2) Cons unfolding user_range_def by force
    have fr: "frame_of (mem s) pgdir va \<noteq> 0" using u by (simp add: user_page_def)
    define s1 where "s1 = s\<lparr>mem := put_bytes (mem s) (user_addr (mem s) pgdir va) (take n xs)\<rparr>"
    have run: "copyout_loop (Suc fuel) M pgdir va xs s = copyout_loop fuel M pgdir (?b + 4096) (drop n xs) s1"
      using uva2ka_frame [OF M Suc.prems(1) u] fr Cons
      by (simp add: Let_def x86_simps [OF M] diff room n_def s1_def user_addr_def del: take_Suc_Cons drop_Suc_Cons)
    have len: "length (take n xs) = n" using n by simp
    have c1: "copied (mem s) pgdir va (take n xs) (mem s1)"
      using poke_piece [of va "take n xs" "mem s" pgdir] n len by (simp add: s1_def)
    have al: "aligned T" if "T \<in> table_pages (mem s) pgdir" for T
      using that pt_wfD(1) [OF Suc.prems(1)] by (auto simp: table_pages_def)
    note ce = copied_entries [OF c1 Suc.prems(2) _ pt_wfD(1) [OF Suc.prems(1)] al]
    have pte1: "pte_of (mem s1) pgdir vb = pte_of (mem s) pgdir vb" for vb using ce(1) n len by simp
    have tab1: "table_pages (mem s1) pgdir = table_pages (mem s) pgdir" using ce(2) n len by simp
    show ?thesis
    proof (cases "n = length xs")
      case True
      with run c1 pte1 show ?thesis by simp
    next
      case False
      then have n4: "unat ?off + n = 4096" using off by (simp add: n_def min_def split: if_splits)
      have "?off + of_nat n = (4096 :: u32)"
        using n4 by (simp add: word_unat_eq_iff unat_add unsigned_of_nat take_bit_eq_mod)
      then have next_va: "?b + 4096 = va + of_nat n" using offset_split [of va] by (metis add.assoc)
      define rest where "rest = drop n xs"
      have xs: "xs = take n xs @ rest" and lr: "length xs = n + length rest" "0 < length rest"
        using False n(2) by (simp_all add: rest_def)
      have sn: "unat (va + of_nat n) = unat va + n"
      proof -
        have "n < 4294967296" "unat va + n < 4294967296" using Suc.prems(3) lr by linarith+
        then show ?thesis by (simp add: unat_add unsigned_of_nat take_bit_eq_mod)
      qed
      have wf1: "pt_wf (mem s1) pgdir free" using ce(3) n len Suc.prems(1) by simp
      have range1: "user_range (mem s1) pgdir (va + of_nat n) (length rest)"
        by (rule user_range_later [OF _ pte1 tab1]) (use Suc.prems(2) lr in simp)
      have "unat (va + of_nat n) + length rest \<le> 4294967296" "length rest \<le> fuel"
        using sn Suc.prems(3,4) lr n(1) by simp_all
      from Suc.IH [OF wf1 range1 this] obtain t where t:
        "copyout_loop fuel M pgdir (va + of_nat n) rest s1 = Inr (0, t)" "copied (mem s1) pgdir (va + of_nat n) rest (mem t)"
        "\<forall>vb. pte_of (mem t) pgdir vb = pte_of (mem s1) pgdir vb" by blast
      have "copied (mem s) pgdir va (take n xs @ rest) (mem t)"
      proof (rule copied_append [OF c1])
        show "copied (mem s1) pgdir (va + of_nat (length (take n xs))) rest (mem t)" using t(2) len by simp
        show "user_addr (mem s1) pgdir vb = user_addr (mem s) pgdir vb" for vb
          by (simp add: user_addr_def frame_of_def pte1)
        show "user_addr (mem s) pgdir (va + of_nat i) \<noteq> user_addr (mem s) pgdir (va + of_nat (length (take n xs) + j))"
          if "i < length (take n xs)" "j < length rest" for i j
          using user_addr_inj [OF Suc.prems(2,3), of i "n + j"] that lr len by auto
      qed
      with t run next_va xs pte1 show ?thesis by (auto simp: rest_def)
    qed
  qed
qed


text \<open>C5. When the bytes from a user address on lie in present user pages with frames of their own, \<open>copyout\<close>
  returns 0 and has written the buffer byte by byte to the physical pages the page table gives, across page
  boundaries, and nothing else: no other byte of memory, and so no entry of the page table, changes.\<close>

theorem copyout_copies:
  assumes "x86 M" "pt_wf (mem s) pgdir free" "user_range (mem s) pgdir va (length p)" "unat va + length p \<le> 4294967296"
  shows "\<exists>t. copyout M pgdir va p s = Inr (0, t) \<and> copied (mem s) pgdir va p (mem t) \<and>
    (\<forall>vb. pte_of (mem t) pgdir vb = pte_of (mem s) pgdir vb)"
  unfolding copyout_def by (rule copyout_loop_ok [OF assms order_refl])


section \<open>The hypotheses can hold\<close>

text \<open>The x86 layout with an allocator that keeps its free pages in a list.\<close>

definition good_page :: "u32 \<Rightarrow> bool" where
  "good_page v \<longleftrightarrow> aligned v \<and> v \<noteq> 0"

definition listed :: "u32 list \<Rightarrow> u32 set" where
  "listed h = set (filter good_page h)"

definition take_page :: "u32 list \<Rightarrow> bytes \<Rightarrow> u32 \<times> u32 list \<times> bytes" where
  "take_page h m = (case filter good_page h of [] \<Rightarrow> (0, h, m) | v # vs \<Rightarrow> (v, removeAll v h, m))"

definition example_mmu :: "u32 list mmu" where
  "example_mmu =
     \<lparr>PGSIZE = 4096, PDX = drop_bit 22, PTX = (\<lambda>a. take_bit 10 (drop_bit 12 a)), PTE_ADDR = (\<lambda>e. push_bit 12 (drop_bit 12 e)),
      PTE_FLAGS = take_bit 12, PTE_P = 1, PTE_W = 2, PTE_U = 4, PGROUNDUP = (\<lambda>a. push_bit 12 (drop_bit 12 (a + 4095))),
      PGROUNDDOWN = (\<lambda>a. push_bit 12 (drop_bit 12 a)), PGADDR = (\<lambda>d t o'. push_bit 22 d OR push_bit 12 t OR o'),
      NPDENTRIES = 1024, KBASE = 0x80000000, P2V = (\<lambda>a. a + 0x80000000), V2P = (\<lambda>a. a - 0x80000000),
      KERNLINK = 0x80100000, EXTMEM = 0x100000, PHYSTOP = 0xE000000, DEVSPACE = 0xFE000000, data_start = 0x80108000,
      SEG = (\<lambda>_ _ _ _. 0), SEG16 = (\<lambda>_ _ _ _. 0), clear_s = id, STA_X = 8, STA_R = 2, STA_W = 2,
      STS_T32A = 9, DPL_USER = 3, SEG_KCODE = 1, SEG_KDATA = 2, SEG_UCODE = 3, SEG_UDATA = 4, SEG_TSS = 5, ts_addr = 0,
      ts_size = 104, kalloc_page = take_page, kfree_page = (\<lambda>v h m. (v # h, m))\<rparr>"

lemma example_x86: "x86 example_mmu"
  by (simp add: x86_def example_mmu_def)

lemma example_heap: "heap_laws example_mmu listed"
  unfolding heap_laws_def
proof (intro conjI allI impI)
  fix h m v h' m'
  assume k: "kalloc_page example_mmu h m = (v, h', m')"
  show "v = 0 \<and> listed h' = listed h \<or> v \<in> listed h \<and> listed h' = listed h - {v}"
  proof (cases "filter good_page h")
    case Nil
    with k show ?thesis by (simp add: example_mmu_def take_page_def)
  next
    case (Cons u us)
    with k have eq: "v = u" "h' = removeAll u h" by (auto simp: example_mmu_def take_page_def)
    have "u \<in> set (filter good_page h)" unfolding Cons by simp
    then have "u \<in> listed h" unfolding listed_def .
    moreover have "listed (removeAll u h) = listed h - {u}" by (auto simp: listed_def)
    ultimately show ?thesis unfolding eq by blast
  qed
  show "m' x = m x" if "page x \<notin> page ` listed h" for x
    using k by (auto simp: example_mmu_def take_page_def split: list.splits)
next
  fix v h m h' m'
  assume "aligned v \<and> v \<noteq> 0 \<and> kfree_page example_mmu v h m = (h', m')"
  then show "listed h' = insert v (listed h)" by (auto simp: example_mmu_def listed_def good_page_def)
next
  fix v h m h' m' x
  assume "aligned v \<and> v \<noteq> 0 \<and> kfree_page example_mmu v h m = (h', m')"
  then show "m' x = m x" by (auto simp: example_mmu_def)
qed (auto simp: listed_def good_page_def)

definition example_kern :: "bytes \<Rightarrow> 'd fs \<Rightarrow> ('d, u32 list) kern" where
  "example_kern m f = \<lparr>mem = m, heap = [0x9000, 0xA000], fsys = f,
     kpgdir = 0, cpus = \<lparr>ifl = True, ncli = 0, intena = False\<rparr>, gdt = (\<lambda>_. 0), gdtr = (\<lambda>_. 0), ss0 = 0, esp0 = 0, iomb = 0,
     tr = 0, cr3 = 0\<rparr>"

definition no_fs :: "unit fs" where
  "no_fs = \<lparr>disk = (), sb = \<lparr>sb_size = 0, nblocks = 0, ninodes = 0, nlog = 0, logstart = 0, inodestart = 0, bmapstart = 0\<rparr>, icache = []\<rparr>"

text \<open>A directory at 0x1000 with one table at 0x2000, which maps the first user page to the frame 0x3000.\<close>

definition empty_dir :: bytes where
  "empty_dir = (\<lambda>_. 0)"

definition one_page :: bytes where
  "one_page = st32 (st32 empty_dir (slot 0x1000 0) 0x80002007) (slot 0x2000 0) 0x80003007"

lemma example_aligned [simp]: "aligned 0x1000" "aligned 0x2000" "aligned 0x9000" "aligned 0xA000"
  by (simp_all add: aligned_def)

lemma pde_empty: "pde_of empty_dir 0x1000 d = 0"
  by (simp add: pde_of_def ld32_def empty_dir_def)

lemma pde_one: "unat d < 1024 \<Longrightarrow> pde_of one_page 0x1000 d = (if d = 0 then 0x80002007 else 0)"
  using pde_empty by (simp add: pde_of_def one_page_def ld32_st32_slot)

lemma table_one: "table_of 0x80002007 = 0x2000" "table_of 0x80003007 = 0x3000" "present 0x80002007" "present 0x80003007"
  by (simp_all add: table_of_def present_def)

lemma wf_empty: "pt_wf empty_dir 0x1000 (listed [0x9000, 0xA000])"
  by (simp add: pt_wf_def pde_empty present_def listed_def)

lemma wf_one: "pt_wf one_page 0x1000 {}"
  by (simp add: pt_wf_def pde_one table_one present_def [of 0])

lemma tables_one: "table_pages one_page 0x1000 \<subseteq> {0x1000, 0x2000}"
  by (auto simp: table_pages_def pde_one table_one present_def [of 0] split: if_splits)

theorem mappages_maps_witness:
  "\<exists>r t. mappages example_mmu 0x1000 0x5000 4096 0x7000 6 (example_kern empty_dir no_fs) = Inr (r, t) \<and>
     pt_wf (mem t) 0x1000 (listed (heap t))"
proof -
  have wf: "pt_wf (mem (example_kern empty_dir no_fs)) 0x1000 (listed (heap (example_kern empty_dir no_fs)))"
    using wf_empty by (simp add: example_kern_def)
  have none: "\<not> present (pte_of (mem (example_kern empty_dir no_fs)) 0x1000 u)" for u
    by (simp add: example_kern_def pte_of_def pde_empty present_def)
  show ?thesis
    using mappages_maps [OF example_x86 example_heap wf, of 4096 "0x5000" "0x7000" 6] none
    by (cases "mappages example_mmu 0x1000 0x5000 4096 0x7000 6 (example_kern empty_dir no_fs)") auto
qed

theorem copyout_copies_witness:
  "\<exists>t. copyout example_mmu 0x1000 16 [1, 2] (example_kern one_page no_fs) = Inr (0, t) \<and> mem t 0x3010 = 1 \<and> mem t 0x3011 = 2"
proof -
  have two: "i < 2 \<Longrightarrow> i = 0 \<or> i = (1 :: nat)" for i by auto
  have pte: "pte_of one_page 0x1000 va = 0x80003007" if "dir_index va = 0" "tab_index va = 0" for va
    using that by (simp add: pte_of_def Let_def pde_one table_one) (simp add: one_page_def)
  have i: "dir_index 16 = 0" "tab_index 16 = 0" "dir_index 17 = 0" "tab_index 17 = 0"
    by (simp_all add: dir_index_def tab_index_def)
  have u: "user_addr one_page 0x1000 16 = 0x3010" "user_addr one_page 0x1000 17 = 0x3011"
    by (simp_all add: user_addr_def frame_of_def pte i table_one)
  have range: "user_range one_page 0x1000 16 2"
    using tables_one
    by (auto simp: user_range_def user_page_def frame_of_def pte i table_one page_def dest!: two)
  note range = range [unfolded numeral_2_eq_2]
  have k: "mem (example_kern one_page no_fs) = one_page" by (simp add: example_kern_def)
  from copyout_copies [OF example_x86, of "example_kern one_page no_fs" "0x1000" "{}" 16 "[1, 2]"] range wf_one
  obtain t where t: "copyout example_mmu 0x1000 16 [1, 2] (example_kern one_page no_fs) = Inr (0, t)"
    "copied one_page 0x1000 16 [1, 2] (mem t)" unfolding k by auto
  have "mem t (user_addr one_page 0x1000 (16 + of_nat i)) = [1, 2] ! i" if "i < 2" for i
    using t(2) that unfolding copied_def by simp
  from this [of 0] this [of 1] t(1) u show ?thesis by simp
qed

end
