(* ===== verification/Exec.thy ===== *)
theory Exec
  imports FsDir FsBitmap CopyOut
begin

unbundle bit_operations_syntax

text \<open>
  \<open>exec.c\<close>: loading a program, from the file system (\<open>FsDir\<close>, \<open>FsInode\<close>) into a new page directory (\<open>Paging\<close>).
  The state adds to that of the kernel the number of file system transactions open and the calling process;
  \<open>begin_op\<close> and \<open>end_op\<close> (\<open>log.c\<close>, not in the repository) are counted.
\<close>

section \<open>ELF files\<close>

definition le16 :: "u8 list \<Rightarrow> nat \<Rightarrow> u32" where
  "le16 bs k = ucast (bs ! k) OR push_bit 8 (ucast (bs ! (k + 1)))"

definition le32 :: "u8 list \<Rightarrow> nat \<Rightarrow> u32" where
  "le32 bs k = ucast (bs ! k) OR push_bit 8 (ucast (bs ! (k + 1))) OR push_bit 16 (ucast (bs ! (k + 2))) OR
     push_bit 24 (ucast (bs ! (k + 3)))"

definition to_le32 :: "u32 \<Rightarrow> u8 list" where
  "to_le32 w = [ucast w, ucast (drop_bit 8 w), ucast (drop_bit 16 w), ucast (drop_bit 24 w)]"

definition ELF_MAGIC :: u32 where "ELF_MAGIC = 0x464C457F"
definition ELF_PROG_LOAD :: u32 where "ELF_PROG_LOAD = 1"

record elfhdr =
  magic :: u32
  elf_entry :: u32
  phoff :: u32
  phnum :: u32

record proghdr =
  ph_type :: u32
  ph_off :: u32
  ph_vaddr :: u32
  ph_filesz :: u32
  ph_memsz :: u32

definition sizeof_elfhdr :: nat where "sizeof_elfhdr = 52"
definition sizeof_proghdr :: nat where "sizeof_proghdr = 32"

definition get_elfhdr :: "u8 list \<Rightarrow> elfhdr" where
  "get_elfhdr bs = \<lparr>magic = le32 bs 0, elf_entry = le32 bs 24, phoff = le32 bs 28, phnum = le16 bs 44\<rparr>"

definition get_proghdr :: "u8 list \<Rightarrow> proghdr" where
  "get_proghdr bs = \<lparr>ph_type = le32 bs 0, ph_off = le32 bs 4, ph_vaddr = le32 bs 8, ph_filesz = le32 bs 16, ph_memsz = le32 bs 20\<rparr>"

section \<open>The state\<close>

record ('d, 'k) xst =
  kn :: "('d, 'k) kern"
  ops :: int
  cur :: proc

type_synonym ('d, 'k, 'a) xm = "(('d, 'k) xst, 'a) km"

definition on_k :: "('d, 'k, 'a) vmm \<Rightarrow> ('d, 'k, 'a) xm" where
  "on_k f s = (case f (kn s) of Inl e \<Rightarrow> Inl e | Inr (x, t) \<Rightarrow> Inr (x, s\<lparr>kn := t\<rparr>))"

definition begin_op :: "('d, 'k, unit) xm" where
  "begin_op = fmod (\<lambda>s. s\<lparr>ops := ops s + 1\<rparr>)"

definition end_op :: "('d, 'k, unit) xm" where
  "end_op = fmod (\<lambda>s. s\<lparr>ops := ops s - 1\<rparr>)"

text \<open>The environment of the call: the paging and file system parameters, \<open>safestrcpy\<close> into the name of the
  process, and the process number and current directory.\<close>

record ('d, 'k) xenv =
  mm :: "'k mmu"
  fsenv :: "'d env"
  safestrcpy :: "string \<Rightarrow> string"
  my_pid :: nat
  my_cwd :: nat

definition MAXARG :: nat where "MAXARG = 32"

section \<open>Loading\<close>

text \<open>The loop over the program headers; \<open>None\<close> is \<open>goto bad\<close>.\<close>

fun load_segments :: "nat \<Rightarrow> ('d, 'k) xenv \<Rightarrow> nat \<Rightarrow> u32 \<Rightarrow> u32 \<Rightarrow> u32 \<Rightarrow> ('d, 'k, u32 option) xm" where
  "load_segments 0 X ip pgdir ofs sz = fret (Some sz)"
| "load_segments (Suc n) X ip pgdir ofs sz =
     fbind (on_k (on_fs (readi (fsenv X) ip ofs (of_nat sizeof_proghdr)))) (\<lambda>(r, bs).
       if r \<noteq> int sizeof_proghdr then fret None
       else
         (let ph = get_proghdr bs; next_ofs = ofs + of_nat sizeof_proghdr in
          if ph_type ph \<noteq> ELF_PROG_LOAD then load_segments n X ip pgdir next_ofs sz
          else if ph_memsz ph < ph_filesz ph then fret None
          else if ph_vaddr ph + ph_memsz ph < ph_vaddr ph then fret None
          else
            fbind (on_k (allocuvm (mm X) pgdir sz (ph_vaddr ph + ph_memsz ph))) (\<lambda>sz1.
              if sz1 = 0 then fret None
              else if ph_vaddr ph mod PGSIZE (mm X) \<noteq> 0 then fret None
              else
                fbind (on_k (loaduvm (mm X) (fsenv X) pgdir (ph_vaddr ph) ip (ph_off ph) (ph_filesz ph))) (\<lambda>l.
                  if l < 0 then fret None else load_segments n X ip pgdir next_ofs sz1))))"

text \<open>Pushing the argument strings: the stack pointer and the pointers stored in \<open>ustack[3..]\<close>.\<close>

definition c_string :: "string \<Rightarrow> u8 list" where
  "c_string w = map of_char w @ [0]"

fun push_args :: "('d, 'k) xenv \<Rightarrow> u32 \<Rightarrow> nat \<Rightarrow> u32 \<Rightarrow> u32 list \<Rightarrow> string list \<Rightarrow> ('d, 'k, (u32 \<times> u32 list) option) xm" where
  "push_args X pgdir argc sp ptrs [] = fret (Some (sp, ptrs))"
| "push_args X pgdir argc sp ptrs (w # ws) =
     (if argc \<ge> MAXARG then fret None
      else
        (let sp1 = (sp - of_nat (length w + 1)) AND NOT 3 in
         fbind (on_k (copyout (mm X) pgdir sp1 (c_string w))) (\<lambda>r.
           if r < 0 then fret None else push_args X pgdir (Suc argc) sp1 (ptrs @ [sp1]) ws)))"

definition ustack :: "u32 \<Rightarrow> u32 list \<Rightarrow> u32 list" where
  "ustack sp ptrs =
     (let argc = of_nat (length ptrs) in [0xffffffff, argc, sp - (argc + 1) * 4] @ ptrs @ [0])"

definition base_name :: "string \<Rightarrow> string" where
  "base_name path = rev (takeWhile (\<lambda>c. c \<noteq> slash) (rev path))"

text \<open>The code at \<open>bad\<close>.\<close>

definition exec_bad :: "('d, 'k) xenv \<Rightarrow> u32 \<Rightarrow> nat option \<Rightarrow> ('d, 'k, int) xm" where
  "exec_bad X pgdir ip =
     fbind (if pgdir \<noteq> 0 then on_k (freevm (mm X) pgdir) else fret ()) (\<lambda>_.
     fbind (case ip of
         Some i \<Rightarrow> fbind (on_k (on_fs (iunlockput (fsenv X) (my_pid X) i))) (\<lambda>_. end_op)
       | None \<Rightarrow> fret ()) (\<lambda>_.
     fret (- 1)))"

text \<open>From the stack to the commit, when the file has been read and put back.\<close>

definition exec_stack :: "('d, 'k) xenv \<Rightarrow> string \<Rightarrow> string list \<Rightarrow> elfhdr \<Rightarrow> u32 \<Rightarrow> u32 \<Rightarrow> ('d, 'k, int) xm" where
  "exec_stack X path argv elf pgdir sz0 =
     (let M = mm X; sz = PGROUNDUP M sz0 in
      fbind (on_k (allocuvm M pgdir sz (sz + 2 * PGSIZE M))) (\<lambda>sz1.
        if sz1 = 0 then exec_bad X pgdir None
        else
          fbind (on_k (clearpteu M pgdir (sz1 - 2 * PGSIZE M))) (\<lambda>_.
          fbind (push_args X pgdir 0 sz1 [] argv) (\<lambda>z.
            case z of
              None \<Rightarrow> exec_bad X pgdir None
            | Some (sp, ptrs) \<Rightarrow>
                (let sp1 = sp - of_nat ((3 + length ptrs + 1) * 4) in
                 fbind (on_k (copyout M pgdir sp1 (concat (map to_le32 (ustack sp ptrs))))) (\<lambda>r.
                   if r < 0 then exec_bad X pgdir None
                   else
                     fbind (fget (\<lambda>s. pgdir_of (cur s))) (\<lambda>oldpgdir.
                     fbind (fmod (\<lambda>s. s\<lparr>cur := (cur s)\<lparr>p_name := safestrcpy X (base_name path), pgdir_of := pgdir, p_sz := sz1,
                       eip := elf_entry elf, esp := sp1\<rparr>\<rparr>)) (\<lambda>_.
                     fbind (fget cur) (\<lambda>p.
                     fbind (on_k (switchuvm M (Some p))) (\<lambda>_.
                     fbind (on_k (freevm M oldpgdir)) (\<lambda>_.
                     fret 0)))))))))))"

definition exec :: "('d, 'k) xenv \<Rightarrow> string \<Rightarrow> string list \<Rightarrow> ('d, 'k, int) xm" where
  "exec X path argv =
     fbind begin_op (\<lambda>_.
     fbind (on_k (on_fs (namei (fsenv X) (my_pid X) (my_cwd X) path))) (\<lambda>found.
       case found of
         None \<Rightarrow> fbind end_op (\<lambda>_. fret (- 1))
       | Some ip \<Rightarrow>
           fbind (on_k (on_fs (ilock (fsenv X) (my_pid X) ip))) (\<lambda>_.
           fbind (on_k (on_fs (readi (fsenv X) ip 0 (of_nat sizeof_elfhdr)))) (\<lambda>(r, bs).
             if r \<noteq> int sizeof_elfhdr then exec_bad X 0 (Some ip)
             else
               (let elf = get_elfhdr bs in
                if magic elf \<noteq> ELF_MAGIC then exec_bad X 0 (Some ip)
                else
                  fbind (on_k (setupkvm (mm X))) (\<lambda>pgdir.
                    if pgdir = 0 then exec_bad X 0 (Some ip)
                    else
                      fbind (load_segments (unat (phnum elf)) X ip pgdir (phoff elf) 0) (\<lambda>z.
                        case z of
                          None \<Rightarrow> exec_bad X pgdir (Some ip)
                        | Some sz \<Rightarrow>
                            fbind (on_k (on_fs (iunlockput (fsenv X) (my_pid X) ip))) (\<lambda>_.
                            fbind end_op (\<lambda>_.
                            exec_stack X path argv elf pgdir sz)))))))))"


section \<open>All or nothing\<close>

text \<open>What only \<open>begin_op\<close>, \<open>end_op\<close> and the commit change.\<close>

definition image :: "int \<Rightarrow> proc \<Rightarrow> ('d, 'k) xst \<Rightarrow> bool" where
  "image n p s \<longleftrightarrow> ops s = n \<and> cur s = p"

lemma keeps_on_k [inv_intros]: "keeps (image n p) (on_k f)"
  by (auto simp: keeps_def image_def on_k_def split: sum.splits)

lemma keeps_load_segments [inv_intros]: "keeps (image n p) (load_segments k X ip pgdir ofs sz)"
proof (induction k arbitrary: ofs sz)
  case (Suc k)
  show ?case unfolding load_segments.simps by (intro inv_intros Suc.IH)
qed (simp only: load_segments.simps inv_intros)

lemma keeps_push_args [inv_intros]: "keeps (image n p) (push_args X pgdir argc sp ptrs ws)"
proof (induction ws arbitrary: argc sp ptrs)
  case (Cons w ws)
  show ?case unfolding push_args.simps by (intro inv_intros Cons.IH)
qed (simp only: push_args.simps inv_intros)

lemma push_args_length:
  "push_args X pgdir argc sp ptrs ws s = Inr (Some (sp', ptrs'), t) \<Longrightarrow> argc = length ptrs \<Longrightarrow> length ptrs \<le> MAXARG \<Longrightarrow>
   length ptrs' = length ptrs + length ws \<and> length ptrs' \<le> MAXARG"
proof (induction ws arbitrary: argc sp ptrs s)
  case (Cons w ws)
  then show ?case by (fastforce simp: Let_def fbind_eq_Inr split: if_splits)
qed simp

lemma same_image:
  assumes "keeps (image (ops s) (cur s)) m" "m s = Inr (x, t)"
  shows "ops t = ops s \<and> cur t = cur s"
  using keepsD [OF assms(1) _ assms(2)] by (simp add: image_def)

lemmas same_images = same_image [OF keeps_on_k] same_image [OF keeps_load_segments] same_image [OF keeps_push_args]

lemma exec_bad_image:
  "exec_bad X pgdir None s = Inr (r, t) \<Longrightarrow> r = - 1 \<and> ops t = ops s \<and> cur t = cur s"
  "exec_bad X pgdir (Some ip) s = Inr (r, t) \<Longrightarrow> r = - 1 \<and> ops t = ops s - 1 \<and> cur t = cur s"
  by (auto simp: exec_bad_def fbind_eq_Inr end_op_def dest!: same_images split: if_splits)

text \<open>Where the argument strings come to lie below \<open>sp\<close>, each at a multiple of four, and where the stack of the new
  program ends: below them are the return address, the number of arguments, the pointer to the pointers, the
  pointers and a null.\<close>

fun arg_addrs :: "u32 \<Rightarrow> string list \<Rightarrow> u32 list" where
  "arg_addrs sp [] = []"
| "arg_addrs sp (w # ws) = (let a = (sp - of_nat (length w + 1)) AND NOT 3 in a # arg_addrs a ws)"

definition stack_top :: "u32 \<Rightarrow> string list \<Rightarrow> u32" where
  "stack_top limit argv = last (limit # arg_addrs limit argv) - 4 * of_nat (length argv + 4)"

definition stack_words :: "u32 \<Rightarrow> string list \<Rightarrow> u32 list" where
  "stack_words limit argv = [0xffffffff, of_nat (length argv), stack_top limit argv + 12] @ arg_addrs limit argv @ [0]"

text \<open>A successful \<open>copyout\<close> into a page directory, and one for each of a list of blocks of bytes.\<close>

definition copies_out :: "('d, 'k) xenv \<Rightarrow> u32 \<Rightarrow> u32 \<Rightarrow> u8 list \<Rightarrow> ('d, 'k) xst \<Rightarrow> ('d, 'k) xst \<Rightarrow> bool" where
  "copies_out X pgdir va bs s t \<longleftrightarrow> (\<exists>r. on_k (copyout (mm X) pgdir va bs) s = Inr (r, t) \<and> 0 \<le> r)"

fun copies_all :: "('d, 'k) xenv \<Rightarrow> u32 \<Rightarrow> (u32 \<times> u8 list) list \<Rightarrow> ('d, 'k) xst \<Rightarrow> ('d, 'k) xst \<Rightarrow> bool" where
  "copies_all X pgdir [] s t \<longleftrightarrow> t = s"
| "copies_all X pgdir ((va, bs) # vs) s t \<longleftrightarrow> (\<exists>u. copies_out X pgdir va bs s u \<and> copies_all X pgdir vs u t)"

text \<open>Reading the program: the file of that name begins with the header \<open>elf\<close>, and its segments up to the size \<open>sz\<close>
  have been loaded into a new page directory.\<close>

definition loads :: "('d, 'k) xenv \<Rightarrow> string \<Rightarrow> ('d, 'k) xst \<Rightarrow> elfhdr \<Rightarrow> u32 \<Rightarrow> u32 \<Rightarrow> ('d, 'k) xst \<Rightarrow> bool" where
  "loads X path s elf pgdir sz t \<longleftrightarrow>
     (\<exists>ip s1 s2 bs s3 s4 s5.
        on_k (on_fs (namei (fsenv X) (my_pid X) (my_cwd X) path)) s = Inr (Some ip, s1) \<and>
        on_k (on_fs (ilock (fsenv X) (my_pid X) ip)) s1 = Inr ((), s2) \<and>
        on_k (on_fs (readi (fsenv X) ip 0 52)) s2 = Inr ((52, bs), s3) \<and> elf = get_elfhdr bs \<and> magic elf = ELF_MAGIC \<and>
        on_k (setupkvm (mm X)) s3 = Inr (pgdir, s4) \<and> pgdir \<noteq> 0 \<and>
        load_segments (unat (phnum elf)) X ip pgdir (phoff elf) 0 s4 = Inr (Some sz, s5) \<and>
        on_k (on_fs (iunlockput (fsenv X) (my_pid X) ip)) s5 = Inr ((), t))"

text \<open>The stack of the new program: two pages, the lower one taken from the user, the strings and the words.\<close>

definition stacks :: "('d, 'k) xenv \<Rightarrow> string list \<Rightarrow> u32 \<Rightarrow> u32 \<Rightarrow> ('d, 'k) xst \<Rightarrow> u32 \<Rightarrow> ('d, 'k) xst \<Rightarrow> bool" where
  "stacks X argv pgdir sz s limit t \<longleftrightarrow>
     length argv \<le> MAXARG \<and> limit \<noteq> 0 \<and>
     (\<exists>s1 s2.
        on_k (allocuvm (mm X) pgdir (PGROUNDUP (mm X) sz) (PGROUNDUP (mm X) sz + 2 * PGSIZE (mm X))) s = Inr (limit, s1) \<and>
        on_k (clearpteu (mm X) pgdir (limit - 2 * PGSIZE (mm X))) s1 = Inr ((), s2) \<and>
        copies_all X pgdir (zip (arg_addrs limit argv) (map c_string argv) @
          [(stack_top limit argv, concat (map to_le32 (stack_words limit argv)))]) s2 t)"

text \<open>The image after a commit, and what the CPU runs on.\<close>

definition new_image :: "('d, 'k) xenv \<Rightarrow> string \<Rightarrow> string list \<Rightarrow> elfhdr \<Rightarrow> u32 \<Rightarrow> u32 \<Rightarrow> proc \<Rightarrow> proc" where
  "new_image X path argv elf pgdir limit p =
     \<lparr>pgdir_of = pgdir, kstack = kstack p, p_sz = limit, p_name = safestrcpy X (base_name path), eip = elf_entry elf,
      esp = stack_top limit argv\<rparr>"

definition started :: "('d, 'k) xenv \<Rightarrow> string \<Rightarrow> string list \<Rightarrow> elfhdr \<Rightarrow> u32 \<Rightarrow> u32 \<Rightarrow> ('d, 'k) xst \<Rightarrow> ('d, 'k) xst \<Rightarrow> bool" where
  "started X path argv elf pgdir sz s t \<longleftrightarrow>
     (\<exists>limit v w. stacks X argv pgdir sz s limit v \<and> cur t = new_image X path argv elf pgdir limit (cur s) \<and> kstack (cur s) \<noteq> 0 \<and>
        on_k (switchuvm (mm X) (Some (cur t))) (v\<lparr>cur := cur t\<rparr>) = Inr ((), w) \<and>
        on_k (freevm (mm X) (pgdir_of (cur s))) w = Inr ((), t) \<and>
        cr3 (kn t) = V2P (mm X) pgdir \<and> esp0 (kn t) = kstack (cur s) + KSTACKSIZE)"

definition committed :: "('d, 'k) xenv \<Rightarrow> string \<Rightarrow> string list \<Rightarrow> ('d, 'k) xst \<Rightarrow> ('d, 'k) xst \<Rightarrow> bool" where
  "committed X path argv s t \<longleftrightarrow>
     (\<exists>elf pgdir sz u. loads X path (s\<lparr>ops := ops s + 1\<rparr>) elf pgdir sz u \<and> cur u = cur s \<and>
        started X path argv elf pgdir sz (u\<lparr>ops := ops u - 1\<rparr>) t)"

text \<open>Freeing memory leaves the CPU alone.\<close>

definition on_directory :: "u32 \<Rightarrow> u32 \<Rightarrow> ('d, 'k) kern \<Rightarrow> bool" where
  "on_directory c e k \<longleftrightarrow> cr3 k = c \<and> esp0 k = e"

lemma keeps_load [inv_intros]: "keeps (on_directory c e) (load a)"
  and keeps_store [inv_intros]: "keeps (on_directory c e) (store a w)"
  and keeps_kfree [inv_intros]: "keeps (on_directory c e) (kfree M v)"
  and keeps_kalloc [inv_intros]: "keeps (on_directory c e) (kalloc M)"
  and keeps_zero [inv_intros]: "keeps (on_directory c e) (zero_page M v)"
  by (auto simp: keeps_def on_directory_def kfree_def kalloc_def Let_def split: prod.splits)

lemma keeps_walk [inv_intros]: "keeps (on_directory c e) (walkpgdir M pgdir va alloc)"
  unfolding walkpgdir_def by (intro inv_intros)

lemma keeps_dealloc [inv_intros]: "keeps (on_directory c e) (dealloc_loop n M pgdir a oldsz)"
proof (induction n arbitrary: a)
  case 0
  show ?case by (subst dealloc_loop.simps) (simp add: keeps_fret keeps_fail)
next
  case (Suc n)
  show ?case by (subst dealloc_loop.simps, simp only: nat.case) (intro inv_intros Suc.IH)
qed

lemma keeps_tables [inv_intros]: "keeps (on_directory c e) (free_tables M pgdir ks)"
proof (induction ks)
  case (Cons k ks)
  show ?case unfolding free_tables.simps by (intro inv_intros Cons.IH)
qed (simp only: free_tables.simps inv_intros)

lemma keeps_freevm: "keeps (on_directory c e) (freevm M pgdir)"
  unfolding freevm_def deallocuvm_def by (intro inv_intros)

lemma switchuvm_sets:
  assumes "switchuvm M (Some p) k = Inr (x, k')"
  shows "kstack p \<noteq> 0 \<and> pgdir_of p \<noteq> 0 \<and> on_directory (V2P M (pgdir_of p)) (kstack p + KSTACKSIZE) k'"
  using assms
  by (auto simp: switchuvm_def fbind_eq_Inr on_cpu_def on_directory_def split: if_splits sum.splits panic.splits)

lemma switch_and_free:
  assumes "on_k (switchuvm M (Some p)) s = Inr (x, w)" "on_k (freevm M old) w = Inr (y, t)"
  shows "kstack p \<noteq> 0 \<and> pgdir_of p \<noteq> 0 \<and> cr3 (kn t) = V2P M (pgdir_of p) \<and> esp0 (kn t) = kstack p + KSTACKSIZE"
proof -
  from assms obtain k' k where k: "switchuvm M (Some p) (kn s) = Inr (x, k')" "kn w = k'" "freevm M old k' = Inr (y, k)" "kn t = k"
    by (auto simp: on_k_def split: sum.splits prod.splits)
  note S = switchuvm_sets [OF k(1)]
  from keepsD [OF keeps_freevm _ k(3)] S have "on_directory (V2P M (pgdir_of p)) (kstack p + KSTACKSIZE) k" by blast
  with S k(4) show ?thesis by (simp add: on_directory_def)
qed

lemma push_args_copies:
  assumes "push_args X pgdir argc sp ptrs argv s = Inr (Some (sp', ptrs'), t)"
  shows "ptrs' = ptrs @ arg_addrs sp argv \<and> sp' = last (sp # arg_addrs sp argv) \<and>
    copies_all X pgdir (zip (arg_addrs sp argv) (map c_string argv)) s t"
  using assms
proof (induction argv arbitrary: argc sp ptrs s)
  case (Cons w ws)
  let ?a = "(sp - of_nat (length w + 1)) AND NOT 3"
  from Cons.prems obtain r u where r: "on_k (copyout (mm X) pgdir ?a (c_string w)) s = Inr (r, u)" "\<not> r < 0"
    "push_args X pgdir (Suc argc) ?a (ptrs @ [?a]) ws u = Inr (Some (sp', ptrs'), t)"
    by (auto simp: Let_def fbind_eq_Inr split: if_splits)
  from r(1,2) have "copies_out X pgdir ?a (c_string w) s u" by (auto simp: copies_out_def)
  with Cons.IH [OF r(3)] show ?case by (auto simp: Let_def)
qed simp

lemma copies_all_append: "copies_all X pgdir (xs @ ys) s t \<longleftrightarrow> (\<exists>u. copies_all X pgdir xs s u \<and> copies_all X pgdir ys u t)"
proof (induction xs arbitrary: s)
  case (Cons x xs)
  show ?case by (cases x) (simp add: Cons.IH, blast)
qed simp

lemma length_arg_addrs [simp]: "length (arg_addrs sp argv) = length argv"
  by (induction argv arbitrary: sp) (simp_all add: Let_def)

lemma ustack_words: "ustack (last (limit # arg_addrs limit argv)) (arg_addrs limit argv) = stack_words limit argv"
  by (simp add: ustack_def stack_words_def stack_top_def Let_def algebra_simps)

lemma push_args_image:
  assumes "push_args X pgdir 0 sp [] argv s = Inr (Some (sp', ptrs), t)"
  shows "ops t = ops s \<and> cur t = cur s \<and> length argv \<le> MAXARG"
  using same_image [OF keeps_push_args assms] push_args_length [OF assms] by simp

lemma exec_stack_image:
  assumes run: "exec_stack X path argv elf pgdir sz s = Inr (r, t)"
  shows "ops t = ops s \<and> (r = - 1 \<and> cur t = cur s \<or> r = 0 \<and> started X path argv elf pgdir sz s t)"
proof -
  let ?M = "mm X"
  obtain limit s1 where 1: "on_k (allocuvm ?M pgdir (PGROUNDUP ?M sz) (PGROUNDUP ?M sz + 2 * PGSIZE ?M)) s = Inr (limit, s1)"
    using run by (auto simp: exec_stack_def Let_def fbind_eq_Inr)
  note i1 = same_image [OF keeps_on_k 1]
  show ?thesis
  proof (cases "limit = 0")
    case True
    with run 1 have "exec_bad X pgdir None s1 = Inr (r, t)" by (simp add: exec_stack_def Let_def)
    with i1 exec_bad_image(1) show ?thesis by metis
  next
    case lim: False
    then obtain u s2 where 2: "on_k (clearpteu ?M pgdir (limit - 2 * PGSIZE ?M)) s1 = Inr (u, s2)"
      using run 1 by (auto simp: exec_stack_def Let_def fbind_eq_Inr)
    note i2 = same_image [OF keeps_on_k 2]
    from lim obtain z s3 where 3: "push_args X pgdir 0 limit [] argv s2 = Inr (z, s3)"
      using run 1 2 by (auto simp: exec_stack_def Let_def fbind_eq_Inr)
    note i3 = same_image [OF keeps_push_args 3]
    show ?thesis
    proof (cases z)
      case None
      with run 1 2 3 lim have "exec_bad X pgdir None s3 = Inr (r, t)" by (simp add: exec_stack_def Let_def)
      with i1 i2 i3 exec_bad_image(1) show ?thesis by metis
    next
      case (Some w)
      then obtain sp ptrs where w: "z = Some (sp, ptrs)" by (cases w) simp
      note args = push_args_image [OF 3 [unfolded w]]
      from push_args_copies [OF 3 [unfolded w]]
      have ptrs: "ptrs = arg_addrs limit argv" and sp: "sp = last (limit # arg_addrs limit argv)"
        and copies: "copies_all X pgdir (zip (arg_addrs limit argv) (map c_string argv)) s2 s3" by simp_all
      have st: "sp - of_nat ((3 + length ptrs + 1) * 4) = stack_top limit argv"
        by (simp add: ptrs sp stack_top_def algebra_simps)
      have st': "sp - (16 + of_nat (length ptrs) * 4) = stack_top limit argv"
        using st by (simp add: algebra_simps)
      have us: "ustack sp ptrs = stack_words limit argv" unfolding ptrs sp by (rule ustack_words)
      obtain c s4 where 4: "on_k (copyout ?M pgdir (stack_top limit argv) (concat (map to_le32 (stack_words limit argv)))) s3 = Inr (c, s4)"
        using run 1 2 3 lim w by (auto simp: exec_stack_def Let_def fbind_eq_Inr us simp flip: st)
      note i4 = same_image [OF keeps_on_k 4]
      note step4 = 4 [folded us st]
      show ?thesis
      proof (cases "c < 0")
        case True
        with run 1 2 3 step4 lim w have "exec_bad X pgdir None s4 = Inr (r, t)" by (simp add: exec_stack_def Let_def)
        with i1 i2 i3 i4 exec_bad_image(1) show ?thesis by metis
      next
        case False
        let ?q = "new_image X path argv elf pgdir limit (cur s)"
        let ?upd = "(cur s4)\<lparr>p_name := safestrcpy X (base_name path), pgdir_of := pgdir, p_sz := limit, eip := elf_entry elf,
            esp := sp - of_nat ((3 + length ptrs + 1) * 4)\<rparr>"
        have q: "?upd = ?q"
          using i1 i2 i4 args by (cases "cur s") (simp add: new_image_def st')
        from False obtain q0 v w' s5 where q0: "q0 = ?upd" and raw: "on_k (switchuvm ?M (Some q0)) (s4\<lparr>cur := q0\<rparr>) = Inr (v, s5)"
          "on_k (freevm ?M (pgdir_of (cur s4))) s5 = Inr (w', t)" "r = 0"
          using run 1 2 3 step4 lim w by (auto simp: exec_stack_def Let_def fbind_eq_Inr)
        have "q0 = ?q" using q0 by (rule trans) (rule q)
        note 5 = raw [unfolded this]
        have "copies_out X pgdir (stack_top limit argv) (concat (map to_le32 (stack_words limit argv))) s3 s4"
          using 4 False by (auto simp: copies_out_def)
        then have "stacks X argv pgdir sz s limit s4"
          using 1 2 copies lim args by (auto simp: stacks_def copies_all_append)
        moreover note switch_and_free [OF 5(1,2)]
        moreover note same_image [OF keeps_on_k 5(1)] same_image [OF keeps_on_k 5(2)]
        ultimately show ?thesis
          using 5 args i1 i2 i4 by (auto simp: started_def new_image_def)
      qed
    qed
  qed
qed

text \<open>Up to the stack.\<close>

lemma exec_loads:
  assumes "exec X path argv s = Inr (r, t)"
  shows "ops t = ops s \<and> r = - 1 \<and> cur t = cur s \<or>
    (\<exists>elf pgdir sz u. loads X path (s\<lparr>ops := ops s + 1\<rparr>) elf pgdir sz u \<and> ops u = ops s + 1 \<and> cur u = cur s \<and>
       exec_stack X path argv elf pgdir sz (u\<lparr>ops := ops u - 1\<rparr>) = Inr (r, t))"
proof -
  let ?s = "s\<lparr>ops := ops s + 1\<rparr>"
  obtain found s1 where 1: "on_k (on_fs (namei (fsenv X) (my_pid X) (my_cwd X) path)) ?s = Inr (found, s1)"
    using assms by (auto simp: exec_def begin_op_def fbind_eq_Inr)
  note i1 = same_image [OF keeps_on_k 1]
  show ?thesis
  proof (cases found)
    case None
    with assms 1 i1 show ?thesis by (auto simp: exec_def begin_op_def end_op_def)
  next
    case (Some ip)
    obtain x s2 where 2: "on_k (on_fs (ilock (fsenv X) (my_pid X) ip)) s1 = Inr (x, s2)"
      using assms 1 Some by (auto simp: exec_def begin_op_def fbind_eq_Inr)
    obtain n bs s3 where 3: "on_k (on_fs (readi (fsenv X) ip 0 (of_nat sizeof_elfhdr))) s2 = Inr ((n, bs), s3)"
      using assms 1 2 Some by (auto simp: exec_def begin_op_def fbind_eq_Inr)
    note i2 = same_image [OF keeps_on_k 2] and i3 = same_image [OF keeps_on_k 3]
    let ?elf = "get_elfhdr bs"
    show ?thesis
    proof (cases "n = int sizeof_elfhdr \<and> magic ?elf = ELF_MAGIC")
      case False
      with assms 1 2 3 Some have "exec_bad X 0 (Some ip) s3 = Inr (r, t)" by (auto simp: exec_def begin_op_def Let_def split: if_splits)
      with i1 i2 i3 exec_bad_image(2) [of X 0 ip s3 r t] show ?thesis by simp
    next
      case hdr: True
      obtain pgdir s4 where 4: "on_k (setupkvm (mm X)) s3 = Inr (pgdir, s4)"
        using assms 1 2 3 Some hdr by (auto simp: exec_def begin_op_def fbind_eq_Inr Let_def)
      note i4 = same_image [OF keeps_on_k 4]
      show ?thesis
      proof (cases "pgdir = 0")
        case True
        with assms 1 2 3 4 Some hdr have "exec_bad X 0 (Some ip) s4 = Inr (r, t)" by (auto simp: exec_def begin_op_def Let_def)
        with i1 i2 i3 i4 exec_bad_image(2) [of X 0 ip s4 r t] show ?thesis by simp
      next
        case pg: False
        obtain z s5 where 5: "load_segments (unat (phnum ?elf)) X ip pgdir (phoff ?elf) 0 s4 = Inr (z, s5)"
          using assms 1 2 3 4 Some hdr pg by (auto simp: exec_def begin_op_def fbind_eq_Inr Let_def)
        note i5 = same_image [OF keeps_load_segments 5]
        show ?thesis
        proof (cases z)
          case None
          with assms 1 2 3 4 5 Some hdr pg have "exec_bad X pgdir (Some ip) s5 = Inr (r, t)"
            by (auto simp: exec_def begin_op_def Let_def)
          with i1 i2 i3 i4 i5 exec_bad_image(2) [of X pgdir ip s5 r t] show ?thesis by simp
        next
          case (Some sz)
          obtain y u where 6: "on_k (on_fs (iunlockput (fsenv X) (my_pid X) ip)) s5 = Inr (y, u)"
            "exec_stack X path argv ?elf pgdir sz (u\<lparr>ops := ops u - 1\<rparr>) = Inr (r, t)"
            using assms 1 2 3 4 5 \<open>found = Some ip\<close> Some hdr pg by (auto simp: exec_def begin_op_def end_op_def fbind_eq_Inr Let_def)
          have "loads X path ?s ?elf pgdir sz u"
            unfolding loads_def using 1 2 3 4 5 6(1) \<open>found = Some ip\<close> Some hdr pg
            by (intro exI [of _ ip] exI [of _ s1] exI [of _ s2] exI [of _ bs] exI [of _ s3] exI [of _ s4] exI [of _ s5])
              (auto simp: sizeof_elfhdr_def)
          moreover note same_image [OF keeps_on_k 6(1)]
          ultimately show ?thesis using 6(2) i1 i2 i3 i4 i5 by auto
        qed
      qed
    qed
  qed
qed

text \<open>C10. \<open>exec\<close> either returns -1 and leaves the process as it was, or returns 0 and has replaced its image: the file of
  that name had an ELF header and its segments are in a new page directory, on two new pages above them lie the
  arguments, at most \<open>MAXARG\<close>, and below them the words the new program expects, and the process has the new
  directory, its size, the entry point of the header, this stack pointer and the last component of the path as its name,
  and keeps its kernel stack; the CPU runs on the new directory and the old one is freed. On every path each
  transaction begun is ended.\<close>

theorem exec_all_or_nothing:
  assumes "exec X path argv s = Inr (r, t)"
  shows "ops t = ops s \<and> (r = - 1 \<and> cur t = cur s \<or> r = 0 \<and> committed X path argv s t)"
  using exec_loads [OF assms]
proof
  assume "\<exists>elf pgdir sz u. loads X path (s\<lparr>ops := ops s + 1\<rparr>) elf pgdir sz u \<and> ops u = ops s + 1 \<and> cur u = cur s \<and>
       exec_stack X path argv elf pgdir sz (u\<lparr>ops := ops u - 1\<rparr>) = Inr (r, t)"
  then obtain elf pgdir sz u where u: "loads X path (s\<lparr>ops := ops s + 1\<rparr>) elf pgdir sz u" "ops u = ops s + 1" "cur u = cur s"
    "exec_stack X path argv elf pgdir sz (u\<lparr>ops := ops u - 1\<rparr>) = Inr (r, t)" by blast
  have "committed X path argv s t" if "started X path argv elf pgdir sz (u\<lparr>ops := ops u - 1\<rparr>) t"
    unfolding committed_def using u(1,3) that by blast
  with exec_stack_image [OF u(4)] u(2,3) show ?thesis by auto
qed blast

section \<open>A run\<close>

text \<open>A machine with pages of 32 bytes, on which memory is small enough to be written out.\<close>

definition small_mmu :: "u32 list mmu" where
  "small_mmu =
     \<lparr>PGSIZE = 32, PDX = (\<lambda>a. take_bit 3 (drop_bit 8 a)), PTX = (\<lambda>a. take_bit 3 (drop_bit 5 a)), PTE_ADDR = (\<lambda>e. push_bit 5 (drop_bit 5 e)),
      PTE_FLAGS = take_bit 5, PTE_P = 1, PTE_W = 2, PTE_U = 4, PGROUNDUP = (\<lambda>a. push_bit 5 (drop_bit 5 (a + 31))),
      PGROUNDDOWN = (\<lambda>a. push_bit 5 (drop_bit 5 a)), PGADDR = (\<lambda>d t o'. push_bit 8 d OR push_bit 5 t OR o'),
      NPDENTRIES = 8, KBASE = 0x400, P2V = (\<lambda>a. a + 0x400), V2P = (\<lambda>a. a - 0x400),
      KERNLINK = 0x420, EXTMEM = 0x20, PHYSTOP = 0x60, DEVSPACE = 0xFFFFFFE0, data_start = 0x440,
      SEG = (\<lambda>_ _ _ _. 0), SEG16 = (\<lambda>_ _ _ _. 0), clear_s = id, STA_X = 8, STA_R = 2, STA_W = 2,
      STS_T32A = 9, DPL_USER = 3, SEG_KCODE = 1, SEG_KDATA = 2, SEG_UCODE = 3, SEG_UDATA = 4, SEG_TSS = 5, ts_addr = 0,
      ts_size = 104, kalloc_page = (\<lambda>h m. case h of [] \<Rightarrow> (0, h, m) | v # vs \<Rightarrow> (v, vs, m)), kfree_page = (\<lambda>v h m. (v # h, m))\<rparr>"

text \<open>A program of one segment: four bytes of the file, in eight bytes of memory from address 0 on, with the entry point
  16. It is the current directory's own inode, which is what the empty path names.\<close>

definition elf_file :: "u8 list" where
  "elf_file = [0x7F, 0x45, 0x4C, 0x46] @ replicate 20 0 @ [16, 0, 0, 0] @ [52, 0, 0, 0] @ replicate 12 0 @ [1, 0] @ replicate 6 0 @
     [1, 0, 0, 0] @ [84, 0, 0, 0] @ replicate 8 0 @ [4, 0, 0, 0] @ [8, 0, 0, 0] @ replicate 8 0 @ [0xEB, 0xFE, 0x90, 0x90]"

definition prog_inode :: inode where
  "prog_inode = \<lparr>i_dev = 1, inum = 1, iref = 1,
     ilk = \<lparr>slk = \<lparr>lname = [], locked = False, lcpu = None, pcs = []\<rparr>, slocked = False, sname = [], spid = 0\<rparr>,
     valid = True, itype = T_FILE, major = 0, minor = 0, nlink = 1, isize = 88, addrs = [5, 6, 0]\<rparr>"

definition prog_xst :: "(nat \<Rightarrow> nat \<Rightarrow> u8 list, u32 list) xst" where
  "prog_xst =
     \<lparr>kn = \<lparr>mem = (\<lambda>_. 0), heap = [0x500, 0x520, 0x540, 0x560, 0x580, 0x5A0, 0x5C0, 0x5E0],
        fsys = \<lparr>disk = (\<lambda>dev b. if b = 5 then take 64 elf_file else if b = 6 then drop 64 elf_file else []),
          sb = \<lparr>sb_size = 16, nblocks = 8, ninodes = 4, nlog = 0, logstart = 0, inodestart = 3, bmapstart = 2\<rparr>, icache = [prog_inode]\<rparr>,
        kpgdir = 0, cpus = \<lparr>ifl = True, ncli = 0, intena = False\<rparr>, gdt = (\<lambda>_. 0), gdtr = (\<lambda>_. 0), ss0 = 0, esp0 = 0, iomb = 0,
        tr = 0, cr3 = 0\<rparr>,
      ops = 0, cur = \<lparr>pgdir_of = 0x700, kstack = 0x4000, p_sz = 0, p_name = ''sh'', eip = 0, esp = 0\<rparr>\<rparr>"

definition prog_xenv :: "(nat \<Rightarrow> nat \<Rightarrow> u8 list, u32 list) xenv" where
  "prog_xenv = \<lparr>mm = small_mmu, fsenv = example_env, safestrcpy = take 15, my_pid = 3, my_cwd = 0\<rparr>"

lemma prog_runs:
  "case exec prog_xenv [] [''a''] prog_xst of
     Inl e \<Rightarrow> False
   | Inr (r, t) \<Rightarrow> r = 0 \<and> pgdir_of (cur t) = 0x500 \<and> p_sz (cur t) = 96 \<and> eip (cur t) = 16 \<and> esp (cur t) = 72"
  by code_simp

theorem exec_all_or_nothing_witness:
  "\<exists>t. exec prog_xenv [] [''a''] prog_xst = Inr (0, t) \<and> committed prog_xenv [] [''a''] prog_xst t \<and> ops t = 0 \<and>
     pgdir_of (cur t) = 0x500 \<and> p_sz (cur t) = 96 \<and> eip (cur t) = 16 \<and> esp (cur t) = 72"
proof -
  obtain t where t: "exec prog_xenv [] [''a''] prog_xst = Inr (0, t)" "pgdir_of (cur t) = 0x500 \<and> p_sz (cur t) = 96 \<and> eip (cur t) = 16 \<and> esp (cur t) = 72"
    using prog_runs by (auto split: sum.splits prod.splits)
  have "ops prog_xst = 0" by (simp add: prog_xst_def)
  with exec_all_or_nothing [OF t(1)] t show ?thesis by auto
qed

end
