(* ===== verification/Sysproc.thy ===== *)
theory Sysproc
  imports Exec
begin

text \<open>
  \<open>sysproc.c\<close>: the system calls on processes. What they call (\<open>proc.c\<close>, \<open>syscall.c\<close>, not in the repository) are
  arguments: \<open>argint\<close> and \<open>argptr\<close> fetch the arguments of the call, with \<open>None\<close> for a negative result, and
  \<open>unused\<close> is the state of a free entry of the process table.
\<close>

type_synonym args = "nat \<Rightarrow> int option"

definition sys_fork :: "('s \<Rightarrow> int \<times> 's) \<Rightarrow> 's \<Rightarrow> int \<times> 's" where
  "sys_fork fork s = fork s"

definition sys_wait :: "('s \<Rightarrow> int \<times> 's) \<Rightarrow> 's \<Rightarrow> int \<times> 's" where
  "sys_wait wait s = wait s"

definition sys_exit :: "('s \<Rightarrow> 's) \<Rightarrow> 's \<Rightarrow> int \<times> 's" where
  "sys_exit exit s = (0, exit s)"

definition sys_kill :: "args \<Rightarrow> (int \<Rightarrow> 's \<Rightarrow> int \<times> 's) \<Rightarrow> 's \<Rightarrow> int \<times> 's" where
  "sys_kill argint kill s = (case argint 0 of None \<Rightarrow> (- 1, s) | Some p \<Rightarrow> kill p s)"

definition sys_getpid :: "('s \<Rightarrow> int) \<Rightarrow> 's \<Rightarrow> int \<times> 's" where
  "sys_getpid mypid s = (mypid s, s)"

text \<open>The old size of the process, read before \<open>growproc\<close>.\<close>

definition sys_sbrk :: "args \<Rightarrow> ('s \<Rightarrow> u32) \<Rightarrow> (int \<Rightarrow> 's \<Rightarrow> int \<times> 's) \<Rightarrow> 's \<Rightarrow> int \<times> 's" where
  "sys_sbrk argint mysz growproc s =
     (case argint 0 of
        None \<Rightarrow> (- 1, s)
      | Some n \<Rightarrow>
          (let addr = sint (mysz s); (r, t) = growproc n s
           in if r < 0 then (- 1, t) else (addr, t)))"

definition sys_chpr :: "args \<Rightarrow> (int \<Rightarrow> int \<Rightarrow> 's \<Rightarrow> int \<times> 's) \<Rightarrow> 's \<Rightarrow> int \<times> 's" where
  "sys_chpr argint chpr s =
     (case argint 0 of
        None \<Rightarrow> (- 1, s)
      | Some p \<Rightarrow> (case argint 1 of None \<Rightarrow> (- 1, s) | Some pr \<Rightarrow> chpr p pr s))"

definition sys_uptime :: "u32 \<Rightarrow> int" where
  "sys_uptime ticks = sint ticks"

text \<open>\<open>sys_sleep\<close> under the lock of the clock: each time it looks, it finds a number of ticks and whether the
  process was killed. The comparison of unsigned ticks with \<open>int n\<close> is unsigned. \<open>None\<close> while it sleeps.\<close>

fun sleep_loop :: "u32 \<Rightarrow> int \<Rightarrow> (u32 \<times> bool) list \<Rightarrow> int option" where
  "sleep_loop ticks0 n [] = None"
| "sleep_loop ticks0 n ((ticks, killed) # obs) =
     (if ticks - ticks0 < word_of_int n then (if killed then Some (- 1) else sleep_loop ticks0 n obs) else Some 0)"

definition sys_sleep :: "args \<Rightarrow> u32 \<Rightarrow> (u32 \<times> bool) list \<Rightarrow> int option" where
  "sys_sleep argint ticks0 obs = (case argint 0 of None \<Rightarrow> Some (- 1) | Some n \<Rightarrow> sleep_loop ticks0 n obs)"

text \<open>\<open>sys_getptable\<close>: an entry of the process table as it is copied; \<open>Stray\<close> behind the end of the table and at a
  process without a parent.\<close>

record pentry =
  pstate :: u32
  ppid :: u32
  parent_pid :: "u32 option"
  pname :: "u8 list"
  priority :: u32

definition entry_bytes :: "pentry \<Rightarrow> u32 \<Rightarrow> u8 list" where
  "entry_bytes p par = to_le32 (pstate p) @ to_le32 (ppid p) @ to_le32 par @ take 16 (pname p) @ to_le32 (priority p)"

fun ptable_loop :: "u32 \<Rightarrow> nat \<Rightarrow> nat \<Rightarrow> pentry list \<Rightarrow> fault + u8 list" where
  "ptable_loop unused sz s [] = (if s < sz then Inl Stray else Inr [])"
| "ptable_loop unused sz s (p # ps) =
     (if s < sz \<and> pstate p \<noteq> unused then
        (case parent_pid p of
           None \<Rightarrow> Inl Stray
         | Some par \<Rightarrow>
             (case ptable_loop unused sz (s + 32) ps of Inl e \<Rightarrow> Inl e | Inr r \<Rightarrow> Inr (entry_bytes p par @ r)))
      else Inr [])"

definition sys_getptable :: "u32 \<Rightarrow> args \<Rightarrow> (nat \<Rightarrow> int \<Rightarrow> u32 option) \<Rightarrow> pentry list \<Rightarrow> bytes \<Rightarrow> fault + int \<times> bytes" where
  "sys_getptable unused argint argptr ptable m =
     (case argint 0 of
        None \<Rightarrow> Inr (- 1, m)
      | Some sz \<Rightarrow>
          (case argptr 1 sz of
             None \<Rightarrow> Inr (- 1, m)
           | Some buf \<Rightarrow>
               (case ptable_loop unused (nat sz) 0 ptable of
                  Inl e \<Rightarrow> Inl e
                | Inr bs \<Rightarrow> Inr (0, put_bytes m buf bs))))"

section \<open>Lemmas\<close>

lemma sleep_loop_woken:
  "list_all (\<lambda>(ticks, killed). ticks - ticks0 < word_of_int n \<and> \<not> killed) obs \<Longrightarrow>
   sleep_loop ticks0 n (obs @ [(ticks, killed)]) =
     (if ticks - ticks0 < word_of_int n then if killed then Some (- 1) else None else Some 0)"
  by (induction obs) auto

text \<open>A negative time is a very long one: at any tick but the last before the counter wraps the process sleeps on.\<close>

lemma sleep_negative: "ticks \<noteq> - 1 \<Longrightarrow> sleep_loop 0 (- 1) ((ticks, False) # obs) = sleep_loop 0 (- 1) obs"
  by (simp add: less_le)

text \<open>The number of bytes written is a multiple of 32, so a buffer of another size may be overrun by up to 31.\<close>

lemma ptable_length:
  "list_all (\<lambda>p. length (pname p) = 16) ps \<Longrightarrow> ptable_loop unused sz s ps = Inr bs \<Longrightarrow>
   32 dvd length bs \<and> (bs = [] \<or> s + length bs < sz + 32)"
proof (induction unused sz s ps arbitrary: bs rule: ptable_loop.induct)
  case (2 unused sz s p ps)
  show ?case
  proof (cases "s < sz \<and> pstate p \<noteq> unused")
    case True
    with 2 obtain par r where r: "parent_pid p = Some par" "ptable_loop unused sz (s + 32) ps = Inr r" "bs = entry_bytes p par @ r"
      by (auto split: option.splits sum.splits)
    have len: "length (entry_bytes p par) = 32" using 2 by (simp add: entry_bytes_def to_le32_def)
    from "2.IH" [OF True r(1)] 2 r(2) have "32 dvd length r \<and> (r = [] \<or> s + 32 + length r < sz + 32)" by simp
    with r(3) len True show ?thesis by auto
  qed (use 2 in auto)
qed (auto split: if_splits)

end
