(* ===== verification/Devices.thy ===== *)
theory Devices
  imports Faults
begin

text \<open>
  Device registers, as the interrupt controllers see them. The state is the sequence of accesses made, newest first;
  the parameter \<open>hw\<close> answers a read as a function of the accesses before it, so a theorem about all \<open>hw\<close> covers
  every behaviour of the devices. The constants of \<open>traps.h\<close> and \<open>memlayout.h\<close> (not in the repository) are
  fields of \<open>hw\<close>, \<open>spin\<close> bounds the rounds of a loop that waits for a device.
\<close>

type_synonym u16 = "16 word"

datatype io =
    Lapic_write nat u32 | Lapic_read nat
  | Outb u16 u8 | Inb u16
  | Store16 u32 u16
  | Ioapic_select u32 | Ioapic_store u32 | Ioapic_load
  | Cprintf string

record hw =
  lapic_mapped :: bool
  lapic_value :: "io list \<Rightarrow> nat \<Rightarrow> u32"
  port_value :: "io list \<Rightarrow> u16 \<Rightarrow> u8"
  ioapic_value :: "io list \<Rightarrow> u32"
  ioapicid :: u32
  spin :: nat
  T_IRQ0 :: u32
  IRQ_TIMER :: u32
  IRQ_ERROR :: u32
  IRQ_SPURIOUS :: u32
  P2V :: "u32 \<Rightarrow> u32"

type_synonym 'a iom = "(io list, 'a) km"

definition emit :: "io \<Rightarrow> unit iom" where
  "emit e = fmod (\<lambda>h. e # h)"

lemma emit_simp [simp]: "emit e h = Inr ((), e # h)"
  by (simp add: emit_def)

definition outb :: "u16 \<Rightarrow> u8 \<Rightarrow> unit iom" where
  "outb port v = emit (Outb port v)"

definition inb :: "hw \<Rightarrow> u16 \<Rightarrow> u8 iom" where
  "inb H port h = Inr (port_value H h port, Inb port # h)"

lemma outb_simp [simp]: "outb p v h = Inr ((), Outb p v # h)"
  and inb_simp [simp]: "inb H p h = Inr (port_value H h p, Inb p # h)"
  by (simp_all add: outb_def inb_def)

text \<open>A machine: its clock stands still at 21-21-21, its interrupt controller has 24 lines.\<close>

definition clock_regs :: "nat \<Rightarrow> u8 \<Rightarrow> u8" where
  "clock_regs t r = (if r \<in> set [0, 2, 4, 7, 8, 9] then 0x21 else 0)"

definition example_hw :: hw where
  "example_hw = \<lparr>lapic_mapped = True, lapic_value = (\<lambda>h i. 0),
     port_value = (\<lambda>h p. case h of Outb q r # g \<Rightarrow> clock_regs (length g) r | _ \<Rightarrow> 0), ioapic_value = (\<lambda>h. 0x170000), ioapicid = 0,
     spin = 2, T_IRQ0 = 32, IRQ_TIMER = 0, IRQ_ERROR = 19, IRQ_SPURIOUS = 31, P2V = (\<lambda>a. a + 0x80000000)\<rparr>"

end
