(* ===== verification/Lapic.thy ===== *)
theory Lapic
  imports Devices
begin

unbundle bit_operations_syntax

text \<open>
  \<open>lapic.c\<close>: the local interrupt controller, the start of a second processor, and the clock of the machine.
\<close>

section \<open>Registers\<close>

definition ID :: nat where "ID = 0x20 div 4"
definition VER :: nat where "VER = 0x30 div 4"
definition TPR :: nat where "TPR = 0x80 div 4"
definition EOI :: nat where "EOI = 0xB0 div 4"
definition SVR :: nat where "SVR = 0xF0 div 4"
definition ESR :: nat where "ESR = 0x280 div 4"
definition ICRLO :: nat where "ICRLO = 0x300 div 4"
definition ICRHI :: nat where "ICRHI = 0x310 div 4"
definition TIMER :: nat where "TIMER = 0x320 div 4"
definition PCINT :: nat where "PCINT = 0x340 div 4"
definition LINT0 :: nat where "LINT0 = 0x350 div 4"
definition LINT1 :: nat where "LINT1 = 0x360 div 4"
definition ERROR :: nat where "ERROR = 0x370 div 4"
definition TICR :: nat where "TICR = 0x380 div 4"
definition TDCR :: nat where "TDCR = 0x3E0 div 4"

definition ENABLE :: u32 where "ENABLE = 0x100"
definition INIT :: u32 where "INIT = 0x500"
definition STARTUP :: u32 where "STARTUP = 0x600"
definition DELIVS :: u32 where "DELIVS = 0x1000"
definition ASSERT :: u32 where "ASSERT = 0x4000"
definition LEVEL :: u32 where "LEVEL = 0x8000"
definition BCAST :: u32 where "BCAST = 0x80000"
definition X1 :: u32 where "X1 = 0xB"
definition PERIODIC :: u32 where "PERIODIC = 0x20000"
definition MASKED :: u32 where "MASKED = 0x10000"

lemmas lapic_regs = ID_def VER_def TPR_def EOI_def SVR_def ESR_def ICRLO_def ICRHI_def TIMER_def PCINT_def
  LINT0_def LINT1_def ERROR_def TICR_def TDCR_def

definition CMOS_PORT :: u16 where "CMOS_PORT = 0x70"
definition CMOS_RETURN :: u16 where "CMOS_RETURN = 0x71"
definition CMOS_STATA :: u32 where "CMOS_STATA = 0x0A"
definition CMOS_STATB :: u32 where "CMOS_STATB = 0x0B"
definition CMOS_UIP :: u32 where "CMOS_UIP = push_bit 7 1"
definition SECS :: u32 where "SECS = 0"
definition MINS :: u32 where "MINS = 2"
definition HOURS :: u32 where "HOURS = 4"
definition DAY :: u32 where "DAY = 7"
definition MONTH :: u32 where "MONTH = 8"
definition YEAR :: u32 where "YEAR = 9"

section \<open>The local APIC\<close>

text \<open>A load or store through \<open>lapic\<close>, which is null until \<open>mp.c\<close> finds the controller.\<close>

definition lapicr :: "hw \<Rightarrow> nat \<Rightarrow> u32 iom" where
  "lapicr H index h = (if lapic_mapped H then Inr (lapic_value H h index, Lapic_read index # h) else Inl Stray)"

definition lapicw :: "hw \<Rightarrow> nat \<Rightarrow> u32 \<Rightarrow> unit iom" where
  "lapicw H index v =
     fbind (if lapic_mapped H then emit (Lapic_write index v) else fail Stray) (\<lambda>_.
     fbind (lapicr H ID) (\<lambda>_. fret ()))"

text \<open>\<open>while(lapic[ICRLO] & DELIVS);\<close>\<close>

fun delivery_wait :: "nat \<Rightarrow> hw \<Rightarrow> unit iom" where
  "delivery_wait 0 H = fail Runs_on"
| "delivery_wait (Suc n) H = fbind (lapicr H ICRLO) (\<lambda>v. if v AND DELIVS \<noteq> 0 then delivery_wait n H else fret ())"

definition lapicinit :: "hw \<Rightarrow> unit iom" where
  "lapicinit H =
     (if \<not> lapic_mapped H then fret ()
      else
        fbind (lapicw H SVR (ENABLE OR (T_IRQ0 H + IRQ_SPURIOUS H))) (\<lambda>_.
        fbind (lapicw H TDCR X1) (\<lambda>_.
        fbind (lapicw H TIMER (PERIODIC OR (T_IRQ0 H + IRQ_TIMER H))) (\<lambda>_.
        fbind (lapicw H TICR 10000000) (\<lambda>_.
        fbind (lapicw H LINT0 MASKED) (\<lambda>_.
        fbind (lapicw H LINT1 MASKED) (\<lambda>_.
        fbind (lapicr H VER) (\<lambda>ver.
        fbind (if drop_bit 16 ver AND 0xFF \<ge> 4 then lapicw H PCINT MASKED else fret ()) (\<lambda>_.
        fbind (lapicw H ERROR (T_IRQ0 H + IRQ_ERROR H)) (\<lambda>_.
        fbind (lapicw H ESR 0) (\<lambda>_.
        fbind (lapicw H ESR 0) (\<lambda>_.
        fbind (lapicw H EOI 0) (\<lambda>_.
        fbind (lapicw H ICRHI 0) (\<lambda>_.
        fbind (lapicw H ICRLO (BCAST OR INIT OR LEVEL)) (\<lambda>_.
        fbind (delivery_wait (spin H) H) (\<lambda>_.
        lapicw H TPR 0))))))))))))))))"

definition lapicid :: "hw \<Rightarrow> u32 iom" where
  "lapicid H = (if \<not> lapic_mapped H then fret 0 else fbind (lapicr H ID) (\<lambda>v. fret (drop_bit 24 v)))"

definition lapiceoi :: "hw \<Rightarrow> unit iom" where
  "lapiceoi H = (if lapic_mapped H then lapicw H EOI 0 else fret ())"

definition microdelay :: "int \<Rightarrow> unit iom" where
  "microdelay us = fret ()"

text \<open>The loop that sends the startup interrupt twice.\<close>

fun startup_loop :: "nat \<Rightarrow> hw \<Rightarrow> u8 \<Rightarrow> u32 \<Rightarrow> unit iom" where
  "startup_loop 0 H apicid addr = fret ()"
| "startup_loop (Suc n) H apicid addr =
     fbind (lapicw H ICRHI (push_bit 24 (ucast apicid))) (\<lambda>_.
     fbind (lapicw H ICRLO (STARTUP OR drop_bit 12 addr)) (\<lambda>_.
     fbind (microdelay 200) (\<lambda>_. startup_loop n H apicid addr)))"

definition lapicstartap :: "hw \<Rightarrow> u8 \<Rightarrow> u32 \<Rightarrow> unit iom" where
  "lapicstartap H apicid addr =
     fbind (outb CMOS_PORT 0xF) (\<lambda>_.
     fbind (outb (CMOS_PORT + 1) 0x0A) (\<lambda>_.
     (let wrv = P2V H (push_bit 4 0x40 OR 0x67) in
      fbind (emit (Store16 wrv 0)) (\<lambda>_.
      fbind (emit (Store16 (wrv + 2) (ucast (drop_bit 4 addr)))) (\<lambda>_.
      fbind (lapicw H ICRHI (push_bit 24 (ucast apicid))) (\<lambda>_.
      fbind (lapicw H ICRLO (INIT OR LEVEL OR ASSERT)) (\<lambda>_.
      fbind (microdelay 200) (\<lambda>_.
      fbind (lapicw H ICRLO (INIT OR LEVEL)) (\<lambda>_.
      fbind (microdelay 100) (\<lambda>_.
      startup_loop 2 H apicid addr))))))))))"

section \<open>The clock\<close>

record rtcdate =
  second :: u32
  minute :: u32
  hour :: u32
  day :: u32
  month :: u32
  year :: u32

definition cmos_read :: "hw \<Rightarrow> u32 \<Rightarrow> u32 iom" where
  "cmos_read H reg =
     fbind (outb CMOS_PORT (ucast reg)) (\<lambda>_.
     fbind (microdelay 200) (\<lambda>_.
     fbind (inb H CMOS_RETURN) (\<lambda>v. fret (ucast v))))"

definition fill_rtcdate :: "hw \<Rightarrow> rtcdate iom" where
  "fill_rtcdate H =
     fbind (cmos_read H SECS) (\<lambda>s.
     fbind (cmos_read H MINS) (\<lambda>mi.
     fbind (cmos_read H HOURS) (\<lambda>ho.
     fbind (cmos_read H DAY) (\<lambda>d.
     fbind (cmos_read H MONTH) (\<lambda>mo.
     fbind (cmos_read H YEAR) (\<lambda>y.
     fret \<lparr>second = s, minute = mi, hour = ho, day = d, month = mo, year = y\<rparr>))))))"

text \<open>The loop that reads until two readings agree, and the conversion of binary coded digits.\<close>

fun cmos_loop :: "nat \<Rightarrow> hw \<Rightarrow> rtcdate iom" where
  "cmos_loop 0 H = fail Runs_on"
| "cmos_loop (Suc n) H =
     fbind (fill_rtcdate H) (\<lambda>t1.
     fbind (cmos_read H CMOS_STATA) (\<lambda>a.
       if a AND CMOS_UIP \<noteq> 0 then cmos_loop n H
       else fbind (fill_rtcdate H) (\<lambda>t2. if t1 = t2 then fret t1 else cmos_loop n H)))"

definition CONV :: "u32 \<Rightarrow> u32" where
  "CONV x = drop_bit 4 x * 10 + (x AND 0xF)"

definition cmostime :: "hw \<Rightarrow> rtcdate iom" where
  "cmostime H =
     fbind (cmos_read H CMOS_STATB) (\<lambda>sb.
     (let bcd = (sb AND push_bit 2 1 = 0) in
      fbind (cmos_loop (spin H) H) (\<lambda>t1.
      (let t = (if bcd then t1\<lparr>second := CONV (second t1), minute := CONV (minute t1), hour := CONV (hour t1),
                  day := CONV (day t1), month := CONV (month t1), year := CONV (year t1)\<rparr> else t1)
       in fret (t\<lparr>year := year t + 2000\<rparr>)))))"


section \<open>Reading the clock\<close>

text \<open>A machine whose data port shows the clock register selected last: \<open>c t r\<close> is register \<open>r\<close> after \<open>t\<close> accesses.\<close>

definition shows_clock :: "hw \<Rightarrow> (nat \<Rightarrow> u8 \<Rightarrow> u8) \<Rightarrow> bool" where
  "shows_clock H c \<longleftrightarrow> (\<forall>h r. port_value H (Outb CMOS_PORT r # h) CMOS_RETURN = c (length h) r)"

definition reading :: "(u8 \<Rightarrow> u8) \<Rightarrow> rtcdate" where
  "reading r = \<lparr>second = ucast (r 0), minute = ucast (r 2), hour = ucast (r 4), day = ucast (r 7), month = ucast (r 8), year = ucast (r 9)\<rparr>"

lemmas cmos_regs = SECS_def MINS_def HOURS_def DAY_def MONTH_def YEAR_def

lemma cmos_read_clock:
  assumes "shows_clock H c"
  shows "cmos_read H reg h = Inr (ucast (c (length h) (ucast reg)), Inb CMOS_RETURN # Outb CMOS_PORT (ucast reg) # h)"
  using assms by (simp add: cmos_read_def microdelay_def shows_clock_def fbind_def)

text \<open>The clock as one reading sees it: each field at its own moment.\<close>

definition snapshot :: "(nat \<Rightarrow> u8 \<Rightarrow> u8) \<Rightarrow> nat \<Rightarrow> rtcdate" where
  "snapshot c t = \<lparr>second = ucast (c t 0), minute = ucast (c (t + 2) 2), hour = ucast (c (t + 4) 4), day = ucast (c (t + 6) 7),
     month = ucast (c (t + 8) 8), year = ucast (c (t + 10) 9)\<rparr>"

lemma fill_rtcdate_clock:
  assumes "shows_clock H c"
  obtains h' where "fill_rtcdate H h = Inr (snapshot c (length h), h')" "length h' = length h + 12"
  using assms by (simp add: fill_rtcdate_def cmos_read_clock cmos_regs snapshot_def add.commute [of _ "length h"] add_2_eq_Suc' [symmetric] del: add_2_eq_Suc')

text \<open>One round of the loop.\<close>

lemma cmos_round:
  assumes "shows_clock H c"
  obtains h2 h3 where "length h2 = length h + 14" "length h3 = length h + 26"
    "cmos_loop (Suc n) H h =
       (if ucast (c (length h + 12) 0x0A) AND CMOS_UIP \<noteq> 0 then cmos_loop n H h2
        else if snapshot c (length h) = snapshot c (length h + 14) then Inr (snapshot c (length h), h3) else cmos_loop n H h3)"
proof -
  obtain h1 where 1: "fill_rtcdate H h = Inr (snapshot c (length h), h1)" "length h1 = length h + 12"
    by (rule fill_rtcdate_clock [OF assms])
  let ?h2 = "Inb CMOS_RETURN # Outb CMOS_PORT 10 # h1"
  have 2: "length ?h2 = length h + 14" by (simp add: 1(2))
  obtain h3 where 3: "fill_rtcdate H ?h2 = Inr (snapshot c (length ?h2), h3)" "length h3 = length ?h2 + 12"
    by (rule fill_rtcdate_clock [OF assms])
  have "cmos_loop (Suc n) H h =
       (if ucast (c (length h + 12) 0x0A) AND CMOS_UIP \<noteq> 0 then cmos_loop n H ?h2
        else if snapshot c (length h) = snapshot c (length h + 14) then Inr (snapshot c (length h), h3) else cmos_loop n H h3)"
    by (simp add: 1 3(1) [unfolded 2] cmos_read_clock [OF assms] CMOS_STATA_def)
  from that [OF 2 _ this] 3(2) 2 show thesis by simp
qed

text \<open>A clock that changes at most once in any \<open>w\<close> accesses; a round of the loop takes at most 26.\<close>

definition slow_clock :: "nat \<Rightarrow> (nat \<Rightarrow> u8 \<Rightarrow> u8) \<Rightarrow> bool" where
  "slow_clock w c \<longleftrightarrow> (\<forall>t. \<exists>k. \<forall>u v. t \<le> u \<and> u \<le> v \<and> v < t + w \<and> (v < k \<or> k \<le> u) \<longrightarrow> c u = c v)"

lemma slow_clockE:
  assumes "slow_clock w c"
  obtains k where "\<And>u v. t \<le> u \<Longrightarrow> u \<le> v \<Longrightarrow> v < t + w \<Longrightarrow> v < k \<or> k \<le> u \<Longrightarrow> c u = c v"
  using assms unfolding slow_clock_def by metis

lemma slow_clock_mono: "slow_clock w c \<Longrightarrow> w' \<le> w \<Longrightarrow> slow_clock w' c"
  unfolding slow_clock_def by (meson add_left_mono order.strict_trans2)

lemma snapshot_one_moment:
  assumes "\<And>v. t \<le> v \<Longrightarrow> v \<le> t + 10 \<Longrightarrow> c t = c v"
  shows "snapshot c t = reading (c t)"
  using assms [of "t + 2"] assms [of "t + 4"] assms [of "t + 6"] assms [of "t + 8"] assms [of "t + 10"]
  by (simp add: snapshot_def reading_def)

text \<open>The loop returns two equal readings, and one of them is of one moment.\<close>

lemma cmos_loop_Inr:
  assumes "shows_clock H c" "cmos_loop n H h = Inr (d, h')"
  shows "\<exists>t. length h \<le> t \<and> t + 24 < length h' \<and> d = snapshot c t \<and> d = snapshot c (t + 14)"
  using assms(2)
proof (induction n arbitrary: h)
  case (Suc n)
  obtain h2 h3 where h: "length h2 = length h + 14" "length h3 = length h + 26"
    and run: "cmos_loop (Suc n) H h =
       (if ucast (c (length h + 12) 0x0A) AND CMOS_UIP \<noteq> 0 then cmos_loop n H h2
        else if snapshot c (length h) = snapshot c (length h + 14) then Inr (snapshot c (length h), h3) else cmos_loop n H h3)"
    by (rule cmos_round [OF assms(1)])
  have later: ?case if "cmos_loop n H g = Inr (d, h')" "length h \<le> length g" for g
    using Suc.IH [OF that(1)] that(2) le_trans by blast
  from run Suc.prems later [of h2] later [of h3] h show ?case by (auto split: if_splits)
qed simp

lemma cmos_loop_one_moment:
  assumes "shows_clock H c" "slow_clock 26 c" "cmos_loop n H h = Inr (d, h')"
  shows "\<exists>t. length h \<le> t \<and> t < length h' \<and> d = reading (c t)"
proof -
  obtain t where t: "length h \<le> t" "t + 24 < length h'" "d = snapshot c t" "d = snapshot c (t + 14)"
    using cmos_loop_Inr [OF assms(1,3)] by blast
  obtain k where k: "\<And>u v. t \<le> u \<Longrightarrow> u \<le> v \<Longrightarrow> v < t + 26 \<Longrightarrow> v < k \<or> k \<le> u \<Longrightarrow> c u = c v"
    by (rule slow_clockE [OF assms(2), of t]) blast
  show ?thesis
  proof (cases "t + 10 < k")
    case True
    have "snapshot c t = reading (c t)" by (rule snapshot_one_moment) (use True k in auto)
    with t show ?thesis by auto
  next
    case False
    have "snapshot c (t + 14) = reading (c (t + 14))" by (rule snapshot_one_moment) (use False k in auto)
    with t show ?thesis by (intro exI [of _ "t + 14"]) auto
  qed
qed

text \<open>Once no update is in progress, two more rounds are enough for a clock that changes at most once in 52 accesses.\<close>

lemma snapshots_equal:
  assumes "\<And>v. t \<le> v \<Longrightarrow> v \<le> t + 24 \<Longrightarrow> c v = c t"
  shows "snapshot c t = snapshot c (t + 14)"
  using assms [of "t + 2"] assms [of "t + 4"] assms [of "t + 6"] assms [of "t + 8"] assms [of "t + 10"]
    assms [of "t + 14"] assms [of "t + 16"] assms [of "t + 18"] assms [of "t + 20"] assms [of "t + 22"] assms [of "t + 24"]
  by (simp add: snapshot_def ac_simps)

lemma cmos_loop_settles:
  assumes "shows_clock H c" "\<And>t. length h \<le> t \<Longrightarrow> ucast (c t 0x0A) AND CMOS_UIP = 0" "slow_clock 52 c"
  shows "\<exists>d h'. cmos_loop (Suc (Suc n)) H h = Inr (d, h')"
proof -
  obtain k where k: "\<And>u v. length h \<le> u \<Longrightarrow> u \<le> v \<Longrightarrow> v < length h + 52 \<Longrightarrow> v < k \<or> k \<le> u \<Longrightarrow> c u = c v"
    by (rule slow_clockE [OF assms(3), of "length h"]) blast
  obtain h2 h3 where h: "length h3 = length h + 26"
    and run: "cmos_loop (Suc (Suc n)) H h =
       (if ucast (c (length h + 12) 0x0A) AND CMOS_UIP \<noteq> 0 then cmos_loop (Suc n) H h2
        else if snapshot c (length h) = snapshot c (length h + 14) then Inr (snapshot c (length h), h3) else cmos_loop (Suc n) H h3)"
    by (rule cmos_round [OF assms(1)])
  obtain h4 h5 where run': "cmos_loop (Suc n) H h3 =
       (if ucast (c (length h3 + 12) 0x0A) AND CMOS_UIP \<noteq> 0 then cmos_loop n H h4
        else if snapshot c (length h3) = snapshot c (length h3 + 14) then Inr (snapshot c (length h3), h5) else cmos_loop n H h5)"
    by (rule cmos_round [OF assms(1)])
  have uip: "ucast (c (length h + 12) 0x0A) AND CMOS_UIP = 0" "ucast (c (length h3 + 12) 0x0A) AND CMOS_UIP = 0"
    using h by (auto intro: assms(2))
  show ?thesis
  proof (cases "snapshot c (length h) = snapshot c (length h + 14)")
    case True
    with run uip show ?thesis by simp
  next
    case False
    have "k \<le> length h + 24"
    proof (rule ccontr)
      assume "\<not> k \<le> length h + 24"
      then have "snapshot c (length h) = snapshot c (length h + 14)"
        by (intro snapshots_equal) (use k in \<open>auto intro: sym\<close>)
      with False show False by simp
    qed
    then have "snapshot c (length h3) = snapshot c (length h3 + 14)"
      by (intro snapshots_equal) (use k h in \<open>auto intro: sym\<close>)
    with run run' uip False show ?thesis by simp
  qed
qed

lemma cmos_loop_returns:
  assumes "shows_clock H c" "\<And>t. T \<le> t \<Longrightarrow> ucast (c t 0x0A) AND CMOS_UIP = 0" "slow_clock 52 c"
  shows "T \<le> length h + 14 * n \<Longrightarrow> \<exists>d h'. cmos_loop (n + 2) H h = Inr (d, h')"
proof (induction n arbitrary: h)
  case 0
  with cmos_loop_settles [OF assms(1) _ assms(3), of h 0] assms(2) show ?case by (simp add: numeral_2_eq_2)
next
  case (Suc n)
  obtain h2 h3 where h: "length h2 = length h + 14" "length h3 = length h + 26"
    and run: "cmos_loop (Suc (n + 2)) H h =
       (if ucast (c (length h + 12) 0x0A) AND CMOS_UIP \<noteq> 0 then cmos_loop (n + 2) H h2
        else if snapshot c (length h) = snapshot c (length h + 14) then Inr (snapshot c (length h), h3) else cmos_loop (n + 2) H h3)"
    by (rule cmos_round [OF assms(1)])
  from h Suc.prems have "T \<le> length h2 + 14 * n" "T \<le> length h3 + 14 * n" by auto
  from this [THEN Suc.IH] show ?case unfolding add_Suc run by simp
qed

text \<open>The registers hold two binary coded digits each, or, when bit 2 of status register B is set, the number itself.\<close>

definition coded :: "bool \<Rightarrow> nat \<Rightarrow> u8" where
  "coded bcd n = (if bcd then of_nat (16 * (n div 10) + n mod 10) else of_nat n)"

lemma CONV_coded_all: "list_all (\<lambda>n. CONV (ucast (coded True n)) = of_nat n) [0..<100]"
  by code_simp

lemma CONV_coded: "n < 100 \<Longrightarrow> CONV (ucast (coded True n)) = of_nat n"
  using CONV_coded_all by (simp add: list_all_iff)

lemma coded_plain_all: "list_all (\<lambda>n. ucast (coded False n) = (of_nat n :: u32)) [0..<100]"
  by code_simp

lemma coded_plain: "n < 100 \<Longrightarrow> ucast (coded False n) = (of_nat n :: u32)"
  using coded_plain_all by (simp add: list_all_iff)

definition date_at :: "(nat \<Rightarrow> u8 \<Rightarrow> nat) \<Rightarrow> nat \<Rightarrow> rtcdate" where
  "date_at f t = \<lparr>second = of_nat (f t 0), minute = of_nat (f t 2), hour = of_nat (f t 4), day = of_nat (f t 7),
     month = of_nat (f t 8), year = of_nat (2000 + f t 9)\<rparr>"

text \<open>\<open>cmostime\<close> returns the date of one moment between its call and its return, from a clock that counts in
  decimal digits or in binary, as its status register says, and changes at most once in 26 accesses.\<close>

lemma cmostime_one_moment:
  assumes "shows_clock H c" "slow_clock 26 c" "cmostime H h = Inr (d, h')"
    and "\<And>t r. r \<in> {0, 2, 4, 7, 8, 9} \<Longrightarrow> f t r < 100 \<and> c t r = coded (ucast (c (length h) 0x0B) AND (4 :: u32) = 0) (f t r)"
  shows "\<exists>t. length h \<le> t \<and> t < length h' \<and> d = date_at f t"
proof -
  let ?bcd = "ucast (c (length h) 0x0B) AND (4 :: u32) = 0"
  let ?h1 = "Inb CMOS_RETURN # Outb CMOS_PORT 0x0B # h"
  let ?dec = "\<lambda>e. if ?bcd then e\<lparr>second := CONV (second e), minute := CONV (minute e), hour := CONV (hour e),
                  day := CONV (day e), month := CONV (month e), year := CONV (year e)\<rparr> else e"
  have "fbind (cmos_loop (spin H) H) (\<lambda>e. fret ((?dec e)\<lparr>year := year (?dec e) + 2000\<rparr>)) ?h1 = Inr (d, h')"
    using assms(3) by (simp add: cmostime_def cmos_read_clock [OF assms(1)] CMOS_STATB_def Let_def)
  then obtain e where e: "cmos_loop (spin H) H ?h1 = Inr (e, h')" and d: "d = (?dec e)\<lparr>year := year (?dec e) + 2000\<rparr>"
    unfolding fbind_eq_Inr by auto
  obtain t where t: "length ?h1 \<le> t" "t < length h'" "e = reading (c t)"
    using cmos_loop_one_moment [OF assms(1,2) e] by blast
  have "d = date_at f t"
  proof (cases ?bcd)
    case True
    with d t(3) assms(4) [of _ t] show ?thesis by (simp add: reading_def date_at_def CONV_coded add.commute)
  next
    case False
    with d t(3) assms(4) [of _ t] show ?thesis by (simp add: reading_def date_at_def coded_plain add.commute)
  qed
  with t show ?thesis by (intro exI [of _ t]) simp
qed

lemma cmostime_settles:
  assumes "shows_clock H c" "slow_clock 52 c" "\<And>t. T \<le> t \<Longrightarrow> ucast (c t 0x0A) AND CMOS_UIP = 0" "T \<le> length h + 14 * n" "n + 2 \<le> spin H"
  shows "\<exists>d h'. cmostime H h = Inr (d, h')"
proof -
  obtain m where m: "spin H = (n + m) + 2" using assms(5) by (metis add.assoc add.commute le_Suc_ex)
  let ?h1 = "Inb CMOS_RETURN # Outb CMOS_PORT 0x0B # h"
  have "T \<le> length ?h1 + 14 * (n + m)" using assms(4) by simp
  from cmos_loop_returns [OF assms(1,3,2) this] obtain e h' where "cmos_loop (spin H) H ?h1 = Inr (e, h')"
    unfolding m by blast
  then show ?thesis by (auto simp: cmostime_def cmos_read_clock [OF assms(1)] CMOS_STATB_def Let_def fbind_eq_Inr)
qed

text \<open>C16. \<open>cmostime\<close> returns, and with the date of one moment between its call and its return, from a clock that
  counts in decimal digits or in binary, as its status register says, changes at most once in 52 accesses, and has
  no update in progress after some moment that the bound on the rounds allows to wait for.\<close>

theorem cmostime_reads_clock:
  assumes "shows_clock H c" "slow_clock 52 c"
    and "\<And>t r. r \<in> {0, 2, 4, 7, 8, 9} \<Longrightarrow> f t r < 100 \<and> c t r = coded (ucast (c (length h) 0x0B) AND (4 :: u32) = 0) (f t r)"
    and "\<And>t. T \<le> t \<Longrightarrow> ucast (c t 0x0A) AND CMOS_UIP = 0" "T \<le> length h + 14 * n" "n + 2 \<le> spin H"
  shows "\<exists>d h' t. cmostime H h = Inr (d, h') \<and> length h \<le> t \<and> t < length h' \<and> d = date_at f t"
proof -
  obtain d h' where run: "cmostime H h = Inr (d, h')"
    using cmostime_settles [OF assms(1,2,4,5,6)] by blast
  have "slow_clock 26 c" using slow_clock_mono [OF assms(2), of 26] by simp
  from cmostime_one_moment [OF assms(1) this run assms(3)] run show ?thesis by blast
qed

theorem cmostime_reads_clock_witness:
  "\<exists>d h' t. cmostime example_hw [] = Inr (d, h') \<and> t < length h' \<and> d = date_at (\<lambda>_ _. 21) t \<and> year d = 2021"
proof -
  have "shows_clock example_hw clock_regs" by (simp add: shows_clock_def example_hw_def)
  moreover have "slow_clock 52 clock_regs" by (simp add: slow_clock_def clock_regs_def fun_eq_iff)
  moreover have "(21::nat) < 100 \<and> clock_regs t r = coded (ucast (clock_regs (length ([] :: io list)) 0x0B) AND (4 :: u32) = 0) 21"
    if "r \<in> {0, 2, 4, 7, 8, 9}" for t r using that by (simp add: clock_regs_def coded_def)
  moreover have "ucast (clock_regs t 0x0A) AND CMOS_UIP = 0" for t by (simp add: clock_regs_def)
  ultimately obtain d h' t where "cmostime example_hw [] = Inr (d, h')" "t < length h'" "d = date_at (\<lambda>_ _. 21) t"
    using cmostime_reads_clock [of example_hw clock_regs "\<lambda>_ _. 21" "[]" 0 0] by (auto simp: example_hw_def)
  then show ?thesis by (auto simp: date_at_def)
qed

section \<open>What the controller is told\<close>

text \<open>The registers written, oldest first.\<close>

definition lapic_writes :: "io list \<Rightarrow> (nat \<times> u32) list" where
  "lapic_writes h = rev (List.map_filter (\<lambda>e. case e of Lapic_write i v \<Rightarrow> Some (i, v) | _ \<Rightarrow> None) h)"

lemma lapic_writes_simps [simp]:
  "lapic_writes [] = []"
  "lapic_writes (Lapic_write i v # h) = lapic_writes h @ [(i, v)]"
  "lapic_writes (Lapic_read i # h) = lapic_writes h"
  "lapic_writes (Outb p b # h) = lapic_writes h"
  "lapic_writes (Store16 a w # h) = lapic_writes h"
  by (simp_all add: lapic_writes_def map_filter_simps)

lemma lapicr_mapped: "lapic_mapped H \<Longrightarrow> lapicr H i h = Inr (lapic_value H h i, Lapic_read i # h)"
  by (simp add: lapicr_def)

lemma lapicw_mapped: "lapic_mapped H \<Longrightarrow> lapicw H i v h = Inr ((), Lapic_read ID # Lapic_write i v # h)"
  by (simp add: lapicw_def lapicr_mapped)

text \<open>The wait for delivery ends as soon as the status bit is read clear.\<close>

lemma delivery_wait_clear:
  assumes "lapic_mapped H" "\<And>j. j < k \<Longrightarrow> lapic_value H (replicate j (Lapic_read ICRLO) @ h) ICRLO AND DELIVS \<noteq> 0"
    "lapic_value H (replicate k (Lapic_read ICRLO) @ h) ICRLO AND DELIVS = 0" "k < n"
  shows "delivery_wait n H h = Inr ((), replicate (Suc k) (Lapic_read ICRLO) @ h)"
  using assms(2-)
proof (induction n arbitrary: h k)
  case (Suc n)
  show ?case
  proof (cases k)
    case 0
    with Suc.prems assms(1) show ?thesis by (simp add: lapicr_mapped)
  next
    case (Suc k')
    from Suc.prems(1) [of 0] Suc have "lapic_value H h ICRLO AND DELIVS \<noteq> 0" by simp
    moreover have "delivery_wait n H (Lapic_read ICRLO # h) = Inr ((), replicate (Suc k') (Lapic_read ICRLO) @ (Lapic_read ICRLO # h))"
      using Suc.prems Suc by (intro Suc.IH) (simp_all add: replicate_app_Cons_same, metis Suc_less_eq replicate_Suc append_Cons)
    ultimately show ?thesis using assms(1) Suc by (simp add: lapicr_mapped replicate_app_Cons_same)
  qed
qed simp

text \<open>What \<open>lapicinit\<close> writes, when the delivery is reported at once; the counter overflow line is masked only on
  controllers that have it.\<close>

lemma lapicinit_writes:
  assumes "lapic_mapped H" "\<And>g. lapic_value H g ICRLO AND DELIVS = 0" "0 < spin H" "\<And>g. drop_bit 16 (lapic_value H g VER) AND 0xFF = v"
  obtains h' where "lapicinit H h = Inr ((), h')"
    "lapic_writes h' = lapic_writes h @
       [(SVR, ENABLE OR (T_IRQ0 H + IRQ_SPURIOUS H)), (TDCR, X1), (TIMER, PERIODIC OR (T_IRQ0 H + IRQ_TIMER H)), (TICR, 10000000),
        (LINT0, MASKED), (LINT1, MASKED)] @ (if v \<ge> 4 then [(PCINT, MASKED)] else []) @
       [(ERROR, T_IRQ0 H + IRQ_ERROR H), (ESR, 0), (ESR, 0), (EOI, 0), (ICRHI, 0), (ICRLO, BCAST OR INIT OR LEVEL), (TPR, 0)]"
proof -
  have wait: "delivery_wait (spin H) H g = Inr ((), Lapic_read ICRLO # g)" for g
    using delivery_wait_clear [OF assms(1), of 0 g] assms(2,3) by simp
  show thesis
    by (rule that [of "snd (projr (lapicinit H h))"])
      (cases "v \<ge> 4"; simp add: lapicinit_def assms(1,4) lapicw_mapped lapicr_mapped wait)+
qed

text \<open>The start address a second processor gets: the warm reset vector (offset 0 and a segment) and the page number
  in the startup interrupt both stand for \<open>addr\<close> when it is a page below one megabyte.\<close>

lemma lapicstartap_writes:
  assumes "lapic_mapped H"
  obtains h' where "lapicstartap H apicid addr h = Inr ((), h')"
    "lapic_writes h' = lapic_writes h @ [(ICRHI, push_bit 24 (ucast apicid)), (ICRLO, INIT OR LEVEL OR ASSERT), (ICRLO, INIT OR LEVEL)] @
       concat (replicate 2 [(ICRHI, push_bit 24 (ucast apicid)), (ICRLO, STARTUP OR drop_bit 12 addr)])"
    "Store16 (P2V H 0x467 + 2) (ucast (drop_bit 4 addr)) \<in> set h'" "Store16 (P2V H 0x467) 0 \<in> set h'"
  using assms by (simp add: lapicstartap_def Let_def lapicw_mapped microdelay_def numeral_2_eq_2)

lemma start_address:
  assumes "addr = of_nat (4096 * p)" "p < 256"
  shows "unat (ucast (drop_bit 4 addr) :: u16) * 16 = unat (addr :: u32)" and "unat (drop_bit 12 addr) = p"
proof -
  have a: "unat addr = 4096 * p" unfolding assms(1) unat_of_nat using assms(2) by simp
  then have d: "unat (drop_bit 4 addr) = 256 * p" "unat (drop_bit 12 addr) = p"
    unfolding unsigned_drop_bit_eq using assms(2) by (simp_all add: drop_bit_eq_div take_bit_nat_eq_self)
  then show "unat (drop_bit 12 addr) = p" by simp
  have "unat (ucast (drop_bit 4 addr) :: u16) = 256 * p"
    using d assms(2) by (simp add: unsigned_ucast_eq take_bit_nat_eq_self)
  with a show "unat (ucast (drop_bit 4 addr) :: u16) * 16 = unat addr" by simp
qed

end
