(* ===== verification/Ioapic.thy ===== *)
theory Ioapic
  imports Devices
begin

unbundle bit_operations_syntax

text \<open>
  \<open>ioapic.c\<close>: the controller that routes device interrupts to CPUs. Its registers are reached through a pair of
  memory words, one that selects a register and one that holds its data.
\<close>

definition REG_ID :: u32 where "REG_ID = 0"
definition REG_VER :: u32 where "REG_VER = 1"
definition REG_TABLE :: u32 where "REG_TABLE = 0x10"
definition INT_DISABLED :: u32 where "INT_DISABLED = 0x10000"

definition ioapicread :: "hw \<Rightarrow> u32 \<Rightarrow> u32 iom" where
  "ioapicread H reg = fbind (emit (Ioapic_select reg)) (\<lambda>_ h. Inr (ioapic_value H h, Ioapic_load # h))"

definition ioapicwrite :: "u32 \<Rightarrow> u32 \<Rightarrow> unit iom" where
  "ioapicwrite reg data = fbind (emit (Ioapic_select reg)) (\<lambda>_. emit (Ioapic_store data))"

text \<open>The loop over the table, from entry \<open>i\<close> on.\<close>

function mask_loop :: "hw \<Rightarrow> nat \<Rightarrow> nat \<Rightarrow> unit iom" where
  "mask_loop H i maxintr =
     (if i \<le> maxintr then
        fbind (ioapicwrite (REG_TABLE + 2 * of_nat i) (INT_DISABLED OR (T_IRQ0 H + of_nat i))) (\<lambda>_.
        fbind (ioapicwrite (REG_TABLE + 2 * of_nat i + 1) 0) (\<lambda>_.
        mask_loop H (i + 1) maxintr))
      else fret ())"
  by pat_completeness auto
termination by (relation "measure (\<lambda>(H, i, maxintr). Suc maxintr - i)") auto

declare mask_loop.simps [simp del]

definition ioapicinit :: "hw \<Rightarrow> unit iom" where
  "ioapicinit H =
     fbind (ioapicread H REG_VER) (\<lambda>ver.
     (let maxintr = drop_bit 16 ver AND 0xFF in
      fbind (ioapicread H REG_ID) (\<lambda>v.
      (let id = drop_bit 24 v in
       fbind (if id \<noteq> ioapicid H then emit (Cprintf (''ioapicinit: id isn'' @ [CHR 0x27] @ ''t equal to ioapicid; not a MP'' @ [newline])) else fret ()) (\<lambda>_.
       mask_loop H 0 (unat maxintr))))))"

definition ioapicenable :: "hw \<Rightarrow> nat \<Rightarrow> nat \<Rightarrow> unit iom" where
  "ioapicenable H irq cpunum =
     fbind (ioapicwrite (REG_TABLE + 2 * of_nat irq) (T_IRQ0 H + of_nat irq)) (\<lambda>_.
     ioapicwrite (REG_TABLE + 2 * of_nat irq + 1) (push_bit 24 (of_nat cpunum)))"

section \<open>The routing table\<close>

text \<open>What the accesses have left in the registers.\<close>

fun selected :: "io list \<Rightarrow> u32 option" where
  "selected [] = None"
| "selected (Ioapic_select r # h) = Some r"
| "selected (_ # h) = selected h"

fun stored :: "io list \<Rightarrow> u32 \<Rightarrow> u32 option" where
  "stored [] r = None"
| "stored (Ioapic_store v # h) r = (if selected h = Some r then Some v else stored h r)"
| "stored (_ # h) r = stored h r"

text \<open>A line of the table: masked or not, its vector, and the CPU it goes to.\<close>

datatype route = Route (masked: bool) (vector: u32) (cpu: u32)

definition table :: "io list \<Rightarrow> nat \<Rightarrow> route option" where
  "table h i =
     (case (stored h (REG_TABLE + 2 * of_nat i), stored h (REG_TABLE + 2 * of_nat i + 1)) of
        (Some lo, Some hi) \<Rightarrow> Some (Route (lo AND INT_DISABLED \<noteq> 0) (lo AND 0xFF) (drop_bit 24 hi))
      | _ \<Rightarrow> None)"

lemma ioapicwrite_eq: "ioapicwrite r v h = Inr ((), Ioapic_store v # Ioapic_select r # h)"
  by (simp add: ioapicwrite_def)

text \<open>The registers of two lines below 256 are four different ones.\<close>

lemma line_regs:
  assumes "i < 256" "j < 256"
  shows "REG_TABLE + 2 * of_nat i = REG_TABLE + 2 * of_nat j \<longleftrightarrow> i = j"
    and "REG_TABLE + 2 * of_nat i + 1 = REG_TABLE + 2 * of_nat j + 1 \<longleftrightarrow> i = j"
    and "REG_TABLE + 2 * of_nat i + 1 \<noteq> REG_TABLE + 2 * of_nat j"
proof -
  have inj: "(of_nat a :: u32) = of_nat b \<longleftrightarrow> a = b" if "a < 1024" "b < 1024" for a b
    using that by (simp add: word_of_nat_eq_iff take_bit_nat_eq_self)
  have r: "REG_TABLE + 2 * of_nat k = of_nat (16 + 2 * k)" "REG_TABLE + 2 * of_nat k + 1 = of_nat (17 + 2 * k)" for k
    by (simp_all add: REG_TABLE_def)
  show "REG_TABLE + 2 * of_nat i = REG_TABLE + 2 * of_nat j \<longleftrightarrow> i = j"
    unfolding r(1) using assms by (subst inj) auto
  show "REG_TABLE + 2 * of_nat i + 1 = REG_TABLE + 2 * of_nat j + 1 \<longleftrightarrow> i = j"
    unfolding r(2) using assms by (subst inj) auto
  show "REG_TABLE + 2 * of_nat i + 1 \<noteq> REG_TABLE + 2 * of_nat j"
    unfolding r(2) unfolding r(1) using assms by (subst inj) (simp_all, presburger)
qed

text \<open>Writing the two registers of a line.\<close>

lemma table_write:
  assumes "i < 256"
    and h': "h' = Ioapic_store hi # Ioapic_select (REG_TABLE + 2 * of_nat i + 1) # Ioapic_store lo # Ioapic_select (REG_TABLE + 2 * of_nat i) # h"
  shows "table h' i = Some (Route (lo AND INT_DISABLED \<noteq> 0) (lo AND 0xFF) (drop_bit 24 hi))"
    and "j < 256 \<Longrightarrow> j \<noteq> i \<Longrightarrow> table h' j = table h j"
  using line_regs [OF assms(1), of j] line_regs [of j i] line_regs(3) [OF assms(1) assms(1)] assms(1)
  by (simp_all add: h' table_def)

definition masked_line :: "hw \<Rightarrow> nat \<Rightarrow> route" where
  "masked_line H i = Route True (T_IRQ0 H + of_nat i) 0"

definition routed_line :: "hw \<Rightarrow> nat \<Rightarrow> nat \<Rightarrow> route" where
  "routed_line H i c = Route False (T_IRQ0 H + of_nat i) (of_nat c)"

text \<open>Vectors and CPU numbers that fit into their eight bits.\<close>

lemma byte_bits:
  assumes "unat (v :: u32) < 256" "bit v n"
  shows "n < 8"
proof -
  have "unat v = unat (take_bit 8 v)" using assms(1) by (simp add: unsigned_take_bit_eq take_bit_nat_eq_self)
  then have "v = take_bit 8 v" by (rule unsigned_word_eqI)
  with assms(2) show ?thesis by (metis bit_take_bit_iff)
qed

lemma vector_bits:
  assumes "unat (v :: u32) < 256"
  shows "v AND INT_DISABLED = 0" "v AND 0xFF = v" "(INT_DISABLED OR v) AND INT_DISABLED \<noteq> 0" "(INT_DISABLED OR v) AND 0xFF = v"
proof -
  note b = byte_bits [OF assms]
  have e: "INT_DISABLED = 2 ^ 16" by (simp add: INT_DISABLED_def)
  have d: "bit INT_DISABLED n \<longleftrightarrow> n = 16" for n unfolding e bit_exp_iff by (auto simp: possible_bit_word)
  have m: "(0xFF :: u32) = mask 8" by (simp add: mask_eq_exp_minus_1)
  show "v AND INT_DISABLED = 0" by (intro bit_eqI) (auto simp: bit_and_iff d dest: b)
  show "v AND 0xFF = v" unfolding m by (intro bit_eqI) (auto simp: bit_simps dest: b)
  show "(INT_DISABLED OR v) AND INT_DISABLED \<noteq> 0" by (auto simp: bit_eq_iff bit_and_iff bit_or_iff d intro!: exI [of _ 16])
  show "(INT_DISABLED OR v) AND 0xFF = v" unfolding m by (intro bit_eqI) (auto simp: bit_simps d dest: b)
qed

text \<open>A call of \<open>ioapicenable\<close> changes one line.\<close>

lemma ioapicenable_line:
  assumes "i < 256" "c < 256" "unat (T_IRQ0 H + of_nat i) < 256"
  obtains h' where "ioapicenable H i c h = Inr ((), h')" "table h' i = Some (routed_line H i c)"
    "\<And>j. j < 256 \<Longrightarrow> j \<noteq> i \<Longrightarrow> table h' j = table h j"
proof -
  define h' where "h' = Ioapic_store (push_bit 24 (of_nat c)) # Ioapic_select (REG_TABLE + 2 * of_nat i + 1) #
    Ioapic_store (T_IRQ0 H + of_nat i) # Ioapic_select (REG_TABLE + 2 * of_nat i) # h"
  have "drop_bit 24 (push_bit 24 (of_nat c)) = (of_nat c :: u32)"
    using byte_bits [of "of_nat c"] assms(2) by (intro bit_eqI) (fastforce simp: bit_simps unat_of_nat)
  with table_write [OF assms(1) h'_def] vector_bits [OF assms(3)]
  have "table h' i = Some (routed_line H i c)" "\<And>j. j < 256 \<Longrightarrow> j \<noteq> i \<Longrightarrow> table h' j = table h j"
    by (simp_all add: routed_line_def)
  moreover have "ioapicenable H i c h = Inr ((), h')" by (simp add: ioapicenable_def ioapicwrite_eq h'_def)
  ultimately show thesis by (intro that)
qed

lemma mask_loop_lines:
  assumes "maxintr < 256" "\<And>k. k \<le> maxintr \<Longrightarrow> unat (T_IRQ0 H + of_nat k) < 256"
  shows "i \<le> Suc maxintr \<Longrightarrow> \<exists>h'. mask_loop H i maxintr h = Inr ((), h') \<and>
     (\<forall>j < 256. table h' j = (if i \<le> j \<and> j \<le> maxintr then Some (masked_line H j) else table h j))"
proof (induction "Suc maxintr - i" arbitrary: i h)
  case 0
  then show ?case by (subst mask_loop.simps) auto
next
  case (Suc n)
  then have i: "i \<le> maxintr" by simp
  define h1 where "h1 = Ioapic_store 0 # Ioapic_select (REG_TABLE + 2 * of_nat i + 1) #
    Ioapic_store (INT_DISABLED OR (T_IRQ0 H + of_nat i)) # Ioapic_select (REG_TABLE + 2 * of_nat i) # h"
  have "i < 256" using i assms(1) by simp
  note w = table_write [OF this h1_def]
  from w(1) vector_bits [OF assms(2) [OF i]] have line: "table h1 i = Some (masked_line H i)" by (simp add: masked_line_def)
  have run: "mask_loop H i maxintr h = mask_loop H (Suc i) maxintr h1"
    by (subst mask_loop.simps) (simp add: i ioapicwrite_eq h1_def)
  from Suc have "n = Suc maxintr - Suc i" "Suc i \<le> Suc maxintr" using i by auto
  from Suc.hyps(1) [OF this] obtain h' where "mask_loop H (Suc i) maxintr h1 = Inr ((), h')"
    and t: "\<And>j. j < 256 \<Longrightarrow> table h' j = (if Suc i \<le> j \<and> j \<le> maxintr then Some (masked_line H j) else table h1 j)" by blast
  moreover have "table h' j = (if i \<le> j \<and> j \<le> maxintr then Some (masked_line H j) else table h j)" if "j < 256" for j
    using t [OF that] w(2) [OF that] line i by (cases "j = i") (auto simp: not_less_eq_eq le_Suc_eq)
  ultimately show ?case unfolding run by blast
qed

definition line_count :: "hw \<Rightarrow> io list \<Rightarrow> nat" where
  "line_count H h = Suc (unat (drop_bit 16 (ioapic_value H (Ioapic_select REG_VER # h)) AND 0xFF))"

lemma vector_range: "unat (T_IRQ0 H) + n \<le> 256 \<Longrightarrow> k < n \<Longrightarrow> unat (T_IRQ0 H + of_nat k) < 256"
  by (simp add: unat_word_ariths unat_of_nat)

lemma table_select: "table (Ioapic_load # Ioapic_select r # h) = table h" "table (Cprintf w # h) = table h"
  by (simp_all add: table_def fun_eq_iff)

lemma ioapicinit_lines:
  assumes "unat (T_IRQ0 H) + line_count H h \<le> 256"
  shows "\<exists>h'. ioapicinit H h = Inr ((), h') \<and> (\<forall>i < line_count H h. table h' i = Some (masked_line H i))"
proof -
  let ?m = "unat (drop_bit 16 (ioapic_value H (Ioapic_select REG_VER # h)) AND 0xFF)"
  have m: "?m < 256" "line_count H h = Suc ?m" using assms by (simp_all add: line_count_def)
  have "\<exists>h1. ioapicinit H h = mask_loop H 0 ?m h1"
    by (auto simp: ioapicinit_def ioapicread_def Let_def)
  then obtain h1 where "ioapicinit H h = mask_loop H 0 ?m h1" ..
  moreover obtain h' where "mask_loop H 0 ?m h1 = Inr ((), h')" "\<forall>i < 256. i \<le> ?m \<longrightarrow> table h' i = Some (masked_line H i)"
    using mask_loop_lines [OF m(1), of H 0 h1] vector_range [OF assms] m(2) by (auto simp: less_Suc_eq_le)
  ultimately show ?thesis using m by (auto simp: less_Suc_eq_le)
qed

text \<open>Calls of \<open>ioapicenable\<close>, as the device drivers make them after the start.\<close>

fun enable_all :: "hw \<Rightarrow> (nat \<times> nat) list \<Rightarrow> unit iom" where
  "enable_all H [] = fret ()"
| "enable_all H ((i, c) # xs) = fbind (ioapicenable H i c) (\<lambda>_. enable_all H xs)"

definition line_after :: "hw \<Rightarrow> (nat \<times> nat) list \<Rightarrow> nat \<Rightarrow> route" where
  "line_after H calls i = (case map_of (rev calls) i of None \<Rightarrow> masked_line H i | Some c \<Rightarrow> routed_line H i c)"

lemma enable_all_lines:
  assumes "unat (T_IRQ0 H) + n \<le> 256"
  shows "list_all (\<lambda>(i, c). i < n \<and> c < 256) calls \<Longrightarrow> \<forall>i < n. table h i = Some (line_after H before i) \<Longrightarrow>
    \<exists>h'. enable_all H calls h = Inr ((), h') \<and> (\<forall>i < n. table h' i = Some (line_after H (before @ calls) i))"
proof (induction calls arbitrary: h before)
  case (Cons x calls)
  obtain i c where x: "x = (i, c)" by force
  with Cons.prems have i: "i < n" "c < 256" by auto
  obtain h1 where 1: "ioapicenable H i c h = Inr ((), h1)" "table h1 i = Some (routed_line H i c)"
    "\<And>j. j < 256 \<Longrightarrow> j \<noteq> i \<Longrightarrow> table h1 j = table h j"
    by (rule ioapicenable_line [OF _ i(2) vector_range [OF assms i(1)], of h]) (use i assms in auto)
  have "\<forall>j < n. table h1 j = Some (line_after H (before @ [x]) j)"
    using 1(2,3) Cons.prems(2) assms by (auto simp: x line_after_def)
  with Cons.IH [of h1 "before @ [x]"] Cons.prems(1) 1(1) show ?case by (simp add: x)
qed simp

text \<open>C25. After \<open>ioapicinit\<close> and any calls of \<open>ioapicenable\<close> every interrupt line that no call named is masked, and
  every other is open and goes, with its own vector, to the CPU of the last call that named it.\<close>

theorem ioapic_lines:
  assumes "unat (T_IRQ0 H) + line_count H h \<le> 256" "list_all (\<lambda>(i, c). i < line_count H h \<and> c < 256) calls"
  shows "\<exists>h'. fbind (ioapicinit H) (\<lambda>_. enable_all H calls) h = Inr ((), h') \<and>
    (\<forall>i < line_count H h. table h' i = Some (line_after H calls i))"
proof -
  obtain h1 where 1: "ioapicinit H h = Inr ((), h1)" "\<forall>i < line_count H h. table h1 i = Some (line_after H [] i)"
    using ioapicinit_lines [OF assms(1)] by (auto simp: line_after_def)
  from enable_all_lines [OF assms 1(2)] 1(1) show ?thesis by simp
qed

theorem ioapic_lines_witness:
  "\<exists>h'. fbind (ioapicinit example_hw) (\<lambda>_. enable_all example_hw [(1, 0), (4, 0), (1, 1)]) [] = Inr ((), h') \<and>
    table h' 1 = Some (Route False 33 1) \<and> table h' 2 = Some (Route True 34 0)"
proof -
  have "line_count example_hw [] = 24" by (simp add: line_count_def example_hw_def)
  moreover from this have "unat (T_IRQ0 example_hw) + line_count example_hw [] \<le> 256" by (simp add: example_hw_def)
  ultimately obtain h' where "fbind (ioapicinit example_hw) (\<lambda>_. enable_all example_hw [(1, 0), (4, 0), (1, 1)]) [] = Inr ((), h')"
    "table h' 1 = Some (line_after example_hw [(1, 0), (4, 0), (1, 1)] 1)" "table h' 2 = Some (line_after example_hw [(1, 0), (4, 0), (1, 1)] 2)"
    using ioapic_lines [of example_hw "[]" "[(1, 0), (4, 0), (1, 1)]"] by auto
  then show ?thesis by (simp add: line_after_def routed_line_def masked_line_def example_hw_def)
qed

end
