(* ===== verification/Booth.thy ===== *)
theory Booth
  imports Prelude
begin

text \<open>
  Assignment4 \<open>q2.c\<close>: robots and voting machines around one booth. Each function that locks the mutex is one
  function of the booth per locked block; the threads are a step relation in which a step is one locked
  block or one unprotected read. A failing \<open>assert\<close> is an error value.
\<close>

section \<open>The booth\<close>

record evm =
  number_of_slots :: int
  number_occupied :: int

record booth =
  evms :: "nat \<Rightarrow> evm"
  free_evm :: "nat option"
  unassigned :: int
  votes_to_cast :: int

definition get_new_evm :: "int \<Rightarrow> evm" where
  "get_new_evm slots = \<lparr>number_of_slots = slots, number_occupied = 0\<rparr>"

definition booth_new :: "int \<Rightarrow> int \<Rightarrow> booth" where
  "booth_new slots voters =
     \<lparr>evms = (\<lambda>_. get_new_evm slots), free_evm = None, unassigned = voters, votes_to_cast = voters\<rparr>"

text \<open>\<open>booth_get_voter\<close>: the test before the lock, and the locked block.\<close>

definition no_voter_left :: "booth \<Rightarrow> bool" where
  "no_voter_left b \<longleftrightarrow> unassigned b = 0"

definition take_voter :: "booth \<Rightarrow> int \<times> booth" where
  "take_voter b = (unassigned b, b\<lparr>unassigned := unassigned b - 1\<rparr>)"

text \<open>One round of the loop of \<open>voter_wait_for_evm\<close>: the machine got, if one was free.\<close>

definition wait_for_evm :: "booth \<Rightarrow> (nat option \<times> booth) kres" where
  "wait_for_evm b =
     (case free_evm b of
        None \<Rightarrow> Inr (None, b)
      | Some e \<Rightarrow>
          (let m = evms b e
           in if \<not> 0 \<le> number_occupied m then Inl (Panic ''assert'')
              else if \<not> number_occupied m < number_of_slots m then Inl (Panic ''assert'')
              else
                (let m1 = m\<lparr>number_occupied := number_occupied m + 1\<rparr>;
                     b1 = b\<lparr>evms := (evms b)(e := m1)\<rparr>
                 in Inr (Some e, if number_occupied m1 = number_of_slots m1 then b1\<lparr>free_evm := None\<rparr> else b1))))"

text \<open>\<open>voter_in_slot\<close>; the assigned machine is never null here.\<close>

definition voter_in_slot :: "nat \<Rightarrow> booth \<Rightarrow> booth" where
  "voter_in_slot e b =
     b\<lparr>evms := (evms b)(e := (evms b e)\<lparr>number_occupied := number_occupied (evms b e) - 1\<rparr>),
       votes_to_cast := votes_to_cast b - 1\<rparr>"

text \<open>One round of the loop of \<open>polling_ready_evm\<close>: whether it returns.\<close>

definition poll_evm :: "nat \<Rightarrow> booth \<Rightarrow> bool \<times> booth" where
  "poll_evm e b =
     (if number_occupied (evms b e) = number_of_slots (evms b e) then (True, b)
      else if free_evm b = None then (True, b\<lparr>free_evm := Some e\<rparr>)
      else (False, b))"

text \<open>The body of the loop of \<open>evm_fn\<close> up to the call: the assertion, then whether it polls.\<close>

definition evm_check :: "nat \<Rightarrow> booth \<Rightarrow> bool kres" where
  "evm_check e b =
     (let m = evms b e
      in if \<not> (0 \<le> number_occupied m \<and> number_occupied m \<le> number_of_slots m) then Inl (Panic ''assert'')
         else Inr (number_occupied m < number_of_slots m))"

section \<open>The threads\<close>

datatype robot_pc = Asking | Taking | Waiting int | Voting int nat | Finished

datatype evm_pc = Looping | Checking | Polling | Stopped

record voting =
  bth :: booth
  rpc :: "nat \<Rightarrow> robot_pc"
  epc :: "nat \<Rightarrow> evm_pc"
  cast :: "(nat \<times> int \<times> nat) list"
  failed :: bool

definition voting_init :: "int \<Rightarrow> int \<Rightarrow> voting" where
  "voting_init slots voters =
     \<lparr>bth = booth_new slots voters, rpc = (\<lambda>_. Asking), epc = (\<lambda>_. Looping), cast = [], failed = False\<rparr>"

text \<open>\<open>nr\<close> robots and \<open>ne\<close> machines. An assertion that fails aborts the program.\<close>

inductive vstep :: "nat \<Rightarrow> nat \<Rightarrow> voting \<Rightarrow> voting \<Rightarrow> bool" for nr ne where
  ask_none: "\<not> failed s \<Longrightarrow> r < nr \<Longrightarrow> rpc s r = Asking \<Longrightarrow> no_voter_left (bth s) \<Longrightarrow>
    vstep nr ne s (s\<lparr>rpc := (rpc s)(r := Finished)\<rparr>)"
| ask_some: "\<not> failed s \<Longrightarrow> r < nr \<Longrightarrow> rpc s r = Asking \<Longrightarrow> \<not> no_voter_left (bth s) \<Longrightarrow>
    vstep nr ne s (s\<lparr>rpc := (rpc s)(r := Taking)\<rparr>)"
| take: "\<not> failed s \<Longrightarrow> r < nr \<Longrightarrow> rpc s r = Taking \<Longrightarrow> take_voter (bth s) = (v, b) \<Longrightarrow>
    vstep nr ne s (s\<lparr>bth := b, rpc := (rpc s)(r := (if v \<le> - 1 then Finished else Waiting v))\<rparr>)"
| wait: "\<not> failed s \<Longrightarrow> r < nr \<Longrightarrow> rpc s r = Waiting v \<Longrightarrow> wait_for_evm (bth s) = Inr (eo, b) \<Longrightarrow>
    vstep nr ne s (s\<lparr>bth := b, rpc := (rpc s)(r := (case eo of None \<Rightarrow> Waiting v | Some e \<Rightarrow> Voting v e))\<rparr>)"
| wait_fail: "\<not> failed s \<Longrightarrow> r < nr \<Longrightarrow> rpc s r = Waiting v \<Longrightarrow> wait_for_evm (bth s) = Inl e \<Longrightarrow>
    vstep nr ne s (s\<lparr>failed := True\<rparr>)"
| vote: "\<not> failed s \<Longrightarrow> r < nr \<Longrightarrow> rpc s r = Voting v e \<Longrightarrow>
    vstep nr ne s (s\<lparr>bth := voter_in_slot e (bth s), rpc := (rpc s)(r := Asking), cast := cast s @ [(r, v, e)]\<rparr>)"
| loop: "\<not> failed s \<Longrightarrow> m < ne \<Longrightarrow> epc s m = Looping \<Longrightarrow>
    vstep nr ne s (s\<lparr>epc := (epc s)(m := (if votes_to_cast (bth s) > 0 then Checking else Stopped))\<rparr>)"
| check: "\<not> failed s \<Longrightarrow> m < ne \<Longrightarrow> epc s m = Checking \<Longrightarrow> evm_check m (bth s) = Inr p \<Longrightarrow>
    vstep nr ne s (s\<lparr>epc := (epc s)(m := (if p then Polling else Looping))\<rparr>)"
| check_fail: "\<not> failed s \<Longrightarrow> m < ne \<Longrightarrow> epc s m = Checking \<Longrightarrow> evm_check m (bth s) = Inl e \<Longrightarrow>
    vstep nr ne s (s\<lparr>failed := True\<rparr>)"
| poll: "\<not> failed s \<Longrightarrow> m < ne \<Longrightarrow> epc s m = Polling \<Longrightarrow> poll_evm m (bth s) = (ret, b) \<Longrightarrow>
    vstep nr ne s (s\<lparr>bth := b, epc := (epc s)(m := (if ret then Looping else Polling))\<rparr>)"

inductive vreach :: "nat \<Rightarrow> nat \<Rightarrow> int \<Rightarrow> int \<Rightarrow> voting \<Rightarrow> bool" for nr ne slots voters where
  init: "vreach nr ne slots voters (voting_init slots voters)"
| step: "vreach nr ne slots voters s \<Longrightarrow> vstep nr ne s t \<Longrightarrow> vreach nr ne slots voters t"

text \<open>\<open>main\<close>: 100 machines of one slot, 100 robots and 100 voters.\<close>

definition main_voting :: "voting \<Rightarrow> bool" where
  "main_voting s \<longleftrightarrow> vreach 100 100 1 100 s"

section \<open>The machines\<close>

definition at_evm :: "(nat \<Rightarrow> robot_pc) \<Rightarrow> nat \<Rightarrow> nat set" where
  "at_evm f e = {r. \<exists>v. f r = Voting v e}"

lemma at_evm_upd:
  "at_evm (f(r := p)) e = (if \<exists>v. p = Voting v e then insert r (at_evm f e) else at_evm f e - {r})"
  by (auto simp: at_evm_def)

lemma at_evm_other: "\<forall>v e. f r \<noteq> Voting v e \<Longrightarrow> r \<notin> at_evm f e"
  by (auto simp: at_evm_def)

definition einv :: "nat \<Rightarrow> int \<Rightarrow> voting \<Rightarrow> bool" where
  "einv nr slots s \<longleftrightarrow> \<not> failed s \<and>
     (\<forall>e. finite (at_evm (rpc s) e) \<and> number_occupied (evms (bth s) e) = int (card (at_evm (rpc s) e)) \<and>
        int (card (at_evm (rpc s) e)) \<le> slots \<and> number_of_slots (evms (bth s) e) = slots) \<and>
     (\<forall>e. free_evm (bth s) = Some e \<longrightarrow> int (card (at_evm (rpc s) e)) < slots)"

lemma einv_init: "0 < slots \<Longrightarrow> einv nr slots (voting_init slots voters)"
  by (simp add: einv_def voting_init_def booth_new_def get_new_evm_def at_evm_def)

lemma einv_rpc:
  assumes "einv nr slots s" "\<forall>v e. rpc s r \<noteq> Voting v e" "\<forall>v e. p \<noteq> Voting v e"
    "evms b = evms (bth s)" "free_evm b = free_evm (bth s)"
  shows "einv nr slots (s\<lparr>bth := b, rpc := (rpc s)(r := p)\<rparr>)"
proof -
  have "at_evm ((rpc s)(r := p)) e = at_evm (rpc s) e" for e
    using assms(2,3) by (auto simp: at_evm_def)
  with assms show ?thesis by (simp add: einv_def)
qed

lemma einv_step: "vstep nr ne s t \<Longrightarrow> einv nr slots s \<Longrightarrow> einv nr slots t"
proof (induction rule: vstep.induct)
  case (ask_none s r)
  then show ?case using einv_rpc [of nr slots s r Finished "bth s"] by simp
next
  case (ask_some s r)
  then show ?case using einv_rpc [of nr slots s r Taking "bth s"] by simp
next
  case (take s r v b)
  then show ?case
    using einv_rpc [of nr slots s r "if v \<le> - 1 then Finished else Waiting v" b] by (auto simp: take_voter_def)
next
  case (wait s r v eo b)
  show ?case
  proof (cases eo)
    case None
    with wait show ?thesis
      using einv_rpc [of nr slots s r "Waiting v" b] by (auto simp: wait_for_evm_def Let_def split: option.splits if_splits)
  next
    case (Some e)
    from wait.prems have all: "\<And>k. finite (at_evm (rpc s) k) \<and>
        number_occupied (evms (bth s) k) = int (card (at_evm (rpc s) k)) \<and>
        int (card (at_evm (rpc s) k)) \<le> slots \<and> number_of_slots (evms (bth s) k) = slots"
      by (simp add: einv_def)
    have r: "r \<notin> at_evm (rpc s) k" for k
      using wait.hyps by (intro at_evm_other) simp
    have at: "at_evm ((rpc s)(r := Voting v e)) k = (if k = e then insert r (at_evm (rpc s) e) else at_evm (rpc s) k)" for k
      using r [of k] by (auto simp: at_evm_upd)
    have lt: "number_occupied (evms (bth s) e) < slots" and fr: "free_evm (bth s) = Some e"
      and b: "evms b = (evms (bth s))(e := (evms (bth s) e)\<lparr>number_occupied := number_occupied (evms (bth s) e) + 1\<rparr>)"
        "free_evm b = (if number_occupied (evms (bth s) e) + 1 = slots then None else Some e)"
      using wait.hyps all [of e] Some by (auto simp: wait_for_evm_def Let_def split: option.splits if_splits)
    show ?thesis
      using wait.prems all r lt b Some by (auto simp: einv_def at)
  qed
next
  case (wait_fail s r v e)
  then show ?case
    by (auto simp: einv_def wait_for_evm_def Let_def split: option.splits if_splits)
next
  case (vote s r v e)
  from vote.prems have all: "\<And>k. finite (at_evm (rpc s) k) \<and>
      number_occupied (evms (bth s) k) = int (card (at_evm (rpc s) k)) \<and>
      int (card (at_evm (rpc s) k)) \<le> slots \<and> number_of_slots (evms (bth s) k) = slots"
    by (simp add: einv_def)
  have r: "r \<in> at_evm (rpc s) e" and o: "\<And>k. k \<noteq> e \<Longrightarrow> r \<notin> at_evm (rpc s) k"
    using vote.hyps by (auto simp: at_evm_def)
  have at: "at_evm ((rpc s)(r := Asking)) k = (if k = e then at_evm (rpc s) e - {r} else at_evm (rpc s) k)" for k
    using o by (auto simp: at_evm_upd)
  have "int (card (at_evm (rpc s) e - {r})) = int (card (at_evm (rpc s) e)) - 1"
    using all [of e] r by (simp add: card_Diff_singleton) (metis One_nat_def card_gt_0_iff empty_iff of_nat_1 of_nat_diff Suc_leI)
  moreover have "int (card (at_evm (rpc s) e)) - 1 \<le> slots"
    using all [of e] by linarith
  moreover have "int (card (at_evm (rpc s) e)) - 1 < slots" 
    using all [of e] by linarith
  ultimately show ?case
    using vote.prems all at by (auto simp: einv_def voter_in_slot_def)
next
  case (check_fail s m e)
  then show ?case by (auto simp: einv_def evm_check_def Let_def split: if_splits)
next
  case (poll s m ret b)
  then show ?case by (auto simp: einv_def poll_evm_def less_le split: if_splits)
qed (auto simp: einv_def)

interpretation votes: step_system "\<lambda>s. s = voting_init slots voters" "vstep nr ne" "vreach nr ne slots voters"
    for nr ne slots voters
  by unfold_locales (auto intro: vreach.intros elim: vreach.induct)

lemma vreach_einv: "vreach nr ne slots voters s \<Longrightarrow> 0 < slots \<Longrightarrow> einv nr slots s"
  by (erule votes.reached_least) (auto intro: einv_init einv_step)

text \<open>C32. On every run with any numbers of robots, machines and voters no assertion of the program fails: the
  number of occupied slots of a machine is always the number of robots voting at it, at most its number of
  slots, and a machine that is offered as free has a free slot.\<close>

theorem booth_slots:
  assumes "vreach nr ne slots voters s" "0 < slots"
  shows "\<not> failed s \<and>
    number_occupied (evms (bth s) e) = int (card {r. \<exists>v. rpc s r = Voting v e}) \<and>
    number_occupied (evms (bth s) e) \<le> slots \<and>
    (free_evm (bth s) = Some e \<longrightarrow> number_occupied (evms (bth s) e) < slots)"
  using vreach_einv [OF assms] by (simp add: einv_def at_evm_def)

theorem booth_slots_witness:
  "\<not> failed (voting_init 1 2) \<and> number_occupied (evms (bth (voting_init 1 2)) 0) \<le> 1"
  using booth_slots [OF vreach.init, of 1 2 0] by simp

section \<open>The votes\<close>

fun voter_of :: "robot_pc \<Rightarrow> int option" where
  "voter_of (Waiting v) = Some v"
| "voter_of (Voting v e) = Some v"
| "voter_of _ = None"

definition vinv :: "int \<Rightarrow> voting \<Rightarrow> bool" where
  "vinv voters s \<longleftrightarrow>
     (\<forall>r v. voter_of (rpc s r) = Some v \<longrightarrow>
        unassigned (bth s) < v \<and> 0 \<le> v \<and> v \<le> voters \<and> v \<notin> fst ` snd ` set (cast s)) \<and>
     (\<forall>r r' v. voter_of (rpc s r) = Some v \<longrightarrow> voter_of (rpc s r') = Some v \<longrightarrow> r = r') \<and>
     distinct (map (fst \<circ> snd) (cast s)) \<and>
     (\<forall>v \<in> fst ` snd ` set (cast s). unassigned (bth s) < v \<and> 0 \<le> v \<and> v \<le> voters) \<and>
     unassigned (bth s) \<le> voters \<and>
     votes_to_cast (bth s) = voters - int (length (cast s))"

lemma vinv_step: "vstep nr ne s t \<Longrightarrow> vinv voters s \<Longrightarrow> vinv voters t"
proof (induction rule: vstep.induct)
  case (take s r v b)
  then have *: "v = unassigned (bth s)" "b = (bth s)\<lparr>unassigned := unassigned (bth s) - 1\<rparr>"
    by (auto simp: take_voter_def)
  from take.prems show ?case
    unfolding vinv_def * by (auto 0 3 split: if_splits)
next
  case (wait s r v eo b)
  then have b: "unassigned b = unassigned (bth s)" "votes_to_cast b = votes_to_cast (bth s)"
    by (auto simp: wait_for_evm_def Let_def split: option.splits if_splits)
  have "voter_of (case eo of None \<Rightarrow> Waiting v | Some e \<Rightarrow> Voting v e) = voter_of (rpc s r)"
    using wait.hyps by (auto split: option.splits)
  then have "voter_of (((rpc s)(r := (case eo of None \<Rightarrow> Waiting v | Some e \<Rightarrow> Voting v e))) k) = voter_of (rpc s k)" for k
    by simp
  with wait.prems b show ?case by (simp add: vinv_def)
next
  case (vote s r v e)
  then have v: "voter_of (rpc s r) = Some v" by simp
  have others: "voter_of (((rpc s)(r := Asking)) k) = (if k = r then None else voter_of (rpc s k))" for k
    by simp
  show ?case
    using vote.prems v unfolding vinv_def voter_in_slot_def
    by (auto simp: others split: if_splits)
next
  case (poll s m ret b)
  then have "unassigned b = unassigned (bth s)" "votes_to_cast b = votes_to_cast (bth s)"
    by (auto simp: poll_evm_def split: if_splits)
  with poll.prems show ?case by (simp add: vinv_def)
qed (auto simp: vinv_def split: if_splits)

lemma vreach_vinv: "vreach nr ne slots voters s \<Longrightarrow> vinv voters s"
  by (erule votes.reached_least) (simp_all add: vinv_step, simp add: vinv_def voting_init_def booth_new_def)

text \<open>C33. On every run no voter is handed to two robots or votes twice, and the counter of the votes to cast
  is the number of voters minus the votes cast. The numbers of the voters that vote are between 0 and the
  number of voters, so at most one vote too many is cast.\<close>

theorem booth_votes:
  assumes "vreach nr ne slots voters s"
  shows "distinct (map (fst \<circ> snd) (cast s)) \<and> fst ` snd ` set (cast s) \<subseteq> {0..voters} \<and>
    votes_to_cast (bth s) = voters - int (length (cast s)) \<and> (0 \<le> voters \<longrightarrow> - 1 \<le> votes_to_cast (bth s))"
proof -
  note inv = vreach_vinv [OF assms]
  then have d: "distinct (map (fst \<circ> snd) (cast s))" and sub: "fst ` snd ` set (cast s) \<subseteq> {0..voters}"
    and c: "votes_to_cast (bth s) = voters - int (length (cast s))"
    unfolding vinv_def by auto
  have "length (cast s) = card (set (map (fst \<circ> snd) (cast s)))"
    using distinct_card [OF d] by simp
  also have "set (map (fst \<circ> snd) (cast s)) = fst ` snd ` set (cast s)"
    by (simp add: image_comp)
  also have "card \<dots> \<le> card {0..voters}"
    by (rule card_mono [OF _ sub]) simp
  finally have "length (cast s) \<le> nat (voters + 1)" by simp
  then have "0 \<le> voters \<Longrightarrow> int (length (cast s)) \<le> voters + 1" by linarith
  then show ?thesis
    using d sub c by auto
qed

theorem booth_votes_witness:
  "votes_to_cast (bth (voting_init 1 2)) = 2 - int (length (cast (voting_init 1 2))) \<and>
   - 1 \<le> votes_to_cast (bth (voting_init 1 2))"
  using booth_votes [OF vreach.init, of 1 2] by simp

text \<open>The test for unassigned voters is made before the lock is taken: with two robots, one machine and
  one voter a run exists that casts two votes, the second for a voter with number 0, and ends with -1 votes
  to cast.\<close>

theorem booth_extra_vote:
  "\<exists>s. vreach 2 1 1 1 s \<and> map (fst \<circ> snd) (cast s) = [1, 0] \<and> votes_to_cast (bth s) = - 1"
proof -
  define mk where "mk = (\<lambda>occ fr u n f0 f1 e c. \<lparr>bth = \<lparr>evms = (\<lambda>_. get_new_evm 1)(0 := \<lparr>number_of_slots = 1, number_occupied = occ\<rparr>),
      free_evm = fr, unassigned = u, votes_to_cast = n\<rparr>, rpc = (\<lambda>_. Asking)(0 := f0, 1 := f1),
      epc = (\<lambda>_. Looping)(0 := e), cast = c, failed = False\<rparr>)"
  note S = vreach.step [of 2 1 1 1]
  note defs = mk_def no_voter_left_def take_voter_def evm_check_def poll_evm_def wait_for_evm_def voter_in_slot_def
    fun_upd_twist
  have "vreach 2 1 1 1 (mk 0 None 1 1 Asking Asking Looping [])"
    using vreach.init [of 2 1 1 1] by (simp add: mk_def voting_init_def booth_new_def get_new_evm_def fun_upd_idem)
  then have "vreach 2 1 1 1 (mk 0 None 1 1 Taking Asking Looping [])"
    by (rule S) (use vstep.ask_some [of "mk 0 None 1 1 Asking Asking Looping []" 0 2 1] in \<open>simp add: defs\<close>)
  then have "vreach 2 1 1 1 (mk 0 None 1 1 Taking Taking Looping [])"
    by (rule S) (use vstep.ask_some [of "mk 0 None 1 1 Taking Asking Looping []" 1 2 1] in \<open>simp add: defs\<close>)
  then have "vreach 2 1 1 1 (mk 0 None 0 1 (Waiting 1) Taking Looping [])"
    by (rule S) (use vstep.take [of "mk 0 None 1 1 Taking Taking Looping []" 0 2 _ _ 1] in \<open>simp add: defs\<close>)
  then have "vreach 2 1 1 1 (mk 0 None (- 1) 1 (Waiting 1) (Waiting 0) Looping [])"
    by (rule S) (use vstep.take [of "mk 0 None 0 1 (Waiting 1) Taking Looping []" 1 2 _ _ 1] in \<open>simp add: defs\<close>)
  then have "vreach 2 1 1 1 (mk 0 None (- 1) 1 (Waiting 1) (Waiting 0) Checking [])"
    by (rule S) (use vstep.loop [of "mk 0 None (- 1) 1 (Waiting 1) (Waiting 0) Looping []" 0 1 2] in \<open>simp add: defs\<close>)
  then have "vreach 2 1 1 1 (mk 0 None (- 1) 1 (Waiting 1) (Waiting 0) Polling [])"
    by (rule S) (use vstep.check [of "mk 0 None (- 1) 1 (Waiting 1) (Waiting 0) Checking []" 0 1 _ 2] in \<open>simp add: defs\<close>)
  then have "vreach 2 1 1 1 (mk 0 (Some 0) (- 1) 1 (Waiting 1) (Waiting 0) Looping [])"
    by (rule S) (use vstep.poll [of "mk 0 None (- 1) 1 (Waiting 1) (Waiting 0) Polling []" 0 1 _ _ 2] in \<open>simp add: defs\<close>)
  then have "vreach 2 1 1 1 (mk 0 (Some 0) (- 1) 1 (Waiting 1) (Waiting 0) Checking [])"
    by (rule S) (use vstep.loop [of "mk 0 (Some 0) (- 1) 1 (Waiting 1) (Waiting 0) Looping []" 0 1 2] in \<open>simp add: defs\<close>)
  then have "vreach 2 1 1 1 (mk 0 (Some 0) (- 1) 1 (Waiting 1) (Waiting 0) Polling [])"
    by (rule S) (use vstep.check [of "mk 0 (Some 0) (- 1) 1 (Waiting 1) (Waiting 0) Checking []" 0 1 _ 2] in \<open>simp add: defs\<close>)
  then have "vreach 2 1 1 1 (mk 1 None (- 1) 1 (Voting 1 0) (Waiting 0) Polling [])"
    by (rule S) (use vstep.wait [of "mk 0 (Some 0) (- 1) 1 (Waiting 1) (Waiting 0) Polling []" 0 2 1 _ _ 1] in \<open>simp add: defs\<close>)
  then have "vreach 2 1 1 1 (mk 0 None (- 1) 0 Asking (Waiting 0) Polling [(0, 1, 0)])"
    by (rule S) (use vstep.vote [of "mk 1 None (- 1) 1 (Voting 1 0) (Waiting 0) Polling []" 0 2 1 0 1] in \<open>simp add: defs\<close>)
  then have "vreach 2 1 1 1 (mk 0 (Some 0) (- 1) 0 Asking (Waiting 0) Looping [(0, 1, 0)])"
    by (rule S) (use vstep.poll [of "mk 0 None (- 1) 0 Asking (Waiting 0) Polling [(0, 1, 0)]" 0 1 _ _ 2] in \<open>simp add: defs\<close>)
  then have "vreach 2 1 1 1 (mk 1 None (- 1) 0 Asking (Voting 0 0) Looping [(0, 1, 0)])"
    by (rule S) (use vstep.wait [of "mk 0 (Some 0) (- 1) 0 Asking (Waiting 0) Looping [(0, 1, 0)]" 1 2 0 _ _ 1] in \<open>simp add: defs\<close>)
  then have "vreach 2 1 1 1 (mk 0 None (- 1) (- 1) Asking Asking Looping [(0, 1, 0), (1, 0, 0)])"
    by (rule S) (use vstep.vote [of "mk 1 None (- 1) 0 Asking (Voting 0 0) Looping [(0, 1, 0)]" 1 2 0 0 1] in \<open>simp add: defs\<close>)
  then show ?thesis
    by (rule exI [of _ "mk 0 None (- 1) (- 1) Asking Asking Looping [(0, 1, 0), (1, 0, 0)]", OF conjI]) (simp add: mk_def)
qed

end
