(* ===== verification/Badminton.thy ===== *)
theory Badminton
  imports Prelude
begin

text \<open>
  Assignment4 \<open>q1.c\<close>: players and referees meet an organiser, wait for their team and enter the court. The
  threads are a step relation whose steps are the blocks under a mutex, split at \<open>pthread_cond_wait\<close> and,
  in the block that forms a team, between the broadcast and the rest, because the threads waiting for the
  team hold another mutex. Generating the threads in \<open>main\<close> is a function.
\<close>

section \<open>Meeting the organiser\<close>

datatype kind = Player | Refree

text \<open>The globals \<open>flag\<close>, \<open>playerWithOrganiser\<close> and \<open>refreeWithOrganiser\<close>.\<close>

record organiser =
  flag :: bool
  playerWithOrganiser :: int
  refreeWithOrganiser :: int

text \<open>The block of \<open>meetOrganiser\<close> up to the wait or the test for a complete team: wait, leave, or form the
  team.\<close>

datatype met = Must_wait | Leave organiser | Form organiser

definition meetOrganiser :: "kind \<Rightarrow> organiser \<Rightarrow> met" where
  "meetOrganiser k g =
     (let join = (\<lambda>h. if refreeWithOrganiser h = 1 \<and> playerWithOrganiser h = 2 \<and> k = Refree then Form h else Leave h)
      in case k of
           Player \<Rightarrow>
             (if playerWithOrganiser g = 2 then Must_wait
              else join (if playerWithOrganiser g < 2
                         then g\<lparr>playerWithOrganiser := playerWithOrganiser g + 1\<rparr> else g))
         | Refree \<Rightarrow>
             (if refreeWithOrganiser g = 1 then Must_wait
              else join (if refreeWithOrganiser g = 0
                         then g\<lparr>refreeWithOrganiser := refreeWithOrganiser g + 1\<rparr> else g)))"

text \<open>After the broadcast: the flag, and the organiser is free again.\<close>

definition formed :: "organiser \<Rightarrow> organiser" where
  "formed g = g\<lparr>flag := True, refreeWithOrganiser := 0, playerWithOrganiser := 0\<rparr>"

text \<open>\<open>teamFormation\<close>: wait, or pass; the referee clears the flag.\<close>

definition teamFormation :: "kind \<Rightarrow> organiser \<Rightarrow> organiser option" where
  "teamFormation k g =
     (if \<not> flag g then None else Some (if k = Refree then g\<lparr>flag := False\<rparr> else g))"

section \<open>The threads\<close>

text \<open>In the academy and about to meet the organiser; asleep on \<open>condPlayer\<close> or \<open>condRefree\<close>; between the
  broadcast and the rest of forming a team, with the mutex; about to check for a team; asleep on
  \<open>condEnterCourt\<close>; on the court.\<close>

datatype pc = Meeting | Meet_asleep | Forming | Teaming | Team_asleep | Court

record academy =
  org :: organiser
  pcs :: "nat \<Rightarrow> pc"

definition academy_init :: academy where
  "academy_init = \<lparr>org = \<lparr>flag = False, playerWithOrganiser = 0, refreeWithOrganiser = 0\<rparr>, pcs = (\<lambda>_. Meeting)\<rparr>"

definition broadcast_court :: "(nat \<Rightarrow> pc) \<Rightarrow> nat \<Rightarrow> pc" where
  "broadcast_court f = (\<lambda>i. if f i = Team_asleep then Teaming else f i)"

text \<open>A signal wakes one of the threads of a kind asleep on its condition, if there is one.\<close>

definition signals :: "(nat \<Rightarrow> kind) \<Rightarrow> kind \<Rightarrow> (nat \<Rightarrow> pc) \<Rightarrow> (nat \<Rightarrow> pc) \<Rightarrow> bool" where
  "signals kd k f f' \<longleftrightarrow>
     (if \<exists>i. kd i = k \<and> f i = Meet_asleep
      then \<exists>i. kd i = k \<and> f i = Meet_asleep \<and> f' = f(i := Meeting) else f' = f)"

text \<open>\<open>kd\<close> gives the kind of each of the \<open>m\<close> threads. \<open>spurious\<close> allows waits to end without a signal.\<close>

inductive bstep :: "bool \<Rightarrow> nat \<Rightarrow> (nat \<Rightarrow> kind) \<Rightarrow> academy \<Rightarrow> academy \<Rightarrow> bool" for spurious m kd where
  meet_wait: "i < m \<Longrightarrow> pcs s i = Meeting \<Longrightarrow> \<forall>j. pcs s j \<noteq> Forming \<Longrightarrow> meetOrganiser (kd i) (org s) = Must_wait \<Longrightarrow>
    bstep spurious m kd s (s\<lparr>pcs := (pcs s)(i := Meet_asleep)\<rparr>)"
| meet_leave: "i < m \<Longrightarrow> pcs s i = Meeting \<Longrightarrow> \<forall>j. pcs s j \<noteq> Forming \<Longrightarrow> meetOrganiser (kd i) (org s) = Leave g \<Longrightarrow>
    bstep spurious m kd s (s\<lparr>org := g, pcs := (pcs s)(i := Teaming)\<rparr>)"
| meet_form: "i < m \<Longrightarrow> pcs s i = Meeting \<Longrightarrow> \<forall>j. pcs s j \<noteq> Forming \<Longrightarrow> meetOrganiser (kd i) (org s) = Form g \<Longrightarrow>
    bstep spurious m kd s (s\<lparr>org := g, pcs := (broadcast_court (pcs s))(i := Forming)\<rparr>)"
| form_rest: "pcs s i = Forming \<Longrightarrow> signals kd Player (pcs s) f \<Longrightarrow> signals kd Refree f f' \<Longrightarrow>
    bstep spurious m kd s (s\<lparr>org := formed (org s), pcs := f'(i := Teaming)\<rparr>)"
| team_wait: "pcs s i = Teaming \<Longrightarrow> teamFormation (kd i) (org s) = None \<Longrightarrow>
    bstep spurious m kd s (s\<lparr>pcs := (pcs s)(i := Team_asleep)\<rparr>)"
| team_pass: "pcs s i = Teaming \<Longrightarrow> teamFormation (kd i) (org s) = Some g \<Longrightarrow>
    bstep spurious m kd s (s\<lparr>org := g, pcs := (pcs s)(i := Court)\<rparr>)"
| spur_meet: "spurious \<Longrightarrow> pcs s i = Meet_asleep \<Longrightarrow> bstep spurious m kd s (s\<lparr>pcs := (pcs s)(i := Meeting)\<rparr>)"
| spur_team: "spurious \<Longrightarrow> pcs s i = Team_asleep \<Longrightarrow> bstep spurious m kd s (s\<lparr>pcs := (pcs s)(i := Teaming)\<rparr>)"

inductive breach :: "bool \<Rightarrow> nat \<Rightarrow> (nat \<Rightarrow> kind) \<Rightarrow> academy \<Rightarrow> bool" for spurious m kd where
  init: "breach spurious m kd academy_init"
| step: "breach spurious m kd s \<Longrightarrow> bstep spurious m kd s t \<Longrightarrow> breach spurious m kd t"

section \<open>Generating the threads\<close>

text \<open>The state of the generating loop of \<open>main\<close>: what is left to generate, what was generated, \<open>flg\<close>, and the
  indices at which thread handles were stored.\<close>

record generator =
  no_player :: int
  no_refree :: int
  players :: int
  refrees :: int
  flg :: bool
  player_slots :: "int list"
  refree_slots :: "int list"

definition generator_init :: "int \<Rightarrow> generator" where
  "generator_init n =
     \<lparr>no_player = 2 * n, no_refree = n, players = 0, refrees = 0, flg = False, player_slots = [], refree_slots = []\<rparr>"

text \<open>\<open>probability_of_player < 5\<close> is \<open>10 p / (p + r) < 5\<close>, that is \<open>p < r\<close>: for counts of threads the rounding
  of the two floating point operations does not change the comparison.\<close>

definition gen_round :: "generator \<Rightarrow> generator" where
  "gen_round g =
     (if no_player g < no_refree g \<and> no_refree g > 0 then
        g\<lparr>refrees := refrees g + 1, flg := True, no_refree := no_refree g - 1,
          refree_slots := refree_slots g @ [refrees g + 1]\<rparr>
      else if \<not> no_player g < no_refree g \<and> no_player g > 0 then
        g\<lparr>players := players g + 1, flg := True, no_player := no_player g - 1,
          player_slots := player_slots g @ [players g + 1]\<rparr>
      else g)"

text \<open>\<open>for(i = 0; i < 3*n; i++)\<close> with \<open>i--\<close> when \<open>flg\<close> is still 0; \<open>None\<close> when the fuel runs out.\<close>

fun gen_loop :: "nat \<Rightarrow> int \<Rightarrow> int \<Rightarrow> generator \<Rightarrow> generator option" where
  "gen_loop 0 n i g = None"
| "gen_loop (Suc fuel) n i g =
     (if i < 3 * n then (let g' = gen_round g in gen_loop fuel n (if flg g' then i + 1 else i) g')
      else Some g)"

text \<open>The handles that \<open>main\<close> joins: \<open>refree_threads[i]\<close> for \<open>i < n\<close> and \<open>player_threads[i]\<close> for \<open>i < 2n\<close>.\<close>

definition joined_refrees :: "int \<Rightarrow> int list" where
  "joined_refrees n = [0..n - 1]"

definition joined_players :: "int \<Rightarrow> int list" where
  "joined_players n = [0..2 * n - 1]"

section \<open>The counters\<close>

definition cinv :: "academy \<Rightarrow> bool" where
  "cinv s \<longleftrightarrow> playerWithOrganiser (org s) \<in> {0, 1, 2} \<and> refreeWithOrganiser (org s) \<in> {0, 1} \<and>
     (\<forall>i j. pcs s i = Forming \<longrightarrow> pcs s j = Forming \<longrightarrow> i = j) \<and>
     ((\<exists>i. pcs s i = Forming) \<longrightarrow> playerWithOrganiser (org s) = 2 \<and> refreeWithOrganiser (org s) = 1)"

lemma signals_Forming: "signals kd k f f' \<Longrightarrow> f' i = Forming \<longleftrightarrow> f i = Forming"
  by (auto simp: signals_def split: if_splits)

lemma meet_Leave: "meetOrganiser k g = Leave h \<Longrightarrow> playerWithOrganiser g \<in> {0, 1, 2} \<Longrightarrow> refreeWithOrganiser g \<in> {0, 1}
   \<Longrightarrow> playerWithOrganiser h \<in> {0, 1, 2} \<and> refreeWithOrganiser h \<in> {0, 1}"
  by (auto simp: meetOrganiser_def Let_def split: kind.splits if_splits)

lemma meet_Form: "meetOrganiser k g = Form h \<Longrightarrow>
   k = Refree \<and> playerWithOrganiser h = 2 \<and> refreeWithOrganiser h = 1 \<and> refreeWithOrganiser g \<noteq> 1"
  by (auto simp: meetOrganiser_def Let_def split: kind.splits if_splits)

lemma cinv_step: "bstep spurious m kd s t \<Longrightarrow> cinv s \<Longrightarrow> cinv t"
proof (induction rule: bstep.induct)
  case (meet_leave i s g)
  then show ?case using meet_Leave [OF meet_leave.hyps(4)] by (auto simp: cinv_def)
next
  case (meet_form i s g)
  then show ?case using meet_Form [OF meet_form.hyps(4)] by (auto simp: cinv_def broadcast_court_def)
next
  case (form_rest s i f f')
  have "f' j = Forming \<longleftrightarrow> j = i" for j
    using signals_Forming [OF form_rest.hyps(2)] signals_Forming [OF form_rest.hyps(3)] form_rest.hyps(1) form_rest.prems
    by (auto simp: cinv_def)
  then show ?case by (auto simp: cinv_def formed_def)
next
  case (team_pass s i g)
  then show ?case by (auto simp: cinv_def teamFormation_def split: if_splits)
qed (auto simp: cinv_def)

interpretation courts: exclusive "\<lambda>s. s = academy_init" "bstep spurious m kd" "breach spurious m kd"
    "\<lambda>s i. pcs s i = Forming" cinv for spurious m kd
proof
  show "cinv s" if "s = academy_init" for s
    using that by (simp add: cinv_def academy_init_def)
  show "i = j" if "cinv s" "pcs s i = Forming" "pcs s j = Forming" for s i j
    using that unfolding cinv_def by blast
qed (auto intro: breach.intros cinv_step elim: breach.induct)

section \<open>Stuck teams\<close>

text \<open>The states of two players (0, 1) and a referee (2).\<close>

definition tri :: "pc \<Rightarrow> pc \<Rightarrow> pc \<Rightarrow> nat \<Rightarrow> pc" where
  "tri a b c = (\<lambda>_. Meeting)(0 := a, 1 := b, 2 := c)"

definition three :: "bool \<Rightarrow> int \<Rightarrow> int \<Rightarrow> pc \<Rightarrow> pc \<Rightarrow> pc \<Rightarrow> academy" where
  "three fl p r a b c =
     \<lparr>org = \<lparr>flag = fl, playerWithOrganiser = p, refreeWithOrganiser = r\<rparr>, pcs = tri a b c\<rparr>"

definition three_kinds :: "nat \<Rightarrow> kind" where
  "three_kinds = (\<lambda>_. Player)(2 := Refree)"

lemma tri_simps [simp]:
  "tri a b c 0 = a" "tri a b c (Suc 0) = b" "tri a b c 2 = c"
  "(tri a b c)(0 := x) = tri x b c" "(tri a b c)(Suc 0 := x) = tri a x c" "(tri a b c)(2 := x) = tri a b x"
  by (auto simp: tri_def)

lemma three_init: "academy_init = three False 0 0 Meeting Meeting Meeting"
  by (simp add: academy_init_def three_def tri_def fun_upd_idem)

lemma three_simps [simp]:
  "pcs (three fl p r a b c) = tri a b c"
  "org (three fl p r a b c) = \<lparr>flag = fl, playerWithOrganiser = p, refreeWithOrganiser = r\<rparr>"
  "three_kinds 0 = Player" "three_kinds (Suc 0) = Player" "three_kinds 2 = Refree"
  "(three fl p r a b c)\<lparr>org := \<lparr>flag = fl', playerWithOrganiser = p', refreeWithOrganiser = r'\<rparr>\<rparr> = three fl' p' r' a b c"
  "(three fl p r a b c)\<lparr>pcs := tri a' b' c'\<rparr> = three fl p r a' b' c'"
  by (simp_all add: three_def three_kinds_def)

lemma tri_Forming: "(\<forall>j. tri a b c j \<noteq> Forming) \<longleftrightarrow> a \<noteq> Forming \<and> b \<noteq> Forming \<and> c \<noteq> Forming"
proof -
  have "tri a b c j = Forming \<longleftrightarrow> (if j = 0 then a else if j = 1 then b else if j = 2 then c else Meeting) = Forming" for j
    by (simp add: tri_def)
  then show ?thesis by (metis one_neq_zero pc.distinct(3) zero_neq_numeral one_eq_numeral_iff semiring_norm(85))
qed

lemma tri_Meet_asleep: "tri a b c i = Meet_asleep \<Longrightarrow> a = Meet_asleep \<or> b = Meet_asleep \<or> c = Meet_asleep"
  by (auto simp: tri_def split: if_splits)

lemma tri_broadcast: "broadcast_court (tri Teaming Teaming c) = tri Teaming Teaming (if c = Team_asleep then Teaming else c)"
  by (auto simp: broadcast_court_def tri_def)

lemma three_stuck:
  assumes "a \<in> {Team_asleep, Court}" "b \<in> {Team_asleep, Court}" "c \<in> {Team_asleep, Court}"
  shows "\<not> bstep False 3 three_kinds (three fl p r a b c) t"
proof
  assume st: "bstep False 3 three_kinds (three fl p r a b c) t"
  have "\<forall>i < 3. tri a b c i \<in> {Team_asleep, Court}" "\<forall>i. tri a b c i \<in> {Team_asleep, Court, Meeting}"
    using assms by (auto simp: tri_def)
  with st show False
    by cases (metis insertE singletonD three_simps(1) pc.distinct)+
qed

text \<open>Two players and their referee can wait for each other for ever. When the referee meets the
  organiser before the second player, nobody forms the team; and when the players come first, they can look at
  the flag between the broadcast that wakes them and the store of the flag, go back to sleep, and the referee
  clears the flag and leaves alone. In both cases a state is reachable in which all have met the organiser,
  the players sleep and no step is possible.\<close>

theorem badminton_deadlock:
  "(\<exists>s. breach False 3 three_kinds s \<and> pcs s 0 = Team_asleep \<and> pcs s 1 = Team_asleep \<and> pcs s 2 = Team_asleep \<and>
     (\<forall>t. \<not> bstep False 3 three_kinds s t)) \<and>
   (\<exists>s. breach False 3 three_kinds s \<and> pcs s 0 = Team_asleep \<and> pcs s 1 = Team_asleep \<and> pcs s 2 = Court \<and>
     (\<forall>t. \<not> bstep False 3 three_kinds s t))"
proof
  note S = breach.step [of False 3 three_kinds]
  note defs = meetOrganiser_def teamFormation_def tri_Forming Let_def
  note leave = bstep.meet_leave [of _ 3 _ three_kinds _ False]
  note sleep = bstep.team_wait [of _ _ three_kinds False 3]
  have i: "breach False 3 three_kinds (three False 0 0 Meeting Meeting Meeting)"
    using breach.init [of False 3 three_kinds] by (simp add: three_init)
  then have "breach False 3 three_kinds (three False 0 1 Meeting Meeting Teaming)"
    by (rule S) (use leave [of 2 "three False 0 0 Meeting Meeting Meeting"] in \<open>simp add: defs\<close>)
  then have "breach False 3 three_kinds (three False 0 1 Meeting Meeting Team_asleep)"
    by (rule S) (use sleep [of "three False 0 1 Meeting Meeting Teaming" 2] in \<open>simp add: defs\<close>)
  then have "breach False 3 three_kinds (three False 1 1 Teaming Meeting Team_asleep)"
    by (rule S) (use leave [of 0 "three False 0 1 Meeting Meeting Team_asleep"] in \<open>simp add: defs\<close>)
  then have "breach False 3 three_kinds (three False 1 1 Team_asleep Meeting Team_asleep)"
    by (rule S) (use sleep [of "three False 1 1 Teaming Meeting Team_asleep" 0] in \<open>simp add: defs\<close>)
  then have "breach False 3 three_kinds (three False 2 1 Team_asleep Teaming Team_asleep)"
    by (rule S) (use leave [of 1 "three False 1 1 Team_asleep Meeting Team_asleep"] in \<open>simp add: defs\<close>)
  then have "breach False 3 three_kinds (three False 2 1 Team_asleep Team_asleep Team_asleep)"
    by (rule S) (use sleep [of "three False 2 1 Team_asleep Teaming Team_asleep" 1] in \<open>simp add: defs\<close>)
  then show "\<exists>s. breach False 3 three_kinds s \<and> pcs s 0 = Team_asleep \<and> pcs s 1 = Team_asleep \<and>
      pcs s 2 = Team_asleep \<and> (\<forall>t. \<not> bstep False 3 three_kinds s t)"
    by (intro exI [of _ "three False 2 1 Team_asleep Team_asleep Team_asleep"]) (simp add: three_stuck)
  from i have "breach False 3 three_kinds (three False 1 0 Teaming Meeting Meeting)"
    by (rule S) (use leave [of 0 "three False 0 0 Meeting Meeting Meeting"] in \<open>simp add: defs\<close>)
  then have "breach False 3 three_kinds (three False 2 0 Teaming Teaming Meeting)"
    by (rule S) (use leave [of 1 "three False 1 0 Teaming Meeting Meeting"] in \<open>simp add: defs\<close>)
  then have "breach False 3 three_kinds (three False 2 1 Teaming Teaming Forming)"
    by (rule S) (use bstep.meet_form [of 2 3 "three False 2 0 Teaming Teaming Meeting" three_kinds _ False]
      in \<open>simp add: defs tri_broadcast\<close>)
  then have "breach False 3 three_kinds (three False 2 1 Team_asleep Teaming Forming)"
    by (rule S) (use sleep [of "three False 2 1 Teaming Teaming Forming" 0] in \<open>simp add: defs\<close>)
  then have "breach False 3 three_kinds (three False 2 1 Team_asleep Team_asleep Forming)"
    by (rule S) (use sleep [of "three False 2 1 Team_asleep Teaming Forming" 1] in \<open>simp add: defs\<close>)
  note b = this
  have sig: "signals three_kinds k (pcs (three False 2 1 Team_asleep Team_asleep Forming))
      (pcs (three False 2 1 Team_asleep Team_asleep Forming))" for k
    by (auto simp: signals_def dest!: tri_Meet_asleep)
  from b have "breach False 3 three_kinds (three True 0 0 Team_asleep Team_asleep Teaming)"
    by (rule S) (use bstep.form_rest [OF _ sig sig, of 2 False 3] in \<open>simp add: formed_def\<close>)
  then have "breach False 3 three_kinds (three False 0 0 Team_asleep Team_asleep Court)"
    by (rule S) (use bstep.team_pass [of "three True 0 0 Team_asleep Team_asleep Teaming" 2 three_kinds _ False 3]
      in \<open>simp add: defs\<close>)
  then show "\<exists>s. breach False 3 three_kinds s \<and> pcs s 0 = Team_asleep \<and> pcs s 1 = Team_asleep \<and>
      pcs s 2 = Court \<and> (\<forall>t. \<not> bstep False 3 three_kinds s t)"
    by (intro exI [of _ "three False 0 0 Team_asleep Team_asleep Court"]) (simp add: three_stuck)
qed

section \<open>Teams\<close>

text \<open>A run with its history: the teams formed so far, each as the list of the threads that met the organiser since
  the one before, and the threads that met the organiser since the last.\<close>

inductive meetings :: "bool \<Rightarrow> nat \<Rightarrow> (nat \<Rightarrow> kind) \<Rightarrow> nat list list \<Rightarrow> nat list \<Rightarrow> academy \<Rightarrow> bool" for spurious m kd where
  begins: "meetings spurious m kd [] [] academy_init"
| joins: "meetings spurious m kd ts g s \<Longrightarrow> bstep spurious m kd s t \<Longrightarrow> pcs s i = Meeting \<Longrightarrow> pcs t i \<in> {Teaming, Forming} \<Longrightarrow>
    meetings spurious m kd ts (g @ [i]) t"
| forms: "meetings spurious m kd ts g s \<Longrightarrow> bstep spurious m kd s t \<Longrightarrow> pcs s i = Forming \<Longrightarrow> pcs t i \<noteq> Forming \<Longrightarrow>
    meetings spurious m kd (ts @ [g]) [] t"
| others: "meetings spurious m kd ts g s \<Longrightarrow> bstep spurious m kd s t \<Longrightarrow>
    \<forall>i. (pcs s i = Meeting \<longrightarrow> pcs t i \<notin> {Teaming, Forming}) \<and> (pcs s i = Forming \<longrightarrow> pcs t i = Forming) \<Longrightarrow>
    meetings spurious m kd ts g t"

text \<open>Every run has a history.\<close>

lemma meetings_breach: "meetings spurious m kd ts g s \<Longrightarrow> breach spurious m kd s"
  by (induction rule: meetings.induct) (auto intro: breach.intros)

lemma breach_meetings: "breach spurious m kd s \<longleftrightarrow> (\<exists>ts g. meetings spurious m kd ts g s)"
proof
  show "\<exists>ts g. meetings spurious m kd ts g s" if "breach spurious m kd s"
    using that
  proof (rule courts.reached_least)
    show "\<exists>ts g. meetings spurious m kd ts g t" if st: "bstep spurious m kd s t" and "\<exists>ts g. meetings spurious m kd ts g s" for s t
    proof -
      from that obtain ts g where h: "meetings spurious m kd ts g s" by blast
      show ?thesis using meetings.joins [OF h st] meetings.forms [OF h st] meetings.others [OF h st] by blast
    qed
  qed (auto intro: meetings.begins)
qed (auto dest: meetings_breach)

definition with_organiser :: "pc \<Rightarrow> bool" where
  "with_organiser p \<longleftrightarrow> p \<in> {Meeting, Meet_asleep}"

definition number_of :: "(nat \<Rightarrow> kind) \<Rightarrow> kind \<Rightarrow> nat list \<Rightarrow> int" where
  "number_of kd k g = int (length (filter (\<lambda>i. kd i = k) g))"

lemma number_of_simps [simp]: "number_of kd k [] = 0" "number_of kd k (g @ [i]) = number_of kd k g + (if kd i = k then 1 else 0)"
  by (simp_all add: number_of_def)

lemma two_players:
  assumes "number_of kd Player g = 2" "number_of kd Refree g = 0"
  shows "map kd g = [Player, Player]"
proof -
  have all: "\<forall>i \<in> set g. kd i = Player"
    using assms(2) by (auto simp: number_of_def filter_empty_conv) (metis kind.exhaust)
  then have "length g = 2" using assms(1) by (simp add: number_of_def filter_id_conv [THEN iffD2])
  with all show ?thesis by (auto simp: numeral_2_eq_2 length_Suc_conv)
qed

text \<open>What the history says of the state.\<close>

definition team_inv :: "(nat \<Rightarrow> kind) \<Rightarrow> nat list list \<Rightarrow> nat list \<Rightarrow> academy \<Rightarrow> bool" where
  "team_inv kd ts g s \<longleftrightarrow> (\<forall>t \<in> set ts. map kd t = [Player, Player, Refree]) \<and> distinct (concat ts @ g) \<and>
     set (concat ts @ g) = {i. \<not> with_organiser (pcs s i)} \<and>
     playerWithOrganiser (org s) = number_of kd Player g \<and> refreeWithOrganiser (org s) = number_of kd Refree g \<and>
     (\<forall>i. pcs s i = Forming \<longrightarrow> map kd g = [Player, Player, Refree] \<and> last g = i) \<and>
     card {i. kd i = Refree \<and> pcs s i = Court} + (if flag (org s) then 1 else 0) \<le> length ts"

lemma meet_counts:
  assumes "meetOrganiser k g = Leave h \<or> meetOrganiser k g = Form h" "playerWithOrganiser g \<in> {0, 1, 2}" "refreeWithOrganiser g \<in> {0, 1}"
  shows "playerWithOrganiser h = playerWithOrganiser g + (if k = Player then 1 else 0)"
    "refreeWithOrganiser h = refreeWithOrganiser g + (if k = Refree then 1 else 0)" "flag h = flag g"
    "meetOrganiser k g = Form h \<Longrightarrow> k = Refree \<and> playerWithOrganiser g = 2 \<and> refreeWithOrganiser g = 0"
  using assms by (auto simp: meetOrganiser_def Let_def split: kind.splits if_splits)

lemma pc_simps [simp]: "with_organiser Meeting" "with_organiser Meet_asleep" "\<not> with_organiser Forming" "\<not> with_organiser Teaming"
  "\<not> with_organiser Team_asleep" "\<not> with_organiser Court"
  by (simp_all add: with_organiser_def)

lemma broadcast_simps [simp]:
  "with_organiser (broadcast_court f i) = with_organiser (f i)" "broadcast_court f i = Forming \<longleftrightarrow> f i = Forming"
  "broadcast_court f i = Court \<longleftrightarrow> f i = Court"
  by (simp_all add: broadcast_court_def)

lemma signals_simps:
  assumes "signals kd k f f'"
  shows "with_organiser (f' i) = with_organiser (f i)" "f' i = Forming \<longleftrightarrow> f i = Forming" "f' i = Court \<longleftrightarrow> f i = Court"
  using assms by (auto simp: signals_def split: if_splits)

lemma with_one_more: "f i = p \<Longrightarrow> with_organiser p \<Longrightarrow> \<not> with_organiser q \<Longrightarrow>
    {j. \<not> with_organiser ((f(i := q)) j)} = insert i {j. \<not> with_organiser (f j)}"
  by auto

lemma newcomer: "team_inv kd ts g s \<Longrightarrow> pcs s i = Meeting \<Longrightarrow> i \<notin> set g \<and> (\<forall>x \<in> set ts. i \<notin> set x)"
proof -
  assume a: "team_inv kd ts g s" "pcs s i = Meeting"
  then have "i \<notin> set (concat ts @ g)" by (simp add: team_inv_def del: set_concat set_append)
  then show ?thesis by auto
qed

lemma former: "team_inv kd ts g s \<Longrightarrow> pcs s i = Forming \<Longrightarrow> pcs s j = Forming \<longleftrightarrow> j = i"
  unfolding team_inv_def by metis

text \<open>A thread that leaves the organiser joins the group.\<close>

lemma joins_inv:
  assumes "team_inv kd ts g s" "cinv s" "bstep spurious m kd s t" "pcs s i = Meeting" "pcs t i \<in> {Teaming, Forming}"
  shows "team_inv kd ts (g @ [i]) t"
  using assms(3)
proof cases
  case (meet_leave j h)
  with assms(4,5) have i: "j = i" by (auto split: if_splits)
  from assms(2) have c: "playerWithOrganiser (org s) \<in> {0, 1, 2}" "refreeWithOrganiser (org s) \<in> {0, 1}" by (auto simp: cinv_def)
  note n = meet_counts [OF disjI1 [OF meet_leave(5)] c]
  note new = newcomer [OF assms(1,4)]
  have "{k. kd k = Refree \<and> pcs t k = Court} = {k. kd k = Refree \<and> pcs s k = Court}"
    using assms(4) by (auto simp: meet_leave(1) i)
  moreover have "{k. \<not> with_organiser (pcs t k)} = insert i {k. \<not> with_organiser (pcs s k)}"
    using assms(4) by (auto simp: meet_leave(1) i)
  ultimately show ?thesis
    using assms(1,4) n meet_leave(4) new unfolding team_inv_def by (auto simp: meet_leave(1) i)
next
  case (meet_form j h)
  with assms(4,5) have i: "j = i" by (auto simp: broadcast_court_def split: if_splits)
  from assms(2) have c: "playerWithOrganiser (org s) \<in> {0, 1, 2}" "refreeWithOrganiser (org s) \<in> {0, 1}" by (auto simp: cinv_def)
  note n = meet_counts [OF disjI2 [OF meet_form(5)] c]
  note new = newcomer [OF assms(1,4)]
  have "map kd g = [Player, Player]"
    using n(4) [OF meet_form(5)] assms(1) by (intro two_players) (auto simp: team_inv_def)
  moreover have "{k. kd k = Refree \<and> pcs t k = Court} = {k. kd k = Refree \<and> pcs s k = Court}"
    using assms(4) by (auto simp: meet_form(1) i)
  moreover have "{k. \<not> with_organiser (pcs t k)} = insert i {k. \<not> with_organiser (pcs s k)}"
    using assms(4) by (auto simp: meet_form(1) i)
  ultimately show ?thesis
    using assms(1,4) n n(4) [OF meet_form(5)] meet_form(4) new unfolding team_inv_def by (auto simp: meet_form(1) i)
qed (use assms(4,5) in \<open>auto simp: signals_def split: if_splits\<close>)

text \<open>The thread that forms the team ends the group.\<close>

lemma forms_inv:
  assumes "team_inv kd ts g s" "bstep spurious m kd s t" "pcs s i = Forming" "pcs t i \<noteq> Forming"
  shows "team_inv kd (ts @ [g]) [] t"
  using assms(2)
proof cases
  case (form_rest j f f')
  note S = signals_simps [OF form_rest(3)] signals_simps [OF form_rest(4)]
  have i: "j = i" using former [OF assms(1,3)] form_rest(2) by simp
  have "{k. kd k = Refree \<and> pcs t k = Court} = {k. kd k = Refree \<and> pcs s k = Court}"
    using assms(3) by (auto simp: form_rest(1) i S)
  moreover have "{k. \<not> with_organiser (pcs t k)} = {k. \<not> with_organiser (pcs s k)}"
    using assms(3) by (auto simp: form_rest(1) i S)
  moreover have "pcs t k \<noteq> Forming" for k
    using former [OF assms(1,3)] by (simp add: form_rest(1) i S)
  moreover have "org t = formed (org s)" by (simp add: form_rest(1))
  ultimately show ?thesis
    using assms(1,3) unfolding team_inv_def by (auto simp: formed_def split: if_splits)
qed (use assms(3,4) in \<open>auto simp: broadcast_court_def split: if_splits\<close>)

text \<open>Every other step keeps the history.\<close>

lemma others_inv:
  assumes "team_inv kd ts g s" "bstep spurious m kd s t"
    "\<forall>i. (pcs s i = Meeting \<longrightarrow> pcs t i \<notin> {Teaming, Forming}) \<and> (pcs s i = Forming \<longrightarrow> pcs t i = Forming)"
  shows "team_inv kd ts g t"
  using assms(2)
proof cases
  case (team_pass i h)
  have "{k. kd k = Refree \<and> pcs s k = Court} \<subseteq> {k. \<not> with_organiser (pcs s k)}" by auto
  moreover have "finite {k. \<not> with_organiser (pcs s k)}"
    using assms(1) unfolding team_inv_def by (metis finite_set)
  ultimately have "finite {k. kd k = Refree \<and> pcs s k = Court}" by (rule finite_subset)
  moreover have "{k. kd k = Refree \<and> pcs t k = Court} =
      (if kd i = Refree then insert i {k. kd k = Refree \<and> pcs s k = Court} else {k. kd k = Refree \<and> pcs s k = Court})"
    by (auto simp: team_pass(1))
  moreover have "{k. \<not> with_organiser (pcs t k)} = {k. \<not> with_organiser (pcs s k)}"
    using team_pass(2) by (auto simp: team_pass(1))
  moreover have "flag (org s)" "h = (if kd i = Refree then (org s)\<lparr>flag := False\<rparr> else org s)"
    using team_pass(3) by (auto simp: teamFormation_def split: if_splits)
  ultimately show ?thesis
    using assms(1) team_pass(2) unfolding team_inv_def by (auto simp: team_pass(1) split: if_splits)
next
  case (meet_leave i h)
  then show ?thesis using assms(3) by (auto split: if_splits dest: spec [of _ i])
next
  case (meet_form i h)
  then show ?thesis using assms(3) by (auto split: if_splits dest: spec [of _ i])
next
  case (form_rest i f f')
  then show ?thesis using assms(3) by (auto split: if_splits dest: spec [of _ i])
next
  case (meet_wait i)
  have "{k. \<not> with_organiser (pcs t k)} = {k. \<not> with_organiser (pcs s k)}"
    "{k. kd k = Refree \<and> pcs t k = Court} = {k. kd k = Refree \<and> pcs s k = Court}"
    using meet_wait(3) by (auto simp: meet_wait(1))
  then show ?thesis using assms(1) unfolding team_inv_def by (auto simp: meet_wait(1))
next
  case (team_wait i)
  have "{k. \<not> with_organiser (pcs t k)} = {k. \<not> with_organiser (pcs s k)}"
    "{k. kd k = Refree \<and> pcs t k = Court} = {k. kd k = Refree \<and> pcs s k = Court}"
    using team_wait(2) by (auto simp: team_wait(1))
  then show ?thesis using assms(1) unfolding team_inv_def by (auto simp: team_wait(1))
next
  case (spur_meet i)
  have "{k. \<not> with_organiser (pcs t k)} = {k. \<not> with_organiser (pcs s k)}"
    "{k. kd k = Refree \<and> pcs t k = Court} = {k. kd k = Refree \<and> pcs s k = Court}"
    using spur_meet(3) by (auto simp: spur_meet(1))
  then show ?thesis using assms(1) unfolding team_inv_def by (auto simp: spur_meet(1))
next
  case (spur_team i)
  have "{k. \<not> with_organiser (pcs t k)} = {k. \<not> with_organiser (pcs s k)}"
    "{k. kd k = Refree \<and> pcs t k = Court} = {k. kd k = Refree \<and> pcs s k = Court}"
    using spur_team(3) by (auto simp: spur_team(1))
  then show ?thesis using assms(1) unfolding team_inv_def by (auto simp: spur_team(1))
qed

lemma meetings_inv: "meetings spurious m kd ts g s \<Longrightarrow> team_inv kd ts g s"
proof (induction rule: meetings.induct)
  case begins
  show ?case by (simp add: team_inv_def academy_init_def)
next
  case (joins ts g s t i)
  then show ?case using joins_inv courts.always_guarded [OF meetings_breach [OF joins.hyps(1)]] by blast
qed (rule forms_inv others_inv; assumption)+

text \<open>C35. On every run, with spurious wakeups, the teams formed are pairs of players followed by a referee, the threads
  past the organiser are, each once, those of these teams and of the group after them, the counters say how many
  players and referees the group has, at most two and one, the team being formed is the whole group and is formed by
  its referee, and no more referees have entered the court than teams were formed, one less while the flag is up.\<close>

theorem organiser_teams:
  assumes "meetings spurious m kd ts g s"
  shows "(\<forall>t \<in> set ts. map kd t = [Player, Player, Refree]) \<and> distinct (concat ts @ g) \<and>
    set (concat ts @ g) = {i. pcs s i \<notin> {Meeting, Meet_asleep}} \<and>
    playerWithOrganiser (org s) = int (length (filter (\<lambda>i. kd i = Player) g)) \<and> playerWithOrganiser (org s) \<le> 2 \<and>
    refreeWithOrganiser (org s) = int (length (filter (\<lambda>i. kd i = Refree) g)) \<and> refreeWithOrganiser (org s) \<le> 1 \<and>
    (pcs s i = Forming \<longrightarrow> map kd g = [Player, Player, Refree] \<and> last g = i) \<and>
    card {i. kd i = Refree \<and> pcs s i = Court} + (if flag (org s) then 1 else 0) \<le> length ts"
  using meetings_inv [OF assms] courts.always_guarded [OF meetings_breach [OF assms]]
  unfolding team_inv_def cinv_def with_organiser_def number_of_def by fastforce

lemma three_meeting:
  "\<exists>s. meetings False 3 three_kinds [[0, 1, 2]] [] s \<and> flag (org s)"
proof -
  note defs = meetOrganiser_def teamFormation_def tri_Forming Let_def
  note leave = bstep.meet_leave [of _ 3 _ three_kinds _ False]
  have i: "meetings False 3 three_kinds [] [] (three False 0 0 Meeting Meeting Meeting)"
    using meetings.begins [of False 3 three_kinds] by (simp add: three_init)
  have "meetings False 3 three_kinds [] ([] @ [0]) (three False 1 0 Teaming Meeting Meeting)"
    by (rule meetings.joins [OF i]) (use leave [of 0 "three False 0 0 Meeting Meeting Meeting"] in \<open>simp_all add: defs\<close>)
  then have j: "meetings False 3 three_kinds [] (([] @ [0]) @ [1]) (three False 2 0 Teaming Teaming Meeting)"
    by (rule meetings.joins) (use leave [of 1 "three False 1 0 Teaming Meeting Meeting"] in \<open>simp_all add: defs\<close>)
  then have k: "meetings False 3 three_kinds [] ((([] @ [0]) @ [1]) @ [2]) (three False 2 1 Teaming Teaming Forming)"
    by (rule meetings.joins) (use bstep.meet_form [of 2 3 "three False 2 0 Teaming Teaming Meeting" three_kinds _ False]
      in \<open>simp_all add: defs tri_broadcast\<close>)
  have sig: "signals three_kinds n (pcs (three False 2 1 Teaming Teaming Forming)) (pcs (three False 2 1 Teaming Teaming Forming))" for n
    by (auto simp: signals_def dest!: tri_Meet_asleep)
  from k have "meetings False 3 three_kinds ([] @ [(([] @ [0]) @ [1]) @ [2]]) [] (three True 0 0 Teaming Teaming Teaming)"
    by (rule meetings.forms [of _ _ _ _ _ _ _ 2]) (use bstep.form_rest [OF _ sig sig, of 2 False 3] in \<open>simp_all add: formed_def\<close>)
  then show ?thesis by (intro exI [of _ "three True 0 0 Teaming Teaming Teaming"]) (simp add: three_def)
qed

theorem organiser_teams_witness:
  "\<exists>s. meetings False 3 three_kinds [[0, 1, 2]] [] s \<and> set [0, 1, 2] = {i. pcs s i \<notin> {Meeting, Meet_asleep}} \<and>
    card {i. three_kinds i = Refree \<and> pcs s i = Court} = 0"
proof -
  obtain s where s: "meetings False 3 three_kinds [[0, 1, 2]] [] s" "flag (org s)" using three_meeting by blast
  from organiser_teams [OF s(1)] s show ?thesis by (intro exI [of _ s]) simp
qed

section \<open>The generating loop\<close>

text \<open>After \<open>k\<close> rounds.\<close>

definition ginv :: "int \<Rightarrow> int \<Rightarrow> generator \<Rightarrow> bool" where
  "ginv n i g \<longleftrightarrow> 0 \<le> players g \<and> 0 \<le> refrees g \<and> 0 \<le> no_player g \<and> 0 \<le> no_refree g \<and> players g = 2 * n - no_player g \<and>
     refrees g = n - no_refree g \<and> players g + refrees g = i \<and>
     player_slots g = [1..players g] \<and> refree_slots g = [1..refrees g]"

lemma upto_snoc: "0 \<le> k \<Longrightarrow> [1..k] @ [k + 1] = [1..k + 1]"
  using upto_rec2 [of 1 "k + 1"] by simp

lemma ginv_round: "ginv n i g \<Longrightarrow> i < 3 * n \<Longrightarrow> ginv n (i + 1) (gen_round g) \<and> flg (gen_round g)"
  by (auto simp: ginv_def gen_round_def upto_snoc)

lemma gen_loop_ginv: "ginv n i g \<Longrightarrow> i \<le> 3 * n \<Longrightarrow> nat (3 * n - i) < fuel \<Longrightarrow>
    \<exists>g'. gen_loop fuel n i g = Some g' \<and> ginv n (3 * n) g'"
proof (induction fuel arbitrary: i g)
  case (Suc fuel)
  show ?case
  proof (cases "i < 3 * n")
    case True
    note r = ginv_round [OF Suc.prems(1) True]
    with Suc.IH [of "i + 1" "gen_round g"] Suc.prems True show ?thesis by (simp add: Let_def)
  next
    case False
    with Suc.prems have "i = 3 * n" by simp
    with Suc.prems show ?thesis by auto
  qed
qed simp

text \<open>For every \<open>n\<close> the loop of \<open>main\<close> ends after \<open>3n\<close> rounds with exactly \<open>2n\<close> players and \<open>n\<close> referees
  created. The handles are stored at the indices 1 to \<open>2n\<close> and 1 to \<open>n\<close>, so for a positive \<open>n\<close> each array is
  written one element beyond its end, and \<open>main\<close> joins the element 0, in which no handle was stored, and
  never the last thread.\<close>

theorem main_generates:
  assumes "0 \<le> n"
  shows "\<exists>g. gen_loop (nat (3 * n) + 1) n 0 (generator_init n) = Some g \<and> players g = 2 * n \<and> refrees g = n \<and>
    player_slots g = [1..2 * n] \<and> refree_slots g = [1..n] \<and>
    (0 < n \<longrightarrow> 2 * n \<in> set (player_slots g) \<and> n \<in> set (refree_slots g) \<and>
      2 * n \<notin> set (joined_players n) \<and> n \<notin> set (joined_refrees n) \<and>
      0 \<in> set (joined_players n) - set (player_slots g) \<and> 0 \<in> set (joined_refrees n) - set (refree_slots g))"
proof -
  have "ginv n 0 (generator_init n)"
    using assms by (simp add: ginv_def generator_init_def)
  from gen_loop_ginv [OF this, of "nat (3 * n) + 1"] assms
  obtain g where g: "gen_loop (nat (3 * n) + 1) n 0 (generator_init n) = Some g" "ginv n (3 * n) g" by auto
  then have "players g = 2 * n" "refrees g = n" by (auto simp: ginv_def)
  with g show ?thesis
    by (auto simp: ginv_def joined_players_def joined_refrees_def)
qed

theorem main_generates_witness:
  "\<exists>g. gen_loop 7 2 0 (generator_init 2) = Some g \<and> players g = 4 \<and> refrees g = 2"
  using main_generates [of 2] by auto

end
