(* ===== verification/FuelStation.thy ===== *)
theory FuelStation
  imports Prelude
begin

text \<open>
  Assignment4/\<open>q1_temp.c\<close>: cars queue at a fuel station, pump and pay by card; three attenders serve and take the
  payments. A step is a piece of a thread between two accesses to a shared variable: \<open>serving\<close> is changed under two
  different mutexes, so its increment and decrement are a read and a write each, and \<open>main\<close> reads the queue without a
  lock. The parts under \<open>mutexATM\<close> are one step, since every access to \<open>ATM\<close> and \<open>ATMBUSY\<close> holds it. A wait may
  end at any time, as the C library allows. \<open>main\<close> waits on a mutex it does not hold, which C leaves undefined:
  it stops there in \<open>MUndef\<close>.
\<close>

section \<open>The state\<close>

datatype cphase =
    CNone | CLock | CLine | CLineWait
  | CPump | CPumpWait | CPumpOk | CAdd int | CQue
  | CPay | CAtm | CCard | CExit | CDone | CJoining

datatype aphase = AServe | AGot | ARead int | AAccept

datatype mphase = MLoop | MCount | MCount2 | MUndef | MJoin | MDone

datatype line = Entering_que nat | Que_full | Getting_Served nat | Giving_card nat | Successful nat | Exiting nat | Serving nat | Entering_card nat | Shows_ATM int

record station =
  queLow :: nat
  queHigh :: nat
  carCompleted :: nat
  serving :: int
  ATMBUSY :: int
  ATM :: int
  mutex :: "nat option"
  mutexServe :: "nat option"
  cars :: "nat \<Rightarrow> cphase"
  attenders :: "nat \<Rightarrow> aphase"
  boss :: mphase
  printed :: "line list"

definition station_init :: station where
  "station_init = \<lparr>queLow = 0, queHigh = 0, carCompleted = 0, serving = 0, ATMBUSY = 0, ATM = 0, mutex = None,
     mutexServe = None, cars = (\<lambda>_. CNone), attenders = (\<lambda>_. AServe), boss = MLoop, printed = []\<rparr>"

definition at :: "nat \<Rightarrow> cphase \<Rightarrow> station \<Rightarrow> station" where
  "at k p s = s\<lparr>cars := (cars s)(k := p)\<rparr>"

definition att :: "nat \<Rightarrow> aphase \<Rightarrow> station \<Rightarrow> station" where
  "att a p s = s\<lparr>attenders := (attenders s)(a := p)\<rparr>"

definition prn :: "line \<Rightarrow> station \<Rightarrow> station" where
  "prn e s = s\<lparr>printed := printed s @ [e]\<rparr>"

section \<open>Steps\<close>

text \<open>\<open>enterStation\<close> for \<open>L\<close> cars, and the end of \<open>main\<close>; \<open>que\<close> and \<open>id\<close> have 100 entries.\<close>

definition has_room :: "station \<Rightarrow> bool" where
  "has_room s \<longleftrightarrow> int (queHigh s) - int (queLow s) < 4 \<and> int (queHigh s) - int (queLow s) \<ge> 0"

inductive boss_step :: "nat \<Rightarrow> station \<Rightarrow> station \<Rightarrow> bool" for L where
  create: "boss s = MLoop \<Longrightarrow> carCompleted s < L \<Longrightarrow> has_room s \<Longrightarrow> queHigh s < 100 \<Longrightarrow>
    boss_step L s (prn (Entering_que (queHigh s)) (at (queHigh s) CLock (s\<lparr>boss := MCount\<rparr>)))"
| overflow: "boss s = MLoop \<Longrightarrow> carCompleted s < L \<Longrightarrow> has_room s \<Longrightarrow> \<not> queHigh s < 100 \<Longrightarrow>
    boss_step L s (s\<lparr>boss := MUndef\<rparr>)"
| count: "boss s = MCount \<Longrightarrow> boss_step L s (s\<lparr>carCompleted := carCompleted s + 1, boss := MCount2\<rparr>)"
| count2: "boss s = MCount2 \<Longrightarrow> boss_step L s (s\<lparr>queHigh := queHigh s + 1, boss := MLoop\<rparr>)"
| full: "boss s = MLoop \<Longrightarrow> carCompleted s < L \<Longrightarrow> \<not> has_room s \<Longrightarrow>
    boss_step L s (prn Que_full (s\<lparr>boss := MUndef\<rparr>))"
| closed_wait: "boss s = MLoop \<Longrightarrow> \<not> carCompleted s < L \<Longrightarrow> queLow s \<noteq> queHigh s \<Longrightarrow> boss_step L s (s\<lparr>boss := MUndef\<rparr>)"
| closed: "boss s = MLoop \<Longrightarrow> \<not> carCompleted s < L \<Longrightarrow> queLow s = queHigh s \<Longrightarrow> boss_step L s (s\<lparr>boss := MJoin\<rparr>)"
| joined: "boss s = MJoin \<Longrightarrow> \<forall>i < queHigh s. cars s i = CDone \<Longrightarrow> boss_step L s (s\<lparr>boss := MDone\<rparr>)"

text \<open>\<open>car\<close>: \<open>waitInLine\<close>, \<open>goToPump\<close>, \<open>pay\<close>, \<open>exitStation\<close>. The variable \<open>carLength\<close> that \<open>exitStation\<close> compares with is
  the global one, which \<open>main\<close> hides with its own and nothing sets: it is 0.\<close>

inductive car_step :: "station \<Rightarrow> station \<Rightarrow> bool" where
  lock: "cars s k = CLock \<Longrightarrow> mutex s = None \<Longrightarrow> car_step s (at k CLine (s\<lparr>mutex := Some k\<rparr>))"
| line_wait: "cars s k = CLine \<Longrightarrow> k \<noteq> queLow s \<Longrightarrow> car_step s (at k CLineWait (s\<lparr>mutex := None\<rparr>))"
| line_wake: "cars s k = CLineWait \<Longrightarrow> mutex s = None \<Longrightarrow> car_step s (at k CLine (s\<lparr>mutex := Some k\<rparr>))"
| line_go: "cars s k = CLine \<Longrightarrow> k = queLow s \<Longrightarrow> car_step s (prn (Getting_Served k) (at k CPump s))"
| pump_wait: "cars s k = CPump \<Longrightarrow> serving s = 3 \<Longrightarrow> car_step s (at k CPumpWait (s\<lparr>mutex := None\<rparr>))"
| pump_wake: "cars s k = CPumpWait \<Longrightarrow> mutex s = None \<Longrightarrow> car_step s (at k CPump (s\<lparr>mutex := Some k\<rparr>))"
| pump_ok: "cars s k = CPump \<Longrightarrow> serving s \<noteq> 3 \<Longrightarrow> car_step s (at k CPumpOk s)"
| pump_read: "cars s k = CPumpOk \<Longrightarrow> car_step s (at k (CAdd (serving s)) s)"
| pump_write: "cars s k = CAdd v \<Longrightarrow> car_step s (at k CQue (s\<lparr>serving := v + 1\<rparr>))"
| leave_line: "cars s k = CQue \<Longrightarrow> car_step s (at k CPay (s\<lparr>queLow := queLow s + 1, mutex := None\<rparr>))"
| give_card: "cars s k = CPay \<Longrightarrow> ATMBUSY s = 0 \<Longrightarrow> car_step s (prn (Giving_card k) (at k CCard (s\<lparr>ATMBUSY := 1\<rparr>)))"
| give_wait: "cars s k = CPay \<Longrightarrow> ATMBUSY s \<noteq> 0 \<Longrightarrow> car_step s (prn (Giving_card k) (at k CAtm s))"
| take_card: "cars s k = CAtm \<Longrightarrow> ATMBUSY s = 0 \<Longrightarrow> car_step s (at k CCard (s\<lparr>ATMBUSY := 1\<rparr>))"
| paid: "cars s k = CCard \<Longrightarrow> ATMBUSY s = 2 \<Longrightarrow> car_step s (prn (Successful k) (at k CExit (s\<lparr>ATMBUSY := 0\<rparr>)))"
| exit: "cars s k = CExit \<Longrightarrow> car_step s (prn (Exiting k) (at k (if carCompleted s = 0 then CJoining else CDone) s))"

text \<open>\<open>attender\<close>: \<open>serveCar\<close> and \<open>acceptPayment\<close>, for ever.\<close>

inductive attender_step :: "station \<Rightarrow> station \<Rightarrow> bool" where
  idle: "attenders s a = AServe \<Longrightarrow> mutexServe s = None \<Longrightarrow> \<not> serving s > 0 \<Longrightarrow> attender_step s (att a AAccept s)"
| serve: "attenders s a = AServe \<Longrightarrow> mutexServe s = None \<Longrightarrow> serving s > 0 \<Longrightarrow>
    attender_step s (prn (Serving a) (att a AGot (s\<lparr>mutexServe := Some a\<rparr>)))"
| serve_read: "attenders s a = AGot \<Longrightarrow> attender_step s (att a (ARead (serving s)) s)"
| serve_write: "attenders s a = ARead v \<Longrightarrow> attender_step s (att a AAccept (s\<lparr>serving := v - 1, mutexServe := None\<rparr>))"
| accept: "attenders s a = AAccept \<Longrightarrow> ATMBUSY s = 1 \<Longrightarrow>
    attender_step s (prn (Shows_ATM (ATM s + 100)) (prn (Entering_card a) (att a AServe (s\<lparr>ATM := ATM s + 100, ATMBUSY := 2\<rparr>))))"

inductive station_reach :: "nat \<Rightarrow> station \<Rightarrow> bool" for L where
  start: "station_reach L station_init"
| by_boss: "station_reach L s \<Longrightarrow> boss_step L s t \<Longrightarrow> station_reach L t"
| by_car: "station_reach L s \<Longrightarrow> car_step s t \<Longrightarrow> station_reach L t"
| by_attender: "station_reach L s \<Longrightarrow> attender_step s t \<Longrightarrow> station_reach L t"

lemma updates [simp]:
  "cars (at k p s) = (cars s)(k := p)" "attenders (at k p s) = attenders s" "queLow (at k p s) = queLow s"
  "queHigh (at k p s) = queHigh s" "serving (at k p s) = serving s" "ATMBUSY (at k p s) = ATMBUSY s" "ATM (at k p s) = ATM s"
  "mutex (at k p s) = mutex s" "mutexServe (at k p s) = mutexServe s" "boss (at k p s) = boss s" "printed (at k p s) = printed s"
  "cars (att a q s) = cars s" "attenders (att a q s) = (attenders s)(a := q)" "queLow (att a q s) = queLow s"
  "queHigh (att a q s) = queHigh s" "serving (att a q s) = serving s" "ATMBUSY (att a q s) = ATMBUSY s" "ATM (att a q s) = ATM s"
  "mutex (att a q s) = mutex s" "mutexServe (att a q s) = mutexServe s" "boss (att a q s) = boss s" "printed (att a q s) = printed s"
  "cars (prn e s) = cars s" "attenders (prn e s) = attenders s" "queLow (prn e s) = queLow s"
  "queHigh (prn e s) = queHigh s" "serving (prn e s) = serving s" "ATMBUSY (prn e s) = ATMBUSY s" "ATM (prn e s) = ATM s"
  "mutex (prn e s) = mutex s" "mutexServe (prn e s) = mutexServe s" "boss (prn e s) = boss s" "printed (prn e s) = printed s @ [e]"
  by (simp_all add: at_def att_def prn_def)

section \<open>Invariants\<close>

text \<open>A property every step keeps holds in every state a run reaches.\<close>

interpretation station: step_system "\<lambda>s. s = station_init" "\<lambda>s t. boss_step L s t \<or> car_step s t \<or> attender_step s t"
    "station_reach L" for L
proof
  show "Q s" if "station_reach L s" "\<And>s. s = station_init \<Longrightarrow> Q s"
    "\<And>s t. boss_step L s t \<or> car_step s t \<or> attender_step s t \<Longrightarrow> Q s \<Longrightarrow> Q t" for s Q
    using that(1) by induction (use that(2-) in blast)+
qed (auto intro: station_reach.intros)

text \<open>The cars before, in and behind the pump, and the order of service.\<close>

fun in_line :: "cphase \<Rightarrow> bool" where
  "in_line CNone = True" | "in_line CLock = True" | "in_line CLine = True" | "in_line CLineWait = True" | "in_line _ = False"

fun pumping :: "cphase \<Rightarrow> bool" where
  "pumping CPump = True" | "pumping CPumpWait = True" | "pumping CPumpOk = True" | "pumping (CAdd v) = True"
| "pumping CQue = True" | "pumping _ = False"

definition served :: "line list \<Rightarrow> nat list" where
  "served ls = List.map_filter (\<lambda>l. case l of Getting_Served k \<Rightarrow> Some k | _ \<Rightarrow> None) ls"

definition payers :: "line list \<Rightarrow> nat list" where
  "payers ls = List.map_filter (\<lambda>l. case l of Successful k \<Rightarrow> Some k | _ \<Rightarrow> None) ls"

lemma served_simps [simp]:
  "served [] = []" "served (l # ls) = (case l of Getting_Served k \<Rightarrow> [k] | _ \<Rightarrow> []) @ served ls" "served (ls @ ms) = served ls @ served ms"
  and payers_simps [simp]:
  "payers [] = []" "payers (l # ls) = (case l of Successful k \<Rightarrow> [k] | _ \<Rightarrow> []) @ payers ls" "payers (ls @ ms) = payers ls @ payers ms"
  by (simp_all add: served_def payers_def map_filter_def split: line.splits)

definition queue_ok :: "station \<Rightarrow> bool" where
  "queue_ok s \<longleftrightarrow>
     (\<forall>k. if in_line (cars s k) then queLow s \<le> k else if pumping (cars s k) then k = queLow s else k < queLow s) \<and>
     (\<forall>k > queHigh s. cars s k = CNone) \<and> (boss s \<notin> {MCount, MCount2} \<longrightarrow> cars s (queHigh s) = CNone) \<and>
     served (printed s) = [0..<queLow s + (if pumping (cars s (queLow s)) then 1 else 0)]"

lemma boss_queue: "boss_step L s t \<Longrightarrow> queue_ok s \<Longrightarrow> queue_ok t"
  by (induction rule: boss_step.induct) (auto simp: queue_ok_def split: if_splits)

lemma pumping_not_in_line: "pumping p \<Longrightarrow> \<not> in_line p"
  by (cases p) auto

lemma queue_okD:
  assumes "queue_ok s"
  shows "in_line (cars s k) \<Longrightarrow> queLow s \<le> k" "pumping (cars s k) \<Longrightarrow> k = queLow s"
    "\<not> in_line (cars s k) \<Longrightarrow> \<not> pumping (cars s k) \<Longrightarrow> k < queLow s"
proof -
  have "if in_line (cars s k) then queLow s \<le> k else if pumping (cars s k) then k = queLow s else k < queLow s"
    using assms unfolding queue_ok_def by blast
  then show "in_line (cars s k) \<Longrightarrow> queLow s \<le> k" "pumping (cars s k) \<Longrightarrow> k = queLow s"
    "\<not> in_line (cars s k) \<Longrightarrow> \<not> pumping (cars s k) \<Longrightarrow> k < queLow s"
    using pumping_not_in_line by auto
qed

text \<open>The car at the pump leaves: the next in line is the first that is not behind it.\<close>

lemma leave_line_queue:
  assumes "queue_ok s" "cars s k = CQue"
  shows "queue_ok (at k CPay (s\<lparr>queLow := queLow s + 1, mutex := None\<rparr>))"
proof -
  note D = queue_okD [OF assms(1)]
  have k: "k = queLow s" using D(2) [of k] assms(2) by simp
  have other: "\<not> pumping (cars s j)" if "j \<noteq> k" for j using D(2) [of j] k that by auto
  have "if in_line (cars s j) then Suc (queLow s) \<le> j else if pumping (cars s j) then j = Suc (queLow s) else j < Suc (queLow s)"
    if "j \<noteq> k" for j using D(1,3) [of j] other [OF that] k that by auto
  moreover have "served (printed s) = [0..<Suc (queLow s)]" "\<forall>j > queHigh s. cars s j = CNone"
    "boss s \<notin> {MCount, MCount2} \<longrightarrow> cars s (queHigh s) = CNone"
    using assms k by (simp_all add: queue_ok_def)
  ultimately show ?thesis using k other [of "Suc k"] assms(2) unfolding queue_ok_def by auto
qed

lemma same_place:
  assumes "queue_ok s" "in_line p = in_line (cars s k)" "pumping p = pumping (cars s k)" "cars s k \<noteq> CNone"
    "cars t = (cars s)(k := p)" "queLow t = queLow s" "queHigh t = queHigh s" "boss t = boss s" "served (printed t) = served (printed s)"
  shows "queue_ok t"
proof -
  have c: "in_line (cars t j) = in_line (cars s j)" "pumping (cars t j) = pumping (cars s j)" "cars s j = CNone \<Longrightarrow> cars t j = CNone" for j
    using assms(2-5) by auto
  from assms(1) show ?thesis unfolding queue_ok_def assms(6-9) c(1,2) using c(3) by blast
qed

lemma line_go_queue:
  assumes "queue_ok s" "cars s k = CLine" "k = queLow s"
  shows "queue_ok (prn (Getting_Served k) (at k CPump s))"
proof -
  let ?c = "(cars s)(k := CPump)"
  have place: "if in_line (?c j) then queLow s \<le> j else if pumping (?c j) then j = queLow s else j < queLow s" for j
    using queue_okD [OF assms(1), of j] assms(3) by (cases "j = k") auto
  have rest: "\<forall>j > queHigh s. cars s j = CNone" "boss s \<notin> {MCount, MCount2} \<longrightarrow> cars s (queHigh s) = CNone"
    "served (printed s) = [0..<queLow s]"
    using assms by (simp_all add: queue_ok_def)
  have "cars s j = CNone \<Longrightarrow> ?c j = CNone" for j using assms(2) by auto
  with rest(1,2) have "\<forall>j > queHigh s. ?c j = CNone" "boss s \<notin> {MCount, MCount2} \<longrightarrow> ?c (queHigh s) = CNone"
    by blast+
  moreover have "served (printed s @ [Getting_Served k]) = [0..<queLow s + (if pumping (?c (queLow s)) then 1 else 0)]"
    using rest(3) assms(3) by simp
  ultimately show ?thesis unfolding queue_ok_def updates using place by blast
qed

lemma car_queue: "car_step s t \<Longrightarrow> queue_ok s \<Longrightarrow> queue_ok t"
proof (induction rule: car_step.induct)
  case (leave_line s k)
  then show ?case by (intro leave_line_queue)
next
  case (line_go s k)
  then show ?case by (intro line_go_queue)
qed (erule same_place; simp)+

lemma attender_queue: "attender_step s t \<Longrightarrow> queue_ok s \<Longrightarrow> queue_ok t"
  by (induction rule: attender_step.induct) (auto simp: queue_ok_def)

text \<open>The handshake at the ATM: a card is in it exactly while \<open>ATMBUSY\<close> is set, and each payment puts in 100.\<close>

definition with_card :: "(nat \<Rightarrow> cphase) \<Rightarrow> nat set" where
  "with_card c = {k. c k = CCard}"

lemma with_card_upd: "with_card (c(k := p)) = (if p = CCard then insert k (with_card c) else with_card c - {k})"
  by (auto simp: with_card_def)

definition atm_ok :: "station \<Rightarrow> bool" where
  "atm_ok s \<longleftrightarrow> ATMBUSY s \<in> {0, 1, 2} \<and>
     (if ATMBUSY s = 0 then with_card (cars s) = {} else \<exists>k. with_card (cars s) = {k}) \<and>
     ATM s = 100 * int (length (payers (printed s))) + (if ATMBUSY s = 2 then 100 else 0)"

lemma no_card [simp]: "c k \<noteq> CCard \<Longrightarrow> with_card c - {k} = with_card c"
  by (auto simp: with_card_def)

lemma boss_atm: "boss_step L s t \<Longrightarrow> queue_ok s \<Longrightarrow> atm_ok s \<Longrightarrow> atm_ok t"
  by (induction rule: boss_step.induct) (simp_all add: atm_ok_def queue_ok_def with_card_upd)

lemma attender_atm: "attender_step s t \<Longrightarrow> atm_ok s \<Longrightarrow> atm_ok t"
  by (induction rule: attender_step.induct) (auto simp: atm_ok_def)

lemma card_owner: "c k = CCard \<Longrightarrow> with_card c = {j} \<Longrightarrow> k = j"
  by (auto simp: with_card_def)

lemma car_atm: "car_step s t \<Longrightarrow> atm_ok s \<Longrightarrow> atm_ok t"
proof (induction rule: car_step.induct)
  case (paid s k)
  then show ?case by (auto simp: atm_ok_def with_card_upd dest: card_owner)
qed (simp_all add: atm_ok_def with_card_upd)

section \<open>The number being served\<close>

text \<open>The attender with \<open>mutexServe\<close>, and what a car and an attender know of \<open>serving\<close> in the middle of a change.\<close>

fun counting :: "aphase \<Rightarrow> bool" where
  "counting AGot = True" | "counting (ARead v) = True" | "counting _ = False"

definition serving_ok :: "station \<Rightarrow> bool" where
  "serving_ok s \<longleftrightarrow> 0 \<le> serving s \<and> serving s \<le> 3 \<and>
     (\<forall>a. counting (attenders s a) \<longrightarrow> mutexServe s = Some a) \<and>
     (\<forall>k. cars s k = CPumpOk \<longrightarrow> serving s \<le> 2) \<and> (\<forall>k v. cars s k = CAdd v \<longrightarrow> 0 \<le> v \<and> v \<le> 2) \<and>
     (\<forall>a. attenders s a = AGot \<longrightarrow> 1 \<le> serving s) \<and> (\<forall>a v. attenders s a = ARead v \<longrightarrow> 1 \<le> v \<and> v \<le> 3)"

lemma boss_serving: "boss_step L s t \<Longrightarrow> serving_ok s \<Longrightarrow> serving_ok t"
  by (induction rule: boss_step.induct) (auto simp: serving_ok_def)

lemma attender_serving: "attender_step s t \<Longrightarrow> serving_ok s \<Longrightarrow> serving_ok t"
proof (induction rule: attender_step.induct)
  case (serve_write s a v)
  then have "mutexServe s = Some a" unfolding serving_ok_def by (metis counting.simps(2))
  then have "b \<noteq> a \<Longrightarrow> \<not> counting (attenders s b)" for b
    using serve_write unfolding serving_ok_def by (metis option.inject)
  then have "b \<noteq> a \<Longrightarrow> attenders s b \<noteq> AGot" "b \<noteq> a \<Longrightarrow> \<not> counting (attenders s b)" for b
    by (metis counting.simps(1))+
  with serve_write show ?case by (fastforce simp: serving_ok_def)
qed (auto simp: serving_ok_def)

lemma car_serving: "car_step s t \<Longrightarrow> queue_ok s \<Longrightarrow> serving_ok s \<Longrightarrow> serving_ok t"
proof (induction rule: car_step.induct)
  case (pump_write s k v)
  have "cars s j \<noteq> CPumpOk" if "j \<noteq> k" for j
    using queue_okD(2) [OF pump_write.prems(1), of j] queue_okD(2) [OF pump_write.prems(1), of k] pump_write.hyps that by auto
  with pump_write show ?case by (fastforce simp: serving_ok_def)
qed (auto simp: serving_ok_def)

section \<open>Properties\<close>

definition station_ok :: "station \<Rightarrow> bool" where
  "station_ok s \<longleftrightarrow> queue_ok s \<and> atm_ok s \<and> serving_ok s"

lemma station_init_ok: "station_ok station_init"
  by (simp add: station_ok_def station_init_def queue_ok_def atm_ok_def with_card_def serving_ok_def)

lemma station_invariants: "station_reach L s \<Longrightarrow> station_ok s"
  by (erule station.reached_least, simp add: station_init_ok)
    (elim disjE; simp add: station_ok_def boss_queue car_queue attender_queue boss_atm car_atm attender_atm boss_serving car_serving attender_serving)

text \<open>C29. In every run of the fuel station the cars are served in the order in which they came, the ATM has taken 100
  for each successful payment and the one in progress, and never more than three cars count as being served.\<close>

theorem station_accounts:
  assumes "station_reach L s"
  shows "(\<exists>n. served (printed s) = [0..<n] \<and> n \<le> Suc (queLow s)) \<and>
    ATM s = 100 * (int (length (payers (printed s))) + (if ATMBUSY s = 2 then 1 else 0)) \<and> 0 \<le> serving s \<and> serving s \<le> 3"
proof -
  from station_invariants [OF assms] have q: "served (printed s) = [0..<queLow s + (if pumping (cars s (queLow s)) then 1 else 0)]"
    and "ATM s = 100 * int (length (payers (printed s))) + (if ATMBUSY s = 2 then 100 else 0)" "0 \<le> serving s \<and> serving s \<le> 3"
    by (simp_all only: station_ok_def queue_ok_def atm_ok_def serving_ok_def)
  then show ?thesis by (intro conjI exI [of _ "queLow s + (if pumping (cars s (queLow s)) then 1 else 0)"]) (auto simp del: upt_conv_Nil)
qed

section \<open>A lost update\<close>

text \<open>Two cars and one attender at work.\<close>

definition two_cars :: "nat \<Rightarrow> nat \<Rightarrow> nat \<Rightarrow> int \<Rightarrow> nat option \<Rightarrow> nat option \<Rightarrow> cphase \<Rightarrow> cphase \<Rightarrow> aphase \<Rightarrow> mphase \<Rightarrow> line list \<Rightarrow> station" where
  "two_cars ql qh n sv mx ms c0 c1 a b pr =
     \<lparr>queLow = ql, queHigh = qh, carCompleted = n, serving = sv, ATMBUSY = 0, ATM = 0, mutex = mx, mutexServe = ms,
      cars = (\<lambda>_. CNone)(0 := c0, Suc 0 := c1), attenders = (\<lambda>_. AServe)(0 := a), boss = b, printed = pr\<rparr>"

lemma two_cars_simps [simp]:
  "at 0 p (two_cars ql qh n sv mx ms c0 c1 a b pr) = two_cars ql qh n sv mx ms p c1 a b pr"
  "at (Suc 0) p (two_cars ql qh n sv mx ms c0 c1 a b pr) = two_cars ql qh n sv mx ms c0 p a b pr"
  "att 0 q (two_cars ql qh n sv mx ms c0 c1 a b pr) = two_cars ql qh n sv mx ms c0 c1 q b pr"
  "prn e (two_cars ql qh n sv mx ms c0 c1 a b pr) = two_cars ql qh n sv mx ms c0 c1 a b (pr @ [e])"
  "two_cars ql qh n sv mx ms c0 c1 a b pr\<lparr>boss := b'\<rparr> = two_cars ql qh n sv mx ms c0 c1 a b' pr"
  "two_cars ql qh n sv mx ms c0 c1 a b pr\<lparr>mutex := mx'\<rparr> = two_cars ql qh n sv mx' ms c0 c1 a b pr"
  "two_cars ql qh n sv mx ms c0 c1 a b pr\<lparr>mutexServe := ms'\<rparr> = two_cars ql qh n sv mx ms' c0 c1 a b pr"
  "two_cars ql qh n sv mx ms c0 c1 a b pr\<lparr>serving := sv'\<rparr> = two_cars ql qh n sv' mx ms c0 c1 a b pr"
  "two_cars ql qh n sv mx ms c0 c1 a b pr\<lparr>queLow := ql'\<rparr> = two_cars ql' qh n sv mx ms c0 c1 a b pr"
  "two_cars ql qh n sv mx ms c0 c1 a b pr\<lparr>queHigh := qh'\<rparr> = two_cars ql qh' n sv mx ms c0 c1 a b pr"
  "two_cars ql qh n sv mx ms c0 c1 a b pr\<lparr>carCompleted := n'\<rparr> = two_cars ql qh n' sv mx ms c0 c1 a b pr"
  by (simp_all add: two_cars_def at_def att_def prn_def fun_eq_iff)

lemma two_cars_sel [simp]:
  "queLow (two_cars ql qh n sv mx ms c0 c1 a b pr) = ql" "queHigh (two_cars ql qh n sv mx ms c0 c1 a b pr) = qh"
  "carCompleted (two_cars ql qh n sv mx ms c0 c1 a b pr) = n" "serving (two_cars ql qh n sv mx ms c0 c1 a b pr) = sv"
  "mutex (two_cars ql qh n sv mx ms c0 c1 a b pr) = mx" "mutexServe (two_cars ql qh n sv mx ms c0 c1 a b pr) = ms"
  "cars (two_cars ql qh n sv mx ms c0 c1 a b pr) 0 = c0" "cars (two_cars ql qh n sv mx ms c0 c1 a b pr) (Suc 0) = c1"
  "attenders (two_cars ql qh n sv mx ms c0 c1 a b pr) 0 = a" "boss (two_cars ql qh n sv mx ms c0 c1 a b pr) = b"
  "printed (two_cars ql qh n sv mx ms c0 c1 a b pr) = pr" "ATM (two_cars ql qh n sv mx ms c0 c1 a b pr) = 0"
  by (simp_all add: two_cars_def)

lemma two_cars_init: "station_init = two_cars 0 0 0 0 None None CNone CNone AServe MLoop []"
  by (simp add: station_init_def two_cars_def fun_eq_iff)

text \<open>Both cars have left the pump and one was served, yet two still count as being served: the attender read
  \<open>serving\<close> before the second car raised it from the old value.\<close>

lemma lost_service:
  "\<exists>s. station_reach 2 s \<and> mutex s = None \<and> mutexServe s = None \<and> queLow s = 2 \<and> serving s = 2 \<and> served (printed s) = [0, 1] \<and>
     Serving 0 \<in> set (printed s)"
proof -
  have "station_reach 2 (two_cars 0 1 1 0 None None CLock CNone AServe MLoop [Entering_que 0])"
    using by_boss [OF by_boss [OF by_boss [OF start create] count] count2, of 2] by (simp add: two_cars_init has_room_def)
  from by_car [OF by_car [OF this car_step.lock [of _ 0]] line_go [of _ 0]]
  have "station_reach 2 (two_cars 0 1 1 0 (Some 0) None CPump CNone AServe MLoop [Entering_que 0, Getting_Served 0])" by simp
  from by_car [OF by_car [OF by_car [OF this pump_ok [of _ 0]] pump_read [of _ 0]] pump_write [of _ 0 0]]
  have "station_reach 2 (two_cars 0 1 1 1 (Some 0) None CQue CNone AServe MLoop [Entering_que 0, Getting_Served 0])" by simp
  from by_car [OF this leave_line [of _ 0]]
  have "station_reach 2 (two_cars 1 1 1 1 None None CPay CNone AServe MLoop [Entering_que 0, Getting_Served 0])" by simp
  from by_boss [OF by_boss [OF by_boss [OF this create] count] count2]
  have "station_reach 2 (two_cars 1 2 2 1 None None CPay CLock AServe MLoop [Entering_que 0, Getting_Served 0, Entering_que 1])" by (simp add: has_room_def numeral_2_eq_2)
  from by_car [OF by_car [OF by_car [OF this car_step.lock [of _ 1]] line_go [of _ 1]] pump_ok [of _ 1]]
  have "station_reach 2 (two_cars 1 2 2 1 (Some 1) None CPay CPumpOk AServe MLoop [Entering_que 0, Getting_Served 0, Entering_que 1, Getting_Served 1])" by simp
  from by_attender [OF by_attender [OF this serve [of _ 0]] serve_read [of _ 0]]
  have "station_reach 2 (two_cars 1 2 2 1 (Some 1) (Some 0) CPay CPumpOk (ARead 1) MLoop
    [Entering_que 0, Getting_Served 0, Entering_que 1, Getting_Served 1, Serving 0])" by simp
  from by_car [OF by_attender [OF by_car [OF this pump_read [of _ 1]] serve_write [of _ 0 1]] pump_write [of _ 1 1]]
  have "station_reach 2 (two_cars 1 2 2 2 (Some 1) None CPay CQue AAccept MLoop [Entering_que 0, Getting_Served 0, Entering_que 1, Getting_Served 1, Serving 0])" by simp
  from by_car [OF this leave_line [of _ 1]]
  have r: "station_reach 2 (two_cars 2 2 2 2 None None CPay CPay AAccept MLoop [Entering_que 0, Getting_Served 0, Entering_que 1, Getting_Served 1, Serving 0])"
    by (simp add: numeral_2_eq_2)
  moreover have "served [Entering_que 0, Getting_Served 0, Entering_que 1, Getting_Served 1, Serving 0] = [0, 1]" by (simp add: served_def map_filter_simps)
  ultimately show ?thesis by (intro exI conjI) auto
qed

theorem station_accounts_witness:
  "\<exists>s. station_reach 2 s \<and> served (printed s) = [0, 1] \<and> serving s = 2 \<and> serving s \<le> 3"
  using lost_service station_accounts by blast

end
