(* ===== verification/ShBase.thy ===== *)
theory ShBase
  imports Prelude
begin

text \<open>
  \<open>wonderShell.c\<close>, part 1: the state of the shell and the system it runs on. The shell's effects are the
  system calls and library output calls it makes, kept in order in the field \<open>calls\<close>; the system is the
  parameter \<open>os\<close>, which answers each call as a function of all calls made so far. A run describes one
  process: the answer of \<open>fork\<close> says whether it goes on as the parent or as the child. Every \<open>printf\<close> is
  taken to write at once.
\<close>

section \<open>Calls\<close>

datatype call =
    Print string | Eprint string | Perror string
  | Getpid | Fork | Execvp string "string list" | Waitpid int int | Kill int int | Signal int string
  | Setenv string string | Unsetenv string | Chdir string | Getcwd | Gethostname | Geteuid | Getpwuid int
  | Openf string string | Dup int | Dup2 int int | Closefd int | Freopen string string | Mkpipe
  | Fopen string | Fclose | Readlink string | Opendir string | Readdir | Closedir | Statf string
  | Time | Localtime int string | Getline

record statbuf =
  sb_mode :: nat
  sb_nlink :: int
  sb_uid :: int
  sb_gid :: int
  sb_length :: int
  sb_mtime :: int
  sb_blocks :: int

text \<open>The answers: the value returned, a second value (the status of \<open>waitpid\<close>, the other end of a pipe,
  whether a signal came in meanwhile), a string or null, and the buffer of \<open>stat\<close>; \<open>junk\<close> is the value of an
  integer that the code leaves unset. The field \<open>rounds\<close> bounds the loops that wait for the system.\<close>

record os =
  ret :: "call list \<Rightarrow> int"
  aux :: "call list \<Rightarrow> int"
  txt_of :: "call list \<Rightarrow> string option"
  stat_of :: "call list \<Rightarrow> statbuf"
  junk :: "call list \<Rightarrow> int"
  rounds :: nat

section \<open>The state\<close>

text \<open>An entry of an argument array: a null pointer, a string, or not initialised; the list has the capacity of
  the array. The status of a job is \<open>None\<close> when the code left the pointer uninitialised.\<close>

datatype cell = Null | Str string | Junk

type_synonym argv = "cell list"

record job =
  jobName :: string
  pid :: int
  status :: "string option"

record sh =
  calls :: "call list"
  ThisJobs :: "job list"
  currentWD :: string
  deviceName :: string
  userName :: string
  childpid :: int
  childProcName :: cell
  currentProcessName :: cell
  Childpid :: int
  timSt :: int
  waitFor :: int
  msg :: string
  timeVLD :: int
  loopflg :: int
  foreground :: int
  shell_pid :: int

section \<open>Operations\<close>

text \<open>Why a process stops: a read through a null or uninitialised pointer or past a buffer, \<open>exit\<close>, an
  \<open>execvp\<close> that replaced it, or a loop that went on for longer than \<open>rounds\<close>.\<close>

datatype halt = Undef | Exits int | Replaced | Still_waiting

type_synonym 'a shm = "os \<Rightarrow> sh \<Rightarrow> (halt + 'a) \<times> sh"

definition shret :: "'a \<Rightarrow> 'a shm" where
  "shret x E s = (Inr x, s)"

definition halts :: "halt \<Rightarrow> 'a shm" where
  "halts h E s = (Inl h, s)"

definition shbind :: "'a shm \<Rightarrow> ('a \<Rightarrow> 'b shm) \<Rightarrow> 'b shm" where
  "shbind m f E s = (case m E s of (Inl h, t) \<Rightarrow> (Inl h, t) | (Inr x, t) \<Rightarrow> f x E t)"

definition look :: "(sh \<Rightarrow> 'a) \<Rightarrow> 'a shm" where
  "look f E s = (Inr (f s), s)"

definition change :: "(sh \<Rightarrow> sh) \<Rightarrow> unit shm" where
  "change f E s = (Inr (), f s)"

fun shdo :: "unit shm list \<Rightarrow> unit shm" where
  "shdo [] = shret ()"
| "shdo (m # ms) = shbind m (\<lambda>_. shdo ms)"

definition some_or_undef :: "'a option \<Rightarrow> 'a shm" where
  "some_or_undef z = (case z of None \<Rightarrow> halts Undef | Some x \<Rightarrow> shret x)"

lemma sh_simps [simp]:
  "shret x E s = (Inr x, s)"
  "halts h E s = (Inl h, s)"
  "look f E s = (Inr (f s), s)"
  "change f' E s = (Inr (), f' s)"
  by (simp_all add: shret_def halts_def look_def change_def)

lemma shbind_Inl [simp]: "m E s = (Inl h, t) \<Longrightarrow> shbind m f E s = (Inl h, t)"
  and shbind_Inr [simp]: "m E s = (Inr x, t) \<Longrightarrow> shbind m f E s = f x E t"
  by (simp_all add: shbind_def)

lemma shbind_assoc: "shbind (shbind m f) g = shbind m (\<lambda>x. shbind (f x) g)"
  by (intro ext) (auto simp: shbind_def split: prod.splits sum.splits)

lemma shbind_shret [simp]: "shbind (shret x) f = f x" "shbind m shret = m"
  by (intro ext, auto simp: shbind_def split: prod.splits sum.splits)+

lemma some_or_undef_simps [simp]:
  "some_or_undef None = halts Undef" "some_or_undef (Some x) = shret x"
  by (simp_all add: some_or_undef_def)

lemma shbind_cong [fundef_cong]:
  "m E s = m' E' s' \<Longrightarrow> (\<And>x t. m' E' s' = (Inr x, t) \<Longrightarrow> f x E t = f' x E' t) \<Longrightarrow> E = E' \<Longrightarrow> s = s' \<Longrightarrow>
   shbind m f E s = shbind m' f' E' s'"
  by (auto simp: shbind_def split: sum.splits prod.splits)

text \<open>Making a call: it is recorded, and the system answers.\<close>

definition sysc :: "call \<Rightarrow> int shm" where
  "sysc c E s = (let cs = calls s @ [c] in (Inr (ret E cs), s\<lparr>calls := cs\<rparr>))"

definition sys2 :: "call \<Rightarrow> (int \<times> int) shm" where
  "sys2 c E s = (let cs = calls s @ [c] in (Inr (ret E cs, aux E cs), s\<lparr>calls := cs\<rparr>))"

definition syst :: "call \<Rightarrow> string option shm" where
  "syst c E s = (let cs = calls s @ [c] in (Inr (txt_of E cs), s\<lparr>calls := cs\<rparr>))"

definition syst_stat :: "call \<Rightarrow> (int \<times> statbuf) shm" where
  "syst_stat c E s = (let cs = calls s @ [c] in (Inr (ret E cs, stat_of E cs), s\<lparr>calls := cs\<rparr>))"

definition unset_int :: "int shm" where
  "unset_int E s = (Inr (junk E (calls s)), s)"

definition does :: "call \<Rightarrow> unit shm" where
  "does c E s = (Inr (), s\<lparr>calls := calls s @ [c]\<rparr>)"

abbreviation say :: "string \<Rightarrow> unit shm" where
  "say x \<equiv> does (Print x)"

lemma sys_simps [simp]:
  "sysc c E s = (Inr (ret E (calls s @ [c])), s\<lparr>calls := calls s @ [c]\<rparr>)"
  "sys2 c E s = (Inr (ret E (calls s @ [c]), aux E (calls s @ [c])), s\<lparr>calls := calls s @ [c]\<rparr>)"
  "syst c E s = (Inr (txt_of E (calls s @ [c])), s\<lparr>calls := calls s @ [c]\<rparr>)"
  "syst_stat c E s = (Inr (ret E (calls s @ [c]), stat_of E (calls s @ [c])), s\<lparr>calls := calls s @ [c]\<rparr>)"
  "unset_int E s = (Inr (junk E (calls s)), s)"
  "does c E s = (Inr (), s\<lparr>calls := calls s @ [c]\<rparr>)"
  by (simp_all add: sysc_def sys2_def syst_def syst_stat_def unset_int_def does_def Let_def)

section \<open>Argument arrays\<close>

definition cellAt :: "argv \<Rightarrow> nat \<Rightarrow> cell shm" where
  "cellAt ws i = (if i < length ws \<and> ws ! i \<noteq> Junk then shret (ws ! i) else halts Undef)"

definition argAt :: "argv \<Rightarrow> nat \<Rightarrow> string shm" where
  "argAt ws i = shbind (cellAt ws i) (\<lambda>c. case c of Str w \<Rightarrow> shret w | _ \<Rightarrow> halts Undef)"

lemma cellAt_simp [simp]: "i < length ws \<Longrightarrow> ws ! i \<noteq> Junk \<Longrightarrow> cellAt ws i = shret (ws ! i)"
  by (simp add: cellAt_def)

lemma argAt_Str [simp]: "i < length ws \<Longrightarrow> ws ! i = Str w \<Longrightarrow> argAt ws i = shret w"
  and argAt_Null [simp]: "i < length ws \<Longrightarrow> ws ! i = Null \<Longrightarrow> argAt ws i = halts Undef"
  by (intro ext, simp add: argAt_def)+

lemma argAt_Junk [simp]: "i < length ws \<Longrightarrow> ws ! i = Junk \<Longrightarrow> argAt ws i = halts Undef"
  by (intro ext) (simp add: argAt_def cellAt_def)

text \<open>\<open>line[n] = NULL\<close>, and the strings an \<open>execvp\<close> gets: those before the first null.\<close>

definition put_null :: "argv \<Rightarrow> nat \<Rightarrow> argv shm" where
  "put_null ws n = (if n < length ws then shret (ws[n := Null]) else halts Undef)"

fun exec_args :: "argv \<Rightarrow> string list shm" where
  "exec_args [] = halts Undef"
| "exec_args (Null # ws) = shret []"
| "exec_args (Junk # ws) = halts Undef"
| "exec_args (Str w # ws) = shbind (exec_args ws) (\<lambda>r. shret (w # r))"

section \<open>Numbers as text\<close>

fun decimal :: "nat \<Rightarrow> string" where
  "decimal n = (if n < 10 then [char_of (48 + n)] else decimal (n div 10) @ [char_of (48 + n mod 10)])"

declare decimal.simps [simp del]

definition show_int :: "int \<Rightarrow> string" where
  "show_int i = (if i < 0 then CHR ''-'' # decimal (nat (- i)) else decimal (nat i))"

definition is_digit :: "char \<Rightarrow> bool" where
  "is_digit c \<longleftrightarrow> 48 \<le> (of_char c :: nat) \<and> (of_char c :: nat) \<le> 57"

definition is_blank :: "char \<Rightarrow> bool" where
  "is_blank c \<longleftrightarrow> (of_char c :: nat) = 32 \<or> 9 \<le> (of_char c :: nat) \<and> (of_char c :: nat) \<le> 13"

text \<open>\<open>strtol(s, &ptr, 10)\<close>: blanks, a sign, digits, clipped to 64 bits; the callers keep the low 32 bits.\<close>

definition digits_value :: "string \<Rightarrow> nat" where
  "digits_value s = foldl (\<lambda>n c. 10 * n + (of_char c - 48)) 0 (takeWhile is_digit s)"

definition strtol :: "string \<Rightarrow> int" where
  "strtol s =
     (let r = dropWhile is_blank s;
          v = (case r of
                 [] \<Rightarrow> 0
               | c # cs \<Rightarrow> if c = CHR ''-'' then - int (digits_value cs)
                           else if c = CHR ''+'' then int (digits_value cs) else int (digits_value r))
      in max (- (2 ^ 63)) (min (2 ^ 63 - 1) v))"

text \<open>\<open>fscanf(fp, "%d %*s %c", &proc, &stat)\<close>: the character after a number and a word, when there is one.\<close>

definition scan_stat :: "string \<Rightarrow> char option" where
  "scan_stat s =
     (let r = dropWhile is_blank s;
          n = (case r of c # cs \<Rightarrow> if c = CHR ''-'' \<or> c = CHR ''+'' then cs else r | [] \<Rightarrow> []);
          w = dropWhile is_blank (dropWhile is_digit n)
      in if n = [] \<or> \<not> is_digit (hd n) \<or> w = [] then None
         else case dropWhile is_blank (dropWhile (\<lambda>c. \<not> is_blank c) w) of [] \<Rightarrow> None | c # _ \<Rightarrow> Some c)"

end
