(* ===== verification/ShText.thy ===== *)
theory ShText
  imports ShBase
begin

text \<open>
  \<open>wonderShell.c\<close>, part 2: the functions on strings. \<open>replaceWord\<close> replaces a word in a string it copies to
  fresh memory, \<open>replaceAll\<close> a character in place; \<open>tokens\<close> is the loop over \<open>strtok_r\<close> with which the
  shell takes a line apart.
\<close>

section \<open>Replacing a word\<close>

text \<open>The test \<open>strstr(s, oldW) == s\<close>.\<close>

definition starts_with :: "string \<Rightarrow> string \<Rightarrow> bool" where
  "starts_with w s \<longleftrightarrow> take (length w) s = w"

text \<open>The counting loop with \<open>i\<close> and \<open>cnt\<close>, and the building loop. Both go on for ever on an empty word.\<close>

fun count_words :: "nat \<Rightarrow> string \<Rightarrow> string \<Rightarrow> nat \<Rightarrow> nat \<Rightarrow> (nat \<times> nat) option" where
  "count_words fuel oldW [] i cnt = Some (i, cnt)"
| "count_words 0 oldW (c # cs) i cnt = None"
| "count_words (Suc fuel) oldW (c # cs) i cnt =
     (if starts_with oldW (c # cs)
      then count_words fuel oldW (drop (length oldW) (c # cs)) (i + length oldW) (Suc cnt)
      else count_words fuel oldW cs (Suc i) cnt)"

fun build_words :: "nat \<Rightarrow> string \<Rightarrow> string \<Rightarrow> string \<Rightarrow> string option" where
  "build_words fuel oldW newW [] = Some []"
| "build_words 0 oldW newW (c # cs) = None"
| "build_words (Suc fuel) oldW newW (c # cs) =
     (if starts_with oldW (c # cs)
      then map_option (\<lambda>r. newW @ r) (build_words fuel oldW newW (drop (length oldW) (c # cs)))
      else map_option (\<lambda>r. c # r) (build_words fuel oldW newW cs))"

text \<open>\<open>None\<close> when a loop does not end or the result and its NUL do not fit the memory that was asked for.\<close>

definition replaceWord :: "string \<Rightarrow> string \<Rightarrow> string \<Rightarrow> string option" where
  "replaceWord s oldW newW =
     (case count_words (length s) oldW s 0 0 of
        None \<Rightarrow> None
      | Some (i, cnt) \<Rightarrow>
          (let room = int i + int cnt * (int (length newW) - int (length oldW)) + 1
           in case build_words (length s) oldW newW s of
                None \<Rightarrow> None
              | Some r \<Rightarrow> if int (length r) + 1 \<le> room then Some r else None))"

definition replaceAll :: "string \<Rightarrow> char \<Rightarrow> char \<Rightarrow> string" where
  "replaceAll str oldChar newChar = map (\<lambda>c. if c = oldChar then newChar else c) str"

section \<open>Tokens\<close>

definition strtok_r :: "char list \<Rightarrow> string \<Rightarrow> (string \<times> string) option" where
  "strtok_r ds s =
     (let r = dropWhile (\<lambda>c. c \<in> set ds) s
      in if r = [] then None
         else Some (takeWhile (\<lambda>c. c \<notin> set ds) r, tl (dropWhile (\<lambda>c. c \<notin> set ds) r)))"

lemma strtok_shorter: "strtok_r ds s = Some (t, r) \<Longrightarrow> length r < length s"
proof -
  assume "strtok_r ds s = Some (t, r)"
  then have d: "dropWhile (\<lambda>c. c \<in> set ds) s \<noteq> []"
    and r: "r = tl (dropWhile (\<lambda>c. c \<notin> set ds) (dropWhile (\<lambda>c. c \<in> set ds) s))"
    by (auto simp: strtok_r_def Let_def split: if_splits)
  have "length (dropWhile (\<lambda>c. c \<notin> set ds) (dropWhile (\<lambda>c. c \<in> set ds) s)) \<le> length s"
    by (meson length_dropWhile_le le_trans)
  moreover have "0 < length s" using d by auto
  ultimately show ?thesis unfolding r length_tl by linarith
qed

function tokens :: "char list \<Rightarrow> string \<Rightarrow> string list" where
  "tokens ds s = (case strtok_r ds s of None \<Rightarrow> [] | Some (t, r) \<Rightarrow> t # tokens ds r)"
  by pat_completeness auto
termination
  by (relation "measure (\<lambda>(ds, s). length s)") (auto dest: strtok_shorter)

declare tokens.simps [simp del]

section \<open>Pieces\<close>

text \<open>A string as pieces with a separator between them.\<close>

fun join :: "string \<Rightarrow> string list \<Rightarrow> string" where
  "join sep [] = []"
| "join sep [p] = p"
| "join sep (p # q # ps) = p @ sep @ join sep (q # ps)"

lemma join_Cons: "ps \<noteq> [] \<Longrightarrow> join sep (p # ps) = p @ sep @ join sep ps"
  by (cases ps) simp_all

text \<open>The pieces of a string left of, between and right of the occurrences of a word, taken from the left: no
  earlier place of a piece starts an occurrence.\<close>

fun leftmost :: "string \<Rightarrow> string list \<Rightarrow> bool" where
  "leftmost w [] = False"
| "leftmost w [p] = (\<forall>k < length p. \<not> starts_with w (drop k p))"
| "leftmost w (p # q # ps) = ((\<forall>k < length p. \<not> starts_with w (drop k (p @ w))) \<and> leftmost w (q # ps))"

lemma length_join: "ps \<noteq> [] \<Longrightarrow> length (join sep ps) = sum_list (map length ps) + (length ps - 1) * length sep"
  by (induction ps rule: induct_list012) auto

lemma starts_with_append: "length w \<le> length p \<Longrightarrow> starts_with w (p @ q) = starts_with w p"
  by (simp add: starts_with_def)

lemma starts_with_split: "starts_with w s \<Longrightarrow> s = w @ drop (length w) s"
  by (metis append_take_drop_id starts_with_def)

lemma leftmost_match: "leftmost w ps \<Longrightarrow> leftmost w ([] # ps)"
  by (cases ps) simp_all

lemma leftmost_push:
  assumes "leftmost w (p # ps)" "\<not> starts_with w (c # join w (p # ps))"
  shows "leftmost w ((c # p) # ps)"
proof (cases ps)
  case Nil
  with assms show ?thesis by (simp add: All_less_Suc2)
next
  case (Cons q qs)
  have "\<not> starts_with w (c # p @ w)"
    using assms(2) starts_with_append [of w "c # p @ w" "join w (q # qs)"] Cons by simp
  with assms(1) Cons show ?thesis by (simp add: All_less_Suc2)
qed

lemma words_loops:
  assumes "oldW \<noteq> []"
  shows "length s \<le> fuel \<Longrightarrow>
    \<exists>p ps. s = join oldW (p # ps) \<and> leftmost oldW (p # ps) \<and>
      count_words fuel oldW s i cnt = Some (i + length s, cnt + length ps) \<and>
      build_words fuel oldW newW s = Some (join newW (p # ps))"
proof (induction fuel arbitrary: s i cnt)
  case 0
  then show ?case by (intro exI [of _ "[]"]) simp
next
  case (Suc fuel)
  show ?case
  proof (cases s)
    case Nil
    then show ?thesis by (intro exI [of _ "[]"]) simp
  next
    case (Cons c cs)
    show ?thesis
    proof (cases "starts_with oldW s")
      case True
      let ?r = "drop (length oldW) s"
      from starts_with_split [OF True] have s: "s = oldW @ ?r" .
      have "length oldW \<le> length s" using s by (metis le_add1 length_append)
      moreover have "0 < length oldW" using assms by simp
      ultimately have le: "length ?r \<le> fuel" "length s = length oldW + length ?r"
        using Suc.prems unfolding length_drop by linarith+
      from Suc.IH [OF le(1), of "i + length oldW" "Suc cnt"] obtain p ps where IH:
        "?r = join oldW (p # ps)" "leftmost oldW (p # ps)"
        "count_words fuel oldW ?r (i + length oldW) (Suc cnt) = Some (i + length oldW + length ?r, Suc cnt + length ps)"
        "build_words fuel oldW newW ?r = Some (join newW (p # ps))" by blast
      show ?thesis
      proof (intro exI conjI)
        show "s = join oldW ([] # p # ps)" by (metis s IH(1) join.simps(3) append_Nil)
        show "leftmost oldW ([] # p # ps)" using IH(2) by simp
        show "count_words (Suc fuel) oldW s i cnt = Some (i + length s, cnt + length (p # ps))"
          using True IH(3) le(2) Cons by simp
        show "build_words (Suc fuel) oldW newW s = Some (join newW ([] # p # ps))"
          using True IH(4) Cons by simp
      qed
    next
      case False
      from Suc.prems Cons have "length cs \<le> fuel" by simp
      from Suc.IH [OF this, of "Suc i" cnt] obtain p ps where IH:
        "cs = join oldW (p # ps)" "leftmost oldW (p # ps)"
        "count_words fuel oldW cs (Suc i) cnt = Some (Suc i + length cs, cnt + length ps)"
        "build_words fuel oldW newW cs = Some (join newW (p # ps))" by blast
      have j: "join w ((c # p) # ps) = c # join w (p # ps)" for w by (cases ps) simp_all
      show ?thesis
      proof (intro exI conjI)
        show "s = join oldW ((c # p) # ps)" using Cons IH(1) j by simp
        show "leftmost oldW ((c # p) # ps)" using leftmost_push IH(1,2) False Cons by simp
        show "count_words (Suc fuel) oldW s i cnt = Some (i + length s, cnt + length ps)"
          using False IH(3) Cons by simp
        show "build_words (Suc fuel) oldW newW s = Some (join newW ((c # p) # ps))"
          using False IH(4) Cons j by simp
      qed
    qed
  qed
qed

text \<open>C36. For a word that is not empty, \<open>replaceWord\<close> returns the string with every occurrence, taken from the
  left, replaced; both loops end and the memory it asks for is exactly what the result needs.\<close>

theorem replaceWord_spec:
  assumes "oldW \<noteq> []"
  shows "\<exists>p ps. s = join oldW (p # ps) \<and> leftmost oldW (p # ps) \<and> replaceWord s oldW newW = Some (join newW (p # ps)) \<and>
    count_words (length s) oldW s 0 0 = Some (length s, length ps) \<and>
    int (length s) + int (length ps) * (int (length newW) - int (length oldW)) = int (length (join newW (p # ps)))"
proof -
  from words_loops [OF assms order_refl, of s 0 0 newW] obtain p ps where *:
    "s = join oldW (p # ps)" "leftmost oldW (p # ps)"
    "count_words (length s) oldW s 0 0 = Some (length s, length ps)"
    "build_words (length s) oldW newW s = Some (join newW (p # ps))" by auto
  have len: "int (length s) + int (length ps) * (int (length newW) - int (length oldW)) = int (length (join newW (p # ps)))"
    by (subst *(1)) (simp add: length_join algebra_simps)
  with * show ?thesis
    by (intro exI [of _ p] exI [of _ ps]) (simp add: replaceWord_def Let_def)
qed

theorem replaceWord_spec_witness:
  "\<exists>p ps. ''~/a~'' = join ''~'' (p # ps) \<and> leftmost ''~'' (p # ps) \<and>
    replaceWord ''~/a~'' ''~'' ''/home'' = Some (join ''/home'' (p # ps)) \<and> join ''/home'' (p # ps) = ''/home/a/home''"
proof -
  have "replaceWord ''~/a~'' ''~'' ''/home'' = Some ''/home/a/home''" by code_simp
  with replaceWord_spec [of "''~''" "''~/a~''" "''/home''", simplified] show ?thesis
    by (metis option.inject)
qed

section \<open>Taking a line apart\<close>

lemma strtok_token:
  assumes "set t \<inter> set ds = {}" "t \<noteq> []" "d \<in> set ds"
  shows "strtok_r ds (t @ d # r) = Some (t, r)"
proof -
  from assms have "dropWhile (\<lambda>c. c \<in> set ds) (t @ d # r) = t @ d # r"
    by (cases t) auto
  moreover from assms have "takeWhile (\<lambda>c. c \<notin> set ds) (t @ d # r) = t"
    "dropWhile (\<lambda>c. c \<notin> set ds) (t @ d # r) = d # r"
    by (auto simp: takeWhile_append dropWhile_append)
  ultimately show ?thesis by (simp add: strtok_r_def)
qed

lemma strtok_skip: "d \<in> set ds \<Longrightarrow> strtok_r ds (d # r) = strtok_r ds r"
  by (simp add: strtok_r_def)

lemma tokens_Nil [simp]: "tokens ds [] = []"
  by (simp add: tokens.simps strtok_r_def)

lemma tokens_skip: "d \<in> set ds \<Longrightarrow> tokens ds (d # r) = tokens ds r"
  by (subst (1 2) tokens.simps) (simp add: strtok_skip)

lemma tokens_token:
  "set t \<inter> set ds = {} \<Longrightarrow> t \<noteq> [] \<Longrightarrow> d \<in> set ds \<Longrightarrow> tokens ds (t @ d # r) = t # tokens ds r"
  by (subst tokens.simps) (simp add: strtok_token)

lemma tokens_last: "set t \<inter> set ds = {} \<Longrightarrow> t \<noteq> [] \<Longrightarrow> tokens ds t = [t]"
proof -
  assume t: "set t \<inter> set ds = {}" "t \<noteq> []"
  then have "dropWhile (\<lambda>c. c \<in> set ds) t = t" "takeWhile (\<lambda>c. c \<notin> set ds) t = t" "dropWhile (\<lambda>c. c \<notin> set ds) t = []"
    by (cases t; auto)+
  with t show ?thesis by (simp add: tokens.simps [of ds t] strtok_r_def del: dropWhile_eq_Nil_conv)
qed

text \<open>The reference: the tokens are the parts between delimiters that are not empty.\<close>

fun parts :: "char list \<Rightarrow> string \<Rightarrow> string list" where
  "parts ds [] = [[]]"
| "parts ds (c # cs) = (if c \<in> set ds then [] # parts ds cs else (c # hd (parts ds cs)) # tl (parts ds cs))"

lemma parts_not_Nil [simp]: "parts ds s \<noteq> []"
  by (induction s) simp_all

lemma parts_append: "set t \<inter> set ds = {} \<Longrightarrow> parts ds (t @ s) = (t @ hd (parts ds s)) # tl (parts ds s)"
  by (induction t) auto

lemma tokens_parts: "tokens ds s = filter (\<lambda>p. p \<noteq> []) (parts ds s)"
proof (induction "length s" arbitrary: s rule: less_induct)
  case less
  show ?case
  proof (cases s)
    case (Cons c cs)
    show ?thesis
    proof (cases "c \<in> set ds")
      case True
      with less Cons show ?thesis by (simp add: tokens_skip)
    next
      case False
      define t r where "t = takeWhile (\<lambda>c. c \<notin> set ds) s" and "r = dropWhile (\<lambda>c. c \<notin> set ds) s"
      have s: "s = t @ r" by (simp add: t_def r_def)
      have t: "set t \<inter> set ds = {}" by (auto simp: t_def dest: set_takeWhileD)
      have tn: "t \<noteq> []" using False Cons by (simp add: t_def)
      show ?thesis
      proof (cases r)
        case Nil
        with s t tn parts_append [OF t, of "[]"] show ?thesis by (simp add: tokens_last)
      next
        case (Cons d u)
        then have d: "d \<in> set ds" using hd_dropWhile [of "\<lambda>c. c \<notin> set ds" s] by (auto simp: r_def)
        have "length u < length s" using s Cons by simp
        from less [OF this] parts_append [OF t, of r] d tn t Cons s show ?thesis
          by (simp add: tokens_token)
      qed
    qed
  qed simp
qed


lemma parts_snoc: "d \<in> set ds \<Longrightarrow> parts ds (s @ [d]) = parts ds s @ [[]]"
  by (induction s) simp_all

lemma tokens_snoc: "d \<in> set ds \<Longrightarrow> tokens ds (s @ [d]) = tokens ds s"
  by (simp add: tokens_parts parts_snoc)

lemma parts_none: "set t \<inter> set ds = {} \<Longrightarrow> parts ds t = [t]"
  using parts_append [of t ds "[]"] by simp

lemma parts_join:
  "ps \<noteq> [] \<Longrightarrow> d \<in> set ds \<Longrightarrow> (\<And>p. p \<in> set ps \<Longrightarrow> set p \<inter> set ds = {}) \<Longrightarrow> parts ds (join [d] ps) = ps"
proof (induction ps rule: induct_list012)
  case (2 p)
  from "2.prems"(3) [of p] parts_none [of p ds] show ?case by simp
next
  case (3 p q ps)
  have "parts ds (join [d] (q # ps)) = q # ps" using 3 by simp
  with "3.prems"(2) "3.prems"(3) [of p] parts_append [of p ds "d # join [d] (q # ps)"] show ?case by simp
qed simp

lemma tokens_join:
  assumes "d \<in> set ds" "\<And>p. p \<in> set ps \<Longrightarrow> p \<noteq> [] \<and> set p \<inter> set ds = {}"
  shows "tokens ds (join [d] ps) = ps"
proof (cases "ps = []")
  case False
  have "filter (\<lambda>p. p \<noteq> []) ps = ps" using assms(2) by (simp add: filter_id_conv)
  with parts_join [OF False assms(1)] assms(2) show ?thesis by (simp add: tokens_parts)
qed simp

lemma join_snoc: "join sep (ps @ [p]) @ t = join sep (ps @ [p @ t])"
  by (induction ps rule: induct_list012) simp_all

lemma set_join: "set (join sep ps) \<subseteq> set sep \<union> (\<Union>p \<in> set ps. set p)"
  by (induction ps rule: induct_list012) auto

end
