(* ===== verification/ShJobs.thy ===== *)
theory ShJobs
  imports ShText
begin

text \<open>
  \<open>wonderShell.c\<close>, part 3: the table of background jobs and the commands \<open>fg\<close>, \<open>bg\<close>, \<open>kjob\<close>, \<open>jobs\<close> and
  \<open>overkill\<close>, the signal handlers, and the starting and collecting of child processes.
\<close>

section \<open>The job table\<close>

text \<open>\<open>strcpy\<close> into \<open>jobName[100]\<close>.\<close>

definition add_job :: "string option \<Rightarrow> int \<Rightarrow> string \<Rightarrow> unit shm" where
  "add_job stt p nm =
     (if 100 \<le> length nm then halts Undef
      else change (\<lambda>s. s\<lparr>ThisJobs := ThisJobs s @ [\<lparr>jobName = nm, pid = p, status = stt\<rparr>]\<rparr>))"

text \<open>The loop of \<open>delete_job\<close>: it looks at \<open>temp->pid\<close> before it asks whether \<open>temp\<close> is null.\<close>

fun unlink_job :: "int \<Rightarrow> job list \<Rightarrow> job list option" where
  "unlink_job p [] = None"
| "unlink_job p (j # js) = (if pid j = p then Some js else map_option (\<lambda>r. j # r) (unlink_job p js))"

definition delete_job :: "int \<Rightarrow> unit shm" where
  "delete_job p =
     shbind (change (\<lambda>s. s\<lparr>foreground := 0\<rparr>)) (\<lambda>_.
     shbind (look ThisJobs) (\<lambda>js.
       case js of
         [] \<Rightarrow> shret ()
       | j # rest \<Rightarrow>
           if pid j = p then change (\<lambda>s. s\<lparr>ThisJobs := rest\<rparr>)
           else shbind (some_or_undef (unlink_job p js)) (\<lambda>js'. change (\<lambda>s. s\<lparr>ThisJobs := js'\<rparr>))))"

text \<open>The \<open>for\<close> of the next three functions ends in a semicolon: the block behind it is run once, for the last
  entry.\<close>

definition search_job :: "int \<Rightarrow> int shm" where
  "search_job p =
     shbind (look ThisJobs) (\<lambda>js.
       case js of
         [] \<Rightarrow> shret 0
       | j # _ \<Rightarrow>
           if pid j = p then shret 1
           else if pid (last js) = p then shbind (say '' found'') (\<lambda>_. shret 1)
           else shret 0)"

definition set_head_status :: "string \<Rightarrow> unit shm" where
  "set_head_status x = change (\<lambda>s. s\<lparr>ThisJobs := (hd (ThisJobs s))\<lparr>status := Some x\<rparr> # tl (ThisJobs s)\<rparr>)"

definition change_to_running :: "int \<Rightarrow> int shm" where
  "change_to_running p =
     shbind (look ThisJobs) (\<lambda>js.
       case js of
         [] \<Rightarrow> shret 0
       | j # _ \<Rightarrow>
           if pid j = p then shbind (set_head_status ''Stopped'') (\<lambda>_. shret 1)
           else if pid (last js) = p then shbind (set_head_status ''Stopped'') (\<lambda>_. shret 1)
           else shret 0)"

definition is_job_running :: "int \<Rightarrow> int shm" where
  "is_job_running p =
     shbind (look ThisJobs) (\<lambda>js.
       case js of
         [] \<Rightarrow> shret 0
       | j # _ \<Rightarrow>
           shbind (some_or_undef (status j)) (\<lambda>x.
             if x = ''Running'' then shret 1
             else if x = ''Running'' then shret 1
             else shret 0))"

text \<open>The loop of \<open>get_job_pid\<close> and \<open>get_job_name\<close>; \<open>None\<close> is its early return.\<close>

fun walk_jobs :: "nat \<Rightarrow> job list \<Rightarrow> job list option" where
  "walk_jobs 0 js = Some js"
| "walk_jobs (Suc n) [] = None"
| "walk_jobs (Suc n) (j # js) = walk_jobs n js"

definition get_job_pid :: "int \<Rightarrow> int shm" where
  "get_job_pid number =
     shbind (look ThisJobs) (\<lambda>js.
       case js of
         [] \<Rightarrow> shret 0
       | j # _ \<Rightarrow>
           if number = 1 then shret (pid j)
           else
             (case walk_jobs (nat number) js of
                None \<Rightarrow> shret (- 1)
              | Some [] \<Rightarrow> halts Undef
              | Some (k # _) \<Rightarrow> shret (pid k)))"

definition get_job_name :: "int \<Rightarrow> string shm" where
  "get_job_name number =
     shbind (look ThisJobs) (\<lambda>js.
       if number = 1 \<and> js \<noteq> [] then shret (jobName (hd js))
       else
         (case walk_jobs (nat number) js of
            None \<Rightarrow> shret []
          | Some [] \<Rightarrow> halts Undef
          | Some (k # _) \<Rightarrow> shret (jobName k)))"

definition status_word :: "char option \<Rightarrow> string option" where
  "status_word c =
     (if c = Some CHR ''R'' then Some ''Running''
      else if c = Some CHR ''S'' then Some ''Sleeping''
      else if c = Some CHR ''Z'' then Some ''Zombie''
      else None)"

definition proc_stat :: "int \<Rightarrow> string" where
  "proc_stat p = ''/proc/'' @ show_int p @ ''/stat''"

text \<open>\<open>update_job_status\<close> returns at the first job that has no file under \<open>/proc\<close>.\<close>

fun update_from :: "job list \<Rightarrow> job list shm" where
  "update_from [] = shret []"
| "update_from (j # js) =
     shbind (syst (Fopen (proc_stat (pid j)))) (\<lambda>f.
       case f of
         None \<Rightarrow> shret (j # js)
       | Some content \<Rightarrow>
           shbind (update_from js) (\<lambda>r. shret (j\<lparr>status := status_word (scan_stat content)\<rparr> # r)))"

definition update_job_status :: "unit shm" where
  "update_job_status =
     shbind (look ThisJobs) (\<lambda>js. shbind (update_from js) (\<lambda>r. change (\<lambda>s. s\<lparr>ThisJobs := r\<rparr>)))"

section \<open>Waiting\<close>

definition WNOHANG :: int where "WNOHANG = 1"
definition WUNTRACED :: int where "WUNTRACED = 2"

text \<open>\<open>WIFEXITED(status) || WIFSIGNALED(status)\<close>.\<close>

definition ended :: "int \<Rightarrow> bool" where
  "ended st \<longleftrightarrow> st mod 128 = 0 \<or> st mod 128 \<noteq> 127"

text \<open>A failing \<open>waitpid\<close> leaves the status as it was; before the first answer it is not set.\<close>

fun wait_loop :: "nat \<Rightarrow> int \<Rightarrow> int \<Rightarrow> int option \<Rightarrow> unit shm" where
  "wait_loop 0 opts p old = halts Still_waiting"
| "wait_loop (Suc n) opts p old =
     shbind (sys2 (Waitpid p opts)) (\<lambda>(r, st).
       let cur = (if r = - 1 then old else Some st)
       in shbind (some_or_undef cur) (\<lambda>x. if ended x then shret () else wait_loop n opts p cur))"

definition wait_for :: "int \<Rightarrow> int \<Rightarrow> unit shm" where
  "wait_for opts p E s = wait_loop (rounds E) opts p None E s"

section \<open>Job commands\<close>

definition SIGINT :: int where "SIGINT = 2"
definition SIGQUIT :: int where "SIGQUIT = 3"
definition SIGCONT :: int where "SIGCONT = 18"
definition SIGTSTP :: int where "SIGTSTP = 20"
definition SIGTTIN :: int where "SIGTTIN = 21"

text \<open>A \<open>long\<close> kept in an \<open>int\<close>.\<close>

definition int_arg :: "string \<Rightarrow> int" where
  "int_arg w = wrap32 (strtol w)"

definition fgPressed :: "argv \<Rightarrow> unit shm" where
  "fgPressed ws =
     shbind (cellAt ws 1) (\<lambda>c.
       if c = Null then say ''Syntax Error!\<newline>''
       else shbind (argAt ws 1) (\<lambda>w. wait_for WUNTRACED (int_arg w)))"

definition bgPressed :: "argv \<Rightarrow> nat \<Rightarrow> unit shm" where
  "bgPressed ws len =
     shbind (if len \<noteq> 2 then say ''Wrong Usage : bg <val>\<newline>'' else shret ()) (\<lambda>_.
     shbind (argAt ws 1) (\<lambda>w.
     shbind (get_job_pid (int_arg w)) (\<lambda>chkpid.
       if chkpid = - 1 then say ''No such jobid\<newline>''
       else
         shbind (search_job chkpid) (\<lambda>found.
           if found = 1 then
             shbind (is_job_running chkpid) (\<lambda>r.
               if r = 1 then say ''Already Running\<newline>''
               else
                 shbind (change_to_running chkpid) (\<lambda>_.
                 shdo [does (Kill chkpid SIGTTIN), does (Kill chkpid SIGCONT)]))
           else shret ()))))"

definition kjobPressed :: "argv \<Rightarrow> unit shm" where
  "kjobPressed ws =
     shbind (cellAt ws 1) (\<lambda>c1.
     shbind (if c1 = Null then shret Null else cellAt ws 2) (\<lambda>c2.
       if c1 = Null \<or> c2 = Null then say ''Invalid Syntax usage -> kjob <jobNumber> <signalNumber>''
       else
         shbind (argAt ws 1) (\<lambda>w1.
         shbind (argAt ws 2) (\<lambda>w2.
         does (Kill (int_arg w1) (int_arg w2))))))"

fun jobs_from :: "nat \<Rightarrow> job list \<Rightarrow> unit shm" where
  "jobs_from i [] = shret ()"
| "jobs_from i (j # js) =
     shbind (some_or_undef (status j)) (\<lambda>x.
     shbind (say (''['' @ show_int (int i) @ ''] '' @ x @ '' '' @ jobName j @ '' ['' @ show_int (pid j) @ '']\<newline>'')) (\<lambda>_.
     jobs_from (Suc i) js))"

definition jobsPressed :: "unit shm" where
  "jobsPressed = shbind (look ThisJobs) (jobs_from 1)"

definition overKillPressed :: "unit shm" where
  "overKillPressed = shbind (look ThisJobs) (\<lambda>js. shdo (map (\<lambda>j. does (Kill (pid j) SIGQUIT)) js))"

section \<open>Signal handlers\<close>

definition ctrlC :: "unit shm" where
  "ctrlC =
     shbind (sysc Getpid) (\<lambda>me.
     shbind (look (\<lambda>s. (shell_pid s, Childpid s))) (\<lambda>(shell, child).
       if me \<noteq> shell then shret ()
       else
         shdo [if child \<noteq> 0
               then shdo [say (''\<newline>Sending SIGINT to '' @ show_int child @ ''.\<newline>''), does (Kill child SIGINT)]
               else shret (),
               does (Signal SIGINT ''ctrlC'')]))"

definition ctrlZ :: "unit shm" where
  "ctrlZ =
     shbind (sysc Getpid) (\<lambda>me.
     shbind (look (\<lambda>s. (shell_pid s, Childpid s))) (\<lambda>(shell, child).
       if me \<noteq> shell then shret ()
       else
         shdo [say (show_int shell @ '','' @ show_int child @ ''\<newline>''),
               if child \<noteq> shell \<and> child \<noteq> 0
               then shbind (get_job_name child) (\<lambda>nm.
                 shdo [add_job (Some ''Stopped'') child nm, does (Kill child SIGTTIN), does (Kill child SIGTSTP)])
               else shret (),
               does (Signal SIGTSTP ''ctrlZ'')]))"

section \<open>Child processes\<close>

definition checkChild :: "unit shm" where
  "checkChild =
     shbind (sysc (Waitpid (- 1) WNOHANG)) (\<lambda>a.
       if a > 0 then
         shdo [does (Eprint (''pid '' @ show_int a @ '' exicted Normally\<newline>'')), delete_job a,
               change (\<lambda>s. s\<lparr>foreground := 0\<rparr>)]
       else shret ())"

text \<open>\<open>execvp(line[0], line)\<close>: it returns only when it fails.\<close>

definition execvp :: "argv \<Rightarrow> unit shm" where
  "execvp ws =
     shbind (argAt ws 0) (\<lambda>prog.
     shbind (exec_args ws) (\<lambda>args.
     shbind (sysc (Execvp prog args)) (\<lambda>r. if r = - 1 then shret () else halts Replaced)))"

definition foreGroundProcess :: "argv \<Rightarrow> nat \<Rightarrow> argv shm" where
  "foreGroundProcess ws0 len =
     shbind (put_null ws0 len) (\<lambda>ws.
     shbind (cellAt ws 1) (\<lambda>c.
     shbind (change (\<lambda>s. s\<lparr>currentProcessName := c\<rparr>)) (\<lambda>_.
     shbind (sysc Fork) (\<lambda>p.
     shbind (change (\<lambda>s. s\<lparr>Childpid := p\<rparr>)) (\<lambda>_.
     shbind
       (if p = 0 then
          shdo [execvp ws, does (Perror ''lsh''), change (\<lambda>s. s\<lparr>foreground := 1\<rparr>), halts (Exits 1)]
        else if p < 0 then does (Perror ''lsh'')
        else wait_for WUNTRACED p) (\<lambda>_.
     shret ws))))))"

definition backGroundProcess :: "argv \<Rightarrow> nat \<Rightarrow> argv shm" where
  "backGroundProcess ws0 len =
     shbind (put_null ws0 len) (\<lambda>ws.
     shbind (sysc Fork) (\<lambda>p.
     shbind (sysc Getpid) (\<lambda>me.
     shbind (change (\<lambda>s. s\<lparr>childpid := me, Childpid := p\<rparr>)) (\<lambda>_.
     shbind
       (if p = 0 then
          shbind (sysc Getpid) (\<lambda>me.
          shdo [change (\<lambda>s. s\<lparr>childpid := me\<rparr>), say (''pid-- '' @ show_int me @ ''\<newline>''), execvp ws,
                does (Perror ''lsh''), halts (Exits 1)])
        else if p < 0 then does (Perror ''Error Handled: lsh'')
        else shret ()) (\<lambda>_.
     shbind (syst (Fopen (proc_stat p))) (\<lambda>f.
       case f of
         None \<Rightarrow>
           shbind (say (''No status File, no process with pid '' @ show_int p @ ''.\<newline>'')) (\<lambda>_. shret ws)
       | Some content \<Rightarrow>
           shbind (argAt ws 0) (\<lambda>nm.
           shbind (add_job (status_word (scan_stat content)) p nm) (\<lambda>_. shret ws))))))))"

definition switchForeOrBackGround :: "argv \<Rightarrow> nat \<Rightarrow> argv shm" where
  "switchForeOrBackGround ws len =
     shbind (if len = 0 then halts Undef else argAt ws (len - 1)) (\<lambda>w.
       if w = ''&'' then shbind (put_null ws (len - 1)) (\<lambda>ws1. backGroundProcess ws1 (len - 1))
       else
         shbind (cellAt ws 0) (\<lambda>c.
         shbind (change (\<lambda>s. s\<lparr>childProcName := c\<rparr>)) (\<lambda>_. foreGroundProcess ws len)))"


section \<open>Collecting children\<close>

definition in_table :: "int \<Rightarrow> job list \<Rightarrow> bool" where
  "in_table p js = list_ex (\<lambda>j. pid j = p) js"

definition without_job :: "int \<Rightarrow> job list \<Rightarrow> job list" where
  "without_job p js = takeWhile (\<lambda>j. pid j \<noteq> p) js @ tl (dropWhile (\<lambda>j. pid j \<noteq> p) js)"

lemma table_Cons [simp]:
  "in_table p (j # js) \<longleftrightarrow> pid j = p \<or> in_table p js"
  "without_job p (j # js) = (if pid j = p then js else j # without_job p js)"
  and table_Nil [simp]: "\<not> in_table p []" "without_job p [] = []"
  by (simp_all add: in_table_def without_job_def)

lemma unlink_job_spec: "unlink_job p js = (if in_table p js then Some (without_job p js) else None)"
  by (induction js) simp_all

lemma delete_job_spec:
  "delete_job p E s =
     (if ThisJobs s = [] \<or> in_table p (ThisJobs s)
      then (Inr (), s\<lparr>foreground := 0, ThisJobs := without_job p (ThisJobs s)\<rparr>)
      else (Inl Undef, s\<lparr>foreground := 0\<rparr>))"
  by (cases "ThisJobs s") (simp_all add: delete_job_def unlink_job_spec)

text \<open>Before each command the shell collects one ended child. When the job table is empty nothing more
  happens, a child in the table loses its first entry, and for a child that is not in a table that is not
  empty - such as a stage of a pipeline, which is never entered - the shell reads through a null pointer.\<close>

theorem checkChild_spec:
  "checkChild E s =
     (let c = Waitpid (- 1) WNOHANG;
          a = ret E (calls s @ [c]);
          e = Eprint (''pid '' @ show_int a @ '' exicted Normally\<newline>'')
      in if a \<le> 0 then (Inr (), s\<lparr>calls := calls s @ [c]\<rparr>)
         else if ThisJobs s = [] \<or> in_table a (ThisJobs s)
         then (Inr (), s\<lparr>calls := calls s @ [c, e], foreground := 0, ThisJobs := without_job a (ThisJobs s)\<rparr>)
         else (Inl Undef, s\<lparr>calls := calls s @ [c, e], foreground := 0\<rparr>))"
  by (simp add: checkChild_def Let_def delete_job_spec shbind_def)

section \<open>The numbers of jobs\<close>

lemma walk_jobs_le: "n \<le> length js \<Longrightarrow> walk_jobs n js = Some (drop n js)"
  by (induction n js rule: walk_jobs.induct) simp_all

lemma walk_jobs_gt: "length js < n \<Longrightarrow> walk_jobs n js = None"
  by (induction n js rule: walk_jobs.induct) simp_all

text \<open>\<open>jobs\<close> numbers from 1, but the number \<open>n > 1\<close> stands for the entry after the \<open>n\<close>-th.\<close>

lemma get_job_pid_spec:
  assumes "2 \<le> n" "ThisJobs s \<noteq> []"
  shows "get_job_pid (int n) E s =
    (if n < length (ThisJobs s) then (Inr (pid (ThisJobs s ! n)), s)
     else if n = length (ThisJobs s) then (Inl Undef, s) else (Inr (- 1), s))"
proof -
  obtain j js where js: "ThisJobs s = j # js" using assms(2) by (cases "ThisJobs s") auto
  have n1: "int n \<noteq> 1" using assms(1) by simp
  consider "n < length (j # js)" | "n = length (j # js)" | "length (j # js) < n" by linarith
  then show ?thesis
  proof cases
    case 1
    then obtain r where "drop n (j # js) = (j # js) ! n # r" by (metis Cons_nth_drop_Suc)
    with 1 js n1 show ?thesis by (simp add: get_job_pid_def walk_jobs_le del: nth_Cons)
  next
    case 2
    then have "walk_jobs n (j # js) = Some []" by (simp add: walk_jobs_le del: walk_jobs.simps)
    then have "walk_jobs (nat (int n)) (j # js) = Some []" by simp
    with 2 js n1 show ?thesis unfolding get_job_pid_def by (simp del: walk_jobs.simps nat_int)
  next
    case 3
    with js n1 show ?thesis by (simp add: get_job_pid_def walk_jobs_gt del: walk_jobs.simps)
  qed
qed

text \<open>With \<open>n + 1\<close> jobs, \<open>bg n\<close> for \<open>n\<close> at least 2 continues the last job, which \<open>jobs\<close> lists as \<open>n + 1\<close>, when
  the first job is not running, and marks the first job as stopped; \<open>bg (n + 1)\<close> reads through a null pointer.\<close>

theorem bg_continues_next_job:
  assumes "2 \<le> n" "length (ThisJobs s) = n + 1" "distinct (map pid (ThisJobs s))" "pid (last (ThisJobs s)) \<noteq> - 1"
    and "status (hd (ThisJobs s)) = Some x" "x \<noteq> ''Running''" "int_arg w = int n" "int_arg v = int n + 1"
  shows "bgPressed [Str ''bg'', Str w] 2 E s =
      (Inr (), s\<lparr>ThisJobs := (hd (ThisJobs s))\<lparr>status := Some ''Stopped''\<rparr> # tl (ThisJobs s),
         calls := calls s @ [Print '' found'', Kill (pid (last (ThisJobs s))) SIGTTIN, Kill (pid (last (ThisJobs s))) SIGCONT]\<rparr>) \<and>
    bgPressed [Str ''bg'', Str v] 2 E s = (Inl Undef, s)"
proof -
  obtain j js where js: "ThisJobs s = j # js" using assms(2) by (cases "ThisJobs s") auto
  have jn: "js \<noteq> []" using assms(1,2) js by auto
  have l: "ThisJobs s ! n = last (ThisJobs s)"
    using last_conv_nth [of "ThisJobs s"] assms(2) js by (metis add_diff_cancel_right' list.distinct(1))
  have ne: "pid j \<noteq> pid (last js)" using assms(3) js jn by (auto simp: image_iff)
  have g: "get_job_pid (int n) E s = (Inr (pid (last js)), s)"
    using get_job_pid_spec [OF assms(1), of s E] assms(2) js l jn by simp
  have u: "get_job_pid (int n + 1) E s = (Inl Undef, s)"
    using get_job_pid_spec [of "n + 1" s E] assms(1,2) js by (simp add: add.commute)
  show ?thesis
    using assms(4-8) js jn ne g u
    by (simp add: bgPressed_def search_job_def is_job_running_def change_to_running_def set_head_status_def)
qed

definition three_jobs :: "job list" where
  "three_jobs = map (\<lambda>p. \<lparr>jobName = ''job'', pid = p, status = Some ''Sleeping''\<rparr>) [101, 102, 103]"

definition blank_sh :: sh where
  "blank_sh = \<lparr>calls = [], ThisJobs = [], currentWD = ''/'', deviceName = [], userName = [], childpid = 0,
     childProcName = Null, currentProcessName = Null, Childpid = 0, timSt = 0, waitFor = 0, msg = [], timeVLD = 0,
     loopflg = 1, foreground = 0, shell_pid = 1\<rparr>"

theorem bg_continues_next_job_witness:
  "\<forall>E. snd (bgPressed [Str ''bg'', Str ''2''] 2 E (blank_sh\<lparr>ThisJobs := three_jobs\<rparr>)) =
     blank_sh\<lparr>ThisJobs := (hd three_jobs)\<lparr>status := Some ''Stopped''\<rparr> # tl three_jobs,
       calls := [Print '' found'', Kill 103 SIGTTIN, Kill 103 SIGCONT]\<rparr>"
proof
  fix E
  have n: "int_arg ''2'' = int 2" "int_arg ''3'' = int 2 + 1" by code_simp+
  show "snd (bgPressed [Str ''bg'', Str ''2''] 2 E (blank_sh\<lparr>ThisJobs := three_jobs\<rparr>)) =
     blank_sh\<lparr>ThisJobs := (hd three_jobs)\<lparr>status := Some ''Stopped''\<rparr> # tl three_jobs,
       calls := [Print '' found'', Kill 103 SIGTTIN, Kill 103 SIGCONT]\<rparr>"
    using bg_continues_next_job [of 2 "blank_sh\<lparr>ThisJobs := three_jobs\<rparr>" "''Sleeping''" "''2''" "''3''" E] n
    by (simp add: three_jobs_def blank_sh_def)
qed

end
