(* ===== verification/ShCommands.thy ===== *)
theory ShCommands
  imports ShJobs
begin

text \<open>
  \<open>wonderShell.c\<close>, part 4: the environment, process information, clock, reminder and directory commands, and
  the dispatcher \<open>executeInbuild\<close>.
\<close>

section \<open>Environment variables\<close>

definition report_set :: "int \<Rightarrow> string \<Rightarrow> string \<Rightarrow> unit shm" where
  "report_set r name val =
     (if r = 0 then say (''Environment Variable Set : '' @ name @ '' = '' @ val @ ''\<newline>'')
      else say ''Unable ot set enviroment variable\<newline>'')"

definition setEnvPressed :: "argv \<Rightarrow> nat \<Rightarrow> unit shm" where
  "setEnvPressed ws len =
     (if len < 2 \<and> len > 3 then say ''Wrong usage: -> setenv var [val]\<newline>''
      else if len = 2 then
        shbind (argAt ws 1) (\<lambda>name. shbind (sysc (Setenv name [])) (\<lambda>r. report_set r name []))
      else
        shbind (argAt ws 1) (\<lambda>name.
        shbind (argAt ws 2) (\<lambda>val.
        shbind (sysc (Setenv name val)) (\<lambda>r. report_set r name val))))"

definition unSetEnvPressed :: "argv \<Rightarrow> nat \<Rightarrow> unit shm" where
  "unSetEnvPressed ws len =
     (if len \<noteq> 2 then say ''Wrong Usage: -> unsetenv var\<newline>''
      else
        shbind (argAt ws 1) (\<lambda>name.
        shbind (sysc (Unsetenv name)) (\<lambda>r.
          if r = 0 then say (''Successfully Usetted the enviroment variable '' @ name @ ''.\<newline>'') else shret ())))"

section \<open>Process information\<close>

text \<open>The first number of a file, as \<open>fscanf("%lu")\<close> reads it.\<close>

definition scan_lu :: "string \<Rightarrow> nat option" where
  "scan_lu s =
     (let r = dropWhile is_blank s
      in if r = [] \<or> \<not> is_digit (hd r) then None else Some (min (2 ^ 64 - 1) (digits_value r)))"

text \<open>The answer to \<open>readlink\<close> is the text in its buffer up to the first NUL. The second test looks at the first
  file pointer again, so a missing \<open>statm\<close> file goes to \<open>fscanf\<close> as a null pointer.\<close>

definition pinfoEntered :: "argv \<Rightarrow> nat \<Rightarrow> unit shm" where
  "pinfoEntered ws len =
     shbind
       (if len = 2 then argAt ws 1 else shbind (sysc Getpid) (\<lambda>a. shret (show_int a))) (\<lambda>p.
     if 10 \<le> length p then halts Undef
     else
       shbind (syst (Fopen (''/proc/'' @ p @ ''/stat''))) (\<lambda>f.
         case f of
           None \<Rightarrow> say (''No status File, no process with pid '' @ p @ ''.\<newline>'')
         | Some content \<Rightarrow>
             shbind (some_or_undef (scan_stat content)) (\<lambda>st.
             shbind (say (''Process Statues -- '' @ [st] @ ''\<newline>'')) (\<lambda>_.
             shbind (syst (Fopen (''/proc/'' @ p @ ''/statm''))) (\<lambda>f1.
             shbind (some_or_undef f1) (\<lambda>content1.
             shbind (some_or_undef (scan_lu content1)) (\<lambda>mem.
             shdo
               [say (''pid -- '' @ p @ ''\<newline>''),
                say (decimal mem @ '', {Virtual memory}\<newline>\<newline>''),
                does Fclose,
                shbind (syst (Readlink (''/proc/'' @ p @ ''/exe''))) (\<lambda>exe.
                shbind (some_or_undef exe) (\<lambda>exePath.
                say ('' -'' @ exePath @ ''\<newline>\<newline>'')))]))))))) "

section \<open>Clock\<close>

definition eleminate :: "unit shm" where
  "eleminate = change (\<lambda>s. s\<lparr>loopflg := 0\<rparr>)"

text \<open>\<open>strftime\<close> into a buffer of 26 bytes: nothing is stored when the text does not fit.\<close>

definition clock_line :: "int \<Rightarrow> unit shm" where
  "clock_line t =
     shbind (syst (Localtime t '' %d %b %Y, %H:%M:%S'')) (\<lambda>x.
       case x of Some buffer \<Rightarrow> say (buffer @ ''\<newline>'') | None \<Rightarrow> halts Undef)"

text \<open>The busy loop of \<open>clock -t\<close>. The second answer to \<open>time\<close> says whether \<open>SIGINT\<close> came in by then.\<close>

fun clock_loop :: "nat \<Rightarrow> int \<Rightarrow> int \<Rightarrow> unit shm" where
  "clock_loop 0 lap timeSt = halts Still_waiting"
| "clock_loop (Suc n) lap timeSt =
     shbind (look loopflg) (\<lambda>flg.
       if flg = 0 then shret ()
       else
         shbind (sys2 Time) (\<lambda>(timEd, sig).
         shbind (if sig \<noteq> 0 then eleminate else shret ()) (\<lambda>_.
           if timEd - timeSt = lap then
             shbind (clock_line timEd) (\<lambda>_. shbind (sysc Time) (\<lambda>t. clock_loop n lap t))
           else clock_loop n lap timeSt)))"

definition clock_wait :: "int \<Rightarrow> int \<Rightarrow> unit shm" where
  "clock_wait lap t E s = clock_loop (rounds E) lap t E s"

definition clkCmd :: "argv \<Rightarrow> nat \<Rightarrow> unit shm" where
  "clkCmd ws len =
     shbind (sysc Time) (\<lambda>timeSt.
     shbind (sysc Time) (\<lambda>timer.
     shbind (syst (Localtime timer '' %d %b %Y, %H:%M:%S'')) (\<lambda>buffer.
       if len = 1 then shbind (some_or_undef buffer) (\<lambda>b. say (b @ ''\<newline>''))
       else if len < 3 then say ''Wrong Usage, use -> clock -t <timelap>''
       else
         shbind (some_or_undef buffer) (\<lambda>b.
         shbind (say (b @ ''\<newline>'')) (\<lambda>_.
         shbind (argAt ws 2) (\<lambda>w.
         shdo [does (Signal SIGINT ''eleminate''), clock_wait (int_arg w) timeSt,
               change (\<lambda>s. s\<lparr>loopflg := 1\<rparr>)]))))))"

section \<open>Reminder\<close>

definition chkAlarm :: "unit shm" where
  "chkAlarm =
     shbind (look (\<lambda>s. s)) (\<lambda>s.
       if timeVLD s = 0 then shret ()
       else if timeVLD s = 1 then
         shbind (sysc Time) (\<lambda>timEd.
           let diff = timEd - timSt s in
           if diff \<ge> waitFor s then
             shdo [change (\<lambda>s. s\<lparr>timeVLD := 0\<rparr>), say ''Reaminder:'', say (msg s @ ''\<newline>''),
                   change (\<lambda>s. s\<lparr>msg := []\<rparr>)]
           else if diff < 0 then
             shdo [say ''Reaminder failed, printing message\<newline>'', say (msg s @ ''\<newline>''),
                   change (\<lambda>s. s\<lparr>timeVLD := 0\<rparr>), change (\<lambda>s. s\<lparr>msg := []\<rparr>)]
           else shret ())
       else shret ())"

text \<open>\<open>strcat\<close> to \<open>msg[500]\<close>, with room for the NUL.\<close>

definition add_msg :: "string \<Rightarrow> unit shm" where
  "add_msg w = shbind (look msg) (\<lambda>m. if 500 \<le> length (m @ w) then halts Undef else change (\<lambda>s. s\<lparr>msg := m @ w\<rparr>))"

definition add_word :: "argv \<Rightarrow> nat \<Rightarrow> unit shm" where
  "add_word ws i = shbind (argAt ws i) (\<lambda>w. shdo [add_msg w, add_msg '' ''])"

definition setAlarm :: "argv \<Rightarrow> nat \<Rightarrow> unit shm" where
  "setAlarm ws len =
     (if len < 3 then say ''Unable to set remaninder, Usage -> remindme <time in mins> \"message\"\<newline>''
      else
        shbind (look timeVLD) (\<lambda>v.
          if v = 1 then say ''Another timer is already set pls wait till it ends\<newline>''
          else
            shbind (change (\<lambda>s. s\<lparr>timeVLD := 1\<rparr>)) (\<lambda>_.
            shbind (argAt ws 1) (\<lambda>w.
            shbind (change (\<lambda>s. s\<lparr>waitFor := strtol w\<rparr>)) (\<lambda>_.
            shbind (sysc Time) (\<lambda>t.
            shbind (change (\<lambda>s. s\<lparr>timSt := t\<rparr>)) (\<lambda>_.
            shbind (shdo (map (add_word ws) [2..<len])) (\<lambda>_.
            change (\<lambda>s. s\<lparr>msg := replaceAll (msg s) (CHR 0x22) (CHR '' '')\<rparr>))))))))) "

section \<open>Directory listings\<close>

fun flags_from :: "argv \<Rightarrow> nat list \<Rightarrow> int \<Rightarrow> int shm" where
  "flags_from ws [] r = shret r"
| "flags_from ws (i # ks) r =
     shbind (argAt ws i) (\<lambda>w.
       if w = ''-l'' then flags_from ws ks (r + 2)
       else if w = ''-a'' then flags_from ws ks (r + 1)
       else if w = ''-la'' then shret 3
       else if w = ''-al'' then shret 3
       else flags_from ws ks r)"

definition chkFlgOrPath :: "argv \<Rightarrow> nat \<Rightarrow> int shm" where
  "chkFlgOrPath ws len = (if len = 1 then shret 0 else flags_from ws [1..<len] 0)"

definition first_char :: "string \<Rightarrow> char" where
  "first_char w = (case w of [] \<Rightarrow> NUL | c # _ \<Rightarrow> c)"

fun path_from :: "argv \<Rightarrow> nat list \<Rightarrow> int shm" where
  "path_from ws [] = shret (- 1)"
| "path_from ws (i # ks) =
     shbind (argAt ws i) (\<lambda>w.
       if first_char w \<noteq> CHR ''-'' \<and> first_char w \<noteq> CHR ''&'' then shret (int i) else path_from ws ks)"

definition parsePath :: "argv \<Rightarrow> nat \<Rightarrow> int shm" where
  "parsePath ws len = path_from ws [1..<len]"

definition pad_right :: "nat \<Rightarrow> string \<Rightarrow> string" where
  "pad_right n x = x @ replicate (n - length x) (CHR '' '')"

definition pad_left :: "nat \<Rightarrow> string \<Rightarrow> string" where
  "pad_left n x = replicate (n - length x) (CHR '' '') @ x"

text \<open>The ten letters of the mode.\<close>

definition mode_word :: "nat \<Rightarrow> string" where
  "mode_word md =
     (if md div 4096 mod 16 = 4 then CHR ''d'' else CHR ''-'') #
     map (\<lambda>(k, c). if bit md k then c else CHR ''-'') (zip (rev [0..<9]) ''rwxrwxrwx'')"

definition owner_word :: "int \<Rightarrow> string option \<Rightarrow> string" where
  "owner_word n pw = (case pw of Some name \<Rightarrow> '' '' @ pad_right 8 (take 8 name) | None \<Rightarrow> '' '' @ pad_right 8 (show_int n))"

text \<open>One line of \<open>ls -l\<close>. \<open>strftime\<close> may store 20 bytes in \<open>date[12]\<close>; the group is looked up among the users.
  The result is the number of blocks, or nothing when \<open>stat\<close> fails and the whole command returns.\<close>

definition ls_line :: "argv \<Rightarrow> nat \<Rightarrow> string \<Rightarrow> int option shm" where
  "ls_line ws len name =
     shbind (parsePath ws len) (\<lambda>addrsI.
     shbind (if addrsI > 0 then shbind (argAt ws (nat addrsI)) (\<lambda>d. shret (d @ name)) else shret name) (\<lambda>path1.
     if addrsI > 0 \<and> 100 \<le> length path1 then halts Undef
     else
       shbind (syst_stat (Statf path1)) (\<lambda>(r, st).
         if r < 0 then shret None
         else
           shbind (shdo (map (\<lambda>c. say [c]) (mode_word (sb_mode st)))) (\<lambda>_.
           shbind (say ('' '' @ show_int (sb_nlink st) @ '' '')) (\<lambda>_.
           shbind (syst (Getpwuid (sb_uid st))) (\<lambda>pw.
           shbind (say (owner_word (sb_uid st) pw)) (\<lambda>_.
           shbind (syst (Getpwuid (sb_gid st))) (\<lambda>gw.
           shbind (say (owner_word (sb_gid st) gw)) (\<lambda>_.
           shbind (say ('' '' @ pad_left 8 (show_int (sb_length st)) @ '' '')) (\<lambda>_.
           shbind (syst (Localtime (sb_mtime st) ''%b %d %H:%M '')) (\<lambda>d.
           shbind (some_or_undef d) (\<lambda>date.
             if 12 \<le> length date then halts Undef
             else
               shbind (shdo [say ('' '' @ date @ '' ''), say (name @ ''\<newline>'')]) (\<lambda>_.
               shret (Some (sb_blocks st)))))))))))))))"

definition is_dot :: "string \<Rightarrow> bool" where
  "is_dot name \<longleftrightarrow> name = ''.'' \<or> name = ''..''"

text \<open>The loop over \<open>readdir\<close>, with room for so many names in \<open>file[5000]\<close>.\<close>

fun ls_loop :: "nat \<Rightarrow> argv \<Rightarrow> nat \<Rightarrow> int \<Rightarrow> int \<Rightarrow> int option shm" where
  "ls_loop room ws len infoLvl blksize =
     shbind (syst Readdir) (\<lambda>de.
       case de of
         None \<Rightarrow> shret (Some blksize)
       | Some name \<Rightarrow>
           (case room of
              0 \<Rightarrow> halts Undef
            | Suc left \<Rightarrow>
                if infoLvl = 0 then
                  shbind (if \<not> is_dot name then say (name @ ''  '') else shret ()) (\<lambda>_. ls_loop left ws len infoLvl blksize)
                else if infoLvl = 1 then
                  shbind (say (name @ ''  '')) (\<lambda>_. ls_loop left ws len infoLvl blksize)
                else if infoLvl = 2 \<and> \<not> is_dot name \<or> infoLvl = 3 then
                  shbind (ls_line ws len name) (\<lambda>z.
                    case z of
                      None \<Rightarrow> shret None
                    | Some blocks \<Rightarrow> ls_loop left ws len infoLvl (blksize + blocks))
                else ls_loop left ws len infoLvl blksize))"

declare ls_loop.simps [simp del]

text \<open>C division of the sum of blocks by two truncates; the sum is not negative.\<close>

definition lsPressed :: "argv \<Rightarrow> nat \<Rightarrow> unit shm" where
  "lsPressed ws len =
     shbind (path_from ws [1..<len]) (\<lambda>i.
     shbind (if i > 0 then argAt ws (nat i) else shret ''.'') (\<lambda>d.
     shbind (sysc (Opendir d)) (\<lambda>dr.
       if dr = 0 then say ''Could not open file directory''
       else
         shbind (chkFlgOrPath ws len) (\<lambda>infoLvl.
         shbind (ls_loop 5000 ws len infoLvl 0) (\<lambda>z.
           case z of
             None \<Rightarrow> shret ()
           | Some blksize \<Rightarrow>
               shdo [if infoLvl \<ge> 2
                     then shdo [say (''total: '' @ show_int (blksize div 2) @ ''\<newline>''), say ''\<newline>'']
                     else shret (),
                     say ''\<newline>'', does Closedir])))))"

section \<open>The dispatcher\<close>

definition cdPressed :: "argv \<Rightarrow> nat \<Rightarrow> unit shm" where
  "cdPressed ws len =
     shbind (if len < 1 then say ''Enter the path after cd ,Usgae -> cd <pathname>\<newline>'' else shret ()) (\<lambda>_.
     shbind (argAt ws 1) (\<lambda>path.
     shbind (look currentWD) (\<lambda>home.
     shbind (if first_char path = CHR ''~'' then some_or_undef (replaceWord path ''~'' home) else shret path) (\<lambda>replceTilda.
     shbind (sysc (Chdir replceTilda)) (\<lambda>r.
       if r = - 1 then say (''No dir called : '' @ path @ ''\<newline>'') else shret ())))))"

definition pwdPressed :: "unit shm" where
  "pwdPressed = shbind (syst Getcwd) (\<lambda>w. shbind (some_or_undef w) (\<lambda>pwd. say (pwd @ ''\<newline>'')))"

fun echo_from :: "argv \<Rightarrow> nat list \<Rightarrow> unit shm" where
  "echo_from ws [] = say ''\<newline>''"
| "echo_from ws (i # ks) = shbind (argAt ws i) (\<lambda>w. shbind (say (w @ '' '')) (\<lambda>_. echo_from ws ks))"

definition clear_screen :: "unit shm" where
  "clear_screen = say (CHR 0x1B # ''[H'' @ CHR 0x1B # ''[J'')"

definition keep_args :: "argv \<Rightarrow> unit shm \<Rightarrow> argv shm" where
  "keep_args ws m = shbind m (\<lambda>_. shret ws)"

text \<open>The chain of comparisons with the command word, after the collection of one finished child. The argument
  array is returned since the start of a program writes to it.\<close>

definition run_word :: "string \<Rightarrow> argv \<Rightarrow> nat \<Rightarrow> argv shm" where
  "run_word w ws len =
     (if w = ''clear'' then keep_args ws clear_screen
      else if w = ''fg'' then keep_args ws (fgPressed ws)
      else if w = ''bg'' then keep_args ws (bgPressed ws len)
      else if w = ''kjob'' then keep_args ws (kjobPressed ws)
      else if w = ''jobs'' then keep_args ws jobsPressed
      else if w = ''overkill'' then keep_args ws overKillPressed
      else if w = ''setenv'' then keep_args ws (setEnvPressed ws len)
      else if w = ''unsetenv'' then keep_args ws (unSetEnvPressed ws len)
      else if w = ''cd'' then keep_args ws (cdPressed ws len)
      else if w = ''pwd'' then keep_args ws pwdPressed
      else if w = ''remindme'' then keep_args ws (setAlarm ws len)
      else if w = ''clock'' then keep_args ws (clkCmd ws len)
      else if w = ''echo'' then keep_args ws (echo_from ws [1..<len])
      else if w = ''ls'' then keep_args ws (lsPressed ws len)
      else if w = ''pinfo'' then keep_args ws (pinfoEntered ws len)
      else switchForeOrBackGround ws len)"

definition executeInbuild :: "argv \<Rightarrow> nat \<Rightarrow> argv shm" where
  "executeInbuild ws len =
     shbind checkChild (\<lambda>_.
       if len = 0 then shret ws
       else shbind (argAt ws 0) (\<lambda>w. run_word w ws len))"


section \<open>The reminder\<close>

definition prints :: "sh \<Rightarrow> call list" where
  "prints s = filter (\<lambda>c. case c of Print _ \<Rightarrow> True | _ \<Rightarrow> False) (calls s)"

definition times_asked :: "sh \<Rightarrow> nat" where
  "times_asked s = length (filter (\<lambda>c. c = Time) (calls s))"

text \<open>The system's clock: what the \<open>k\<close>-th call of \<open>time\<close> returns.\<close>

definition clocked :: "os \<Rightarrow> (nat \<Rightarrow> int) \<Rightarrow> bool" where
  "clocked E T \<longleftrightarrow> (\<forall>cs. ret E (cs @ [Time]) = T (length (filter (\<lambda>c. c = Time) cs)))"

lemma clocked_time: "clocked E T \<Longrightarrow> ret E (calls s @ [Time]) = T (times_asked s)"
  by (simp add: clocked_def times_asked_def)

lemma trace_simps [simp]:
  "prints (s\<lparr>calls := cs\<rparr>) = filter (\<lambda>c. case c of Print _ \<Rightarrow> True | _ \<Rightarrow> False) cs"
  "prints (s\<lparr>timeVLD := v\<rparr>) = prints s" "prints (s\<lparr>msg := m\<rparr>) = prints s"
  "times_asked (s\<lparr>calls := cs\<rparr>) = length (filter (\<lambda>c. c = Time) cs)"
  "times_asked (s\<lparr>timeVLD := v\<rparr>) = times_asked s" "times_asked (s\<lparr>msg := m\<rparr>) = times_asked s"
  by (simp_all add: prints_def times_asked_def)

definition spoken :: "string list \<Rightarrow> string" where
  "spoken us = concat (map (\<lambda>u. u @ '' '') us)"

lemma add_word_step:
  "j < length ws \<Longrightarrow> ws ! j = Str u \<Longrightarrow> length (msg s) + length u < 499 \<Longrightarrow>
   add_word ws j E s = (Inr (), s\<lparr>msg := (msg s @ u) @ '' ''\<rparr>)"
  by (simp add: add_word_def add_msg_def)

lemma add_words:
  assumes "drop j ws = map Str us @ rest" "length (msg s @ spoken us) < 500"
  shows "shdo (map (add_word ws) [j..<j + length us]) E s =
    (Inr (), s\<lparr>msg := msg s @ spoken us\<rparr>)"
  using assms
proof (induction us arbitrary: j s)
  case (Cons u us)
  have j: "j < length ws" using Cons.prems(1) by (metis drop_all list.distinct(1) append_Cons list.simps(9) not_le)
  then have w: "ws ! j = Str u" "drop (Suc j) ws = map Str us @ rest"
    using Cons.prems(1) by (simp_all flip: Cons_nth_drop_Suc)
  have r: "[j..<j + length (u # us)] = j # [Suc j..<Suc j + length us]"
    by (simp add: upt_rec)
  have "length (msg (s\<lparr>msg := (msg s @ u) @ '' ''\<rparr>) @ spoken us) < 500"
    using Cons.prems(2) by (simp add: spoken_def)
  from Cons.IH [OF w(2) this] show ?case
    unfolding r using Cons.prems(2) add_word_step [OF j w(1), of s E] by (simp add: spoken_def del: upt_Suc)
qed (simp add: spoken_def)

lemma setAlarm_sets:
  assumes "timeVLD s = 0" "msg s = []" "us \<noteq> []" "length (spoken us) < 500"
  shows "setAlarm (Str a # Str w # map Str us @ rest) (2 + length us) E s =
    (Inr (), s\<lparr>timeVLD := 1, waitFor := strtol w, calls := calls s @ [Time], timSt := ret E (calls s @ [Time]),
       msg := replaceAll (spoken us) (CHR 0x22) (CHR '' '')\<rparr>)"
proof -
  let ?ws = "Str a # Str w # map Str us @ rest"
  let ?s = "s\<lparr>timeVLD := 1, waitFor := strtol w, calls := calls s @ [Time], timSt := ret E (calls s @ [Time])\<rparr>"
  have d: "drop 2 ?ws = map Str us @ rest" by (simp add: numeral_2_eq_2)
  from add_words [OF d, of ?s E] assms
  have words: "shdo (map (add_word ?ws) [2..<2 + length us]) E ?s =
    (Inr (), ?s\<lparr>msg := spoken us\<rparr>)" by simp
  have l: "\<not> 2 + length us < 3" using assms(3) by (cases us) simp_all
  show ?thesis
    unfolding setAlarm_def using assms(1) l words
    by (simp del: shdo.simps)
qed

definition due :: "sh \<Rightarrow> int \<Rightarrow> bool" where
  "due s t \<longleftrightarrow> waitFor s \<le> t - timSt s"

lemma chkAlarm_idle: "timeVLD s = 0 \<Longrightarrow> chkAlarm E s = (Inr (), s)"
  by (simp add: chkAlarm_def)

lemma checks_idle: "timeVLD s = 0 \<Longrightarrow> shdo (replicate k chkAlarm) E s = (Inr (), s)"
  by (induction k) (simp_all add: chkAlarm_idle)

lemma checks_pending:
  assumes "clocked E T" "\<forall>k. timSt s \<le> T k" "timeVLD s = 1"
  shows "\<exists>t. shdo (replicate k chkAlarm) E s = (Inr (), t) \<and>
    prints t = prints s @ (if \<exists>i < k. due s (T (times_asked s + i)) then [Print ''Reaminder:'', Print (msg s @ ''\<newline>'')] else [])"
  using assms
proof (induction k arbitrary: s)
  case (Suc k)
  have now: "ret E (calls s @ [Time]) = T (times_asked s)" by (rule clocked_time [OF Suc.prems(1)])
  have fwd: "\<not> T (times_asked s) - timSt s < 0" using Suc.prems(2) by (simp add: not_less)
  show ?case
  proof (cases "due s (T (times_asked s))")
    case True
    let ?t = "s\<lparr>calls := calls s @ [Time, Print ''Reaminder:'', Print (msg s @ ''\<newline>'')], timeVLD := 0, msg := []\<rparr>"
    have "chkAlarm E s = (Inr (), ?t)"
      using True Suc.prems(3) now by (simp add: chkAlarm_def due_def Let_def)
    moreover have "shdo (replicate k chkAlarm) E ?t = (Inr (), ?t)" by (rule checks_idle) simp
    moreover have "\<exists>i < Suc k. due s (T (times_asked s + i))" using True by (intro exI [of _ 0]) simp
    ultimately show ?thesis by (simp add: prints_def)
  next
    case False
    let ?t = "s\<lparr>calls := calls s @ [Time]\<rparr>"
    have step: "chkAlarm E s = (Inr (), ?t)"
      using False Suc.prems(3) now fwd by (simp add: chkAlarm_def due_def Let_def)
    have ex: "(\<exists>i < Suc k. due s (T (times_asked s + i))) \<longleftrightarrow> (\<exists>i < k. due s (T (Suc (times_asked s) + i)))"
      using False by (simp add: Ex_less_Suc2)
    have "times_asked ?t = Suc (times_asked s)" "prints ?t = prints s" "due ?t = due s"
      by (simp_all add: times_asked_def prints_def due_def fun_eq_iff)
    with Suc.IH [of ?t] Suc.prems step ex show ?thesis by (simp cong: if_cong)
  qed
qed simp

text \<open>C23. A reminder of \<open>n\<close> is shown exactly once: by the first check of the clock that finds \<open>n\<close> seconds
  passed since it was set, with the words given and blanks for the quotation marks.\<close>

theorem remindme_shown_once:
  assumes "clocked E T" "\<forall>k. T (times_asked s) \<le> T k"
    and "timeVLD s = 0" "msg s = []" "us \<noteq> []" "length (spoken us) < 500"
  shows "\<exists>t. shbind (setAlarm (Str ''remindme'' # Str n # map Str us @ rest) (2 + length us)) (\<lambda>_. shdo (replicate k chkAlarm)) E s =
      (Inr (), t) \<and>
    prints t = prints s @
      (if \<exists>i < k. strtol n \<le> T (Suc (times_asked s) + i) - T (times_asked s)
       then [Print ''Reaminder:'', Print (replaceAll (spoken us) (CHR 0x22) (CHR '' '') @ ''\<newline>'')] else [])"
proof -
  define t0 where "t0 = s\<lparr>timeVLD := 1, waitFor := strtol n, calls := calls s @ [Time], timSt := T (times_asked s),
       msg := replaceAll (spoken us) (CHR 0x22) (CHR '' '')\<rparr>"
  have set: "setAlarm (Str ''remindme'' # Str n # map Str us @ rest) (2 + length us) E s = (Inr (), t0)"
    using setAlarm_sets [OF assms(3-6)] clocked_time [OF assms(1)] by (simp add: t0_def)
  have t0: "times_asked t0 = Suc (times_asked s)" "prints t0 = prints s" "msg t0 = replaceAll (spoken us) (CHR 0x22) (CHR '' '')"
    "timSt t0 = T (times_asked s)" "timeVLD t0 = 1" "\<And>u. due t0 u \<longleftrightarrow> strtol n \<le> u - T (times_asked s)"
    by (simp_all add: t0_def times_asked_def prints_def due_def)
  from checks_pending [OF assms(1), of t0 k] assms(2)
  show ?thesis unfolding t0 shbind_Inr [of "setAlarm _ _", OF set] by simp
qed

definition ticking :: os where
  "ticking = \<lparr>ret = (\<lambda>cs. int (length (filter (\<lambda>c. c = Time) (butlast cs)))), aux = (\<lambda>_. 0), txt_of = (\<lambda>_. None),
     stat_of = (\<lambda>_. \<lparr>sb_mode = 0, sb_nlink = 0, sb_uid = 0, sb_gid = 0, sb_length = 0, sb_mtime = 0, sb_blocks = 0\<rparr>),
     junk = (\<lambda>_. 0), rounds = 1\<rparr>"

theorem remindme_shown_once_witness:
  "\<exists>t. shbind (setAlarm [Str ''remindme'', Str ''3'', Str ''hi''] 3) (\<lambda>_. shdo (replicate 5 chkAlarm)) ticking blank_sh =
      (Inr (), t) \<and> prints t = [Print ''Reaminder:'', Print ''hi \<newline>'']"
proof -
  have c: "clocked ticking int" by (simp add: clocked_def ticking_def)
  have n: "strtol ''3'' = 3" by code_simp
  have b: "times_asked blank_sh = 0" "prints blank_sh = []" by (simp_all add: blank_sh_def times_asked_def prints_def)
  have "\<exists>i < 5. (3 :: int) \<le> int (Suc 0 + i) - int 0" by (intro exI [of _ 2]) simp
  with remindme_shown_once [OF c, of blank_sh "[''hi'']" "''3''" "[]" 5] n b show ?thesis
    by (simp add: spoken_def replaceAll_def blank_sh_def)
qed

end
