(* ===== verification/ShRun.thy ===== *)
theory ShRun
  imports ShCommands
begin

text \<open>
  \<open>wonderShell.c\<close>, part 5: redirection, pipelines, the splitting of a line into commands, and the main loop.
\<close>

section \<open>Redirection\<close>

definition O_OUT :: string where "O_OUT = ''O_WRONLY|O_CREAT''"
definition O_APP :: string where "O_APP = ''O_WRONLY|O_APPEND|O_CREAT''"
definition O_IN :: string where "O_IN = ''O_RDONLY''"

definition outputFileAt :: "argv \<Rightarrow> nat \<Rightarrow> nat \<Rightarrow> int \<Rightarrow> argv shm" where
  "outputFileAt ws len n appendOrNot =
     shbind (argAt ws (n + 1)) (\<lambda>target.
     shbind (sysc (Openf target (if appendOrNot = 1 then O_APP else O_OUT))) (\<lambda>fd.
       if fd < 0 then shbind (say (''Cannot open file '' @ target @ ''.\<newline>'')) (\<lambda>_. shret ws)
       else
         shbind (sysc (Dup2 fd 1)) (\<lambda>r.
           if r \<noteq> 1 then
             shbind (say (''Error in shifting the filepointer to '' @ target @ ''.\<newline>'')) (\<lambda>_. shret ws)
           else
             shbind (executeInbuild ws (len - 2)) (\<lambda>ws1.
             shbind (shdo [does (Closefd fd), does (Freopen ''/dev/tty'' ''w'')]) (\<lambda>_. shret ws1)))))"

definition inputFileFrom :: "argv \<Rightarrow> nat \<Rightarrow> nat \<Rightarrow> argv shm" where
  "inputFileFrom ws len n =
     (if n = len - 1 then
        shbind (say ''Missing Input file name;\<newline>Usage-> python test_code.py < input.txt \<newline>'') (\<lambda>_. shret ws)
      else
        shbind (put_null ws n) (\<lambda>ws1.
        shbind (argAt ws1 (n + 1)) (\<lambda>target.
        shbind (sysc (Openf target O_IN)) (\<lambda>fd.
        shbind (if fd = - 1 then does (Perror ''Failed to open file'') else shret ()) (\<lambda>_.
        shbind (does (Closefd 0)) (\<lambda>_.
        shbind (sysc (Dup2 fd 0)) (\<lambda>r.
        shbind (if r = - 1 then does (Perror ''dup2 fail'') else shret ()) (\<lambda>_.
        shbind (shdo [does (Closefd fd), say ''Here\<newline>'']) (\<lambda>_. shret ws1)))))))))"

text \<open>The loop of \<open>chkFile\<close> over the words; the result is the array and whether anything was redirected, or
  nothing when \<open>chkFile\<close> returns early.\<close>

fun chk_words :: "nat list \<Rightarrow> nat \<Rightarrow> argv \<Rightarrow> bool \<Rightarrow> (argv \<times> bool) option shm" where
  "chk_words [] len ws redirected = shret (Some (ws, redirected))"
| "chk_words (n # ns) len ws redirected =
     shbind (argAt ws n) (\<lambda>w.
       if w = ''<'' then
         shbind (argAt ws (n + 1)) (\<lambda>f.
         shbind (say (''InputFile redirection '' @ f @ ''.\<newline>'')) (\<lambda>_.
         shbind (inputFileFrom ws len n) (\<lambda>ws1. chk_words ns len ws1 True)))
       else if w = ''>'' then
         (if n = len - 1 then
            shbind (say ''Output file is missing.\<newline> Usage -> command > filename.txt\<newline>'') (\<lambda>_. shret None)
          else
            shbind (argAt ws (n + 1)) (\<lambda>f.
            shbind (say (''Redirected to file '' @ f @ ''!!\<newline>'')) (\<lambda>_.
            shbind (outputFileAt ws len n 0) (\<lambda>ws1. chk_words ns len ws1 True))))
       else if w = ''>>'' then
         (if n = len - 1 then
            shbind (say ''Output file is missing.\<newline> Usage -> command >> filename.txt\<newline>'') (\<lambda>_. shret None)
          else
            shbind (argAt ws (n + 1)) (\<lambda>f.
            shbind (say (''Appended to file '' @ f @ ''!!\<newline>'')) (\<lambda>_.
            shbind (outputFileAt ws len n 1) (\<lambda>ws1. chk_words ns len ws1 True))))
       else chk_words ns len ws redirected)"

definition chkFile :: "argv \<Rightarrow> nat \<Rightarrow> unit shm" where
  "chkFile ws len =
     shbind (chk_words [0..<len] len ws False) (\<lambda>z.
       case z of
         None \<Rightarrow> shret ()
       | Some (ws1, redirected) \<Rightarrow>
           shbind (if \<not> redirected then executeInbuild ws1 len else shret ws1) (\<lambda>ws2.
           shbind (executeInbuild ws2 len) (\<lambda>_. shret ())))"

section \<open>Pipelines\<close>

record command =
  argv_of :: argv
  len_of :: nat

text \<open>\<open>chkInpt\<close> returns nothing when the word is not \<open>ls\<close>; its caller then reads an unset value.\<close>

definition chkInpt :: "argv \<Rightarrow> nat \<Rightarrow> int shm" where
  "chkInpt ws len = shbind (argAt ws 0) (\<lambda>w. if w = ''ls'' then shret 1 else unset_int)"

definition connect :: "int \<Rightarrow> int \<Rightarrow> unit shm" where
  "connect inp out =
     shdo [if inp \<noteq> 0 then shdo [does (Dup2 inp 0), does (Closefd inp)] else shret (),
           if out \<noteq> 1 then shdo [does (Dup2 out 1), does (Closefd out)] else shret ()]"

definition executeCommand :: "int \<Rightarrow> int \<Rightarrow> command \<Rightarrow> int shm" where
  "executeCommand inp out cmd =
     shbind (chkInpt (argv_of cmd) (len_of cmd)) (\<lambda>k.
       if k = 1 then
         shbind (connect inp out) (\<lambda>_. shbind (chkFile (argv_of cmd) (len_of cmd)) (\<lambda>_. shret 1))
       else
         shbind (sysc Fork) (\<lambda>p.
           if p = 0 then
             shbind (connect inp out) (\<lambda>_.
             shbind (execvp (argv_of cmd)) (\<lambda>_.
             shbind (does (Eprint ''Error executing the intermidiate command\<newline>'')) (\<lambda>_. halts (Exits 1))))
           else shret p))"

text \<open>The loop of \<open>fork_pipes\<close>: the result is the reading end of the last pipe.\<close>

fun pipe_stages :: "command list \<Rightarrow> int \<Rightarrow> int shm" where
  "pipe_stages [] inp = shret inp"
| "pipe_stages (c # cs) inp =
     shbind (sys2 Mkpipe) (\<lambda>(fd0, fd1).
     shbind (executeCommand inp fd1 c) (\<lambda>_.
     shbind (does (Closefd fd1)) (\<lambda>_. pipe_stages cs fd0)))"

text \<open>The child that runs the last command returns into the loop of the shell, as does the parent.\<close>

definition last_stage :: "command \<Rightarrow> int \<Rightarrow> unit shm" where
  "last_stage cmd inp =
     shbind (if inp \<noteq> 0 then does (Dup2 inp 0) else shret ()) (\<lambda>_.
     shbind (sysc Fork) (\<lambda>p.
       if p = 0 then chkFile (argv_of cmd) (len_of cmd) else wait_for 0 p))"

definition fork_pipes :: "command list \<Rightarrow> unit shm" where
  "fork_pipes cmd =
     (if cmd = [] then halts Undef else shbind (pipe_stages (butlast cmd) 0) (last_stage (last cmd)))"

definition BUFFERSIZE_TOKEN :: nat where "BUFFERSIZE_TOKEN = 64"
definition DILIMITOR_WORD :: "char list" where "DILIMITOR_WORD = [CHR '' '', CHR 0x09, newline, CHR 0x0D]"
definition DILIMITOR_COMMAND :: "char list" where "DILIMITOR_COMMAND = [CHR '';'', newline]"
definition DILIMITOR_PIPE :: "char list" where "DILIMITOR_PIPE = [CHR ''|'', newline]"

text \<open>The words, a null, and the rest of a buffer whose size is a multiple of 64.\<close>

definition pipe_split_line :: "string \<Rightarrow> command" where
  "pipe_split_line line =
     (let ws = tokens DILIMITOR_WORD line;
          n = length ws;
          bufsize = BUFFERSIZE_TOKEN * (n div BUFFERSIZE_TOKEN + 1)
      in \<lparr>argv_of = map Str ws @ Null # replicate (bufsize - n - 1) Junk, len_of = n\<rparr>)"

text \<open>At most 100 parts fit \<open>list\<close> and \<open>cmd\<close>; a part of the line without a pipe is passed over.\<close>

fun pipe_commands :: "string list \<Rightarrow> int shm" where
  "pipe_commands [] = shret 1"
| "pipe_commands (t # ts) =
     (let parts = tokens DILIMITOR_PIPE t;
          counter = length parts
      in if counter > 100 then halts Undef
         else
           shbind (if counter > 1 then fork_pipes (map pipe_split_line parts) else shret ()) (\<lambda>_.
           pipe_commands ts))"

definition pipe_split_command :: "string \<Rightarrow> int shm" where
  "pipe_split_command line = pipe_commands (tokens DILIMITOR_COMMAND line)"

definition HandlingPiping :: "string \<Rightarrow> unit shm" where
  "HandlingPiping str = shbind (pipe_split_command str) (\<lambda>_. shret ())"

section \<open>Lines\<close>

text \<open>The 50 entries of \<open>argumentList\<close>, of which the words fill the first ones.\<close>

definition argument_list :: "string list \<Rightarrow> argv" where
  "argument_list ws = map Str ws @ replicate (50 - length ws) Junk"

fun run_commands :: "string list \<Rightarrow> unit shm" where
  "run_commands [] = shret ()"
| "run_commands (t # ts) =
     (let ws = tokens [CHR '' '', newline] t
      in if length ws > 50 then halts Undef
         else shbind (chkFile (argument_list ws) (length ws)) (\<lambda>_. run_commands ts))"

definition splitcommands :: "string \<Rightarrow> unit shm" where
  "splitcommands str =
     (if CHR ''|'' \<in> set str then HandlingPiping str else run_commands (tokens '';'' str))"

section \<open>The main loop\<close>

text \<open>\<open>read_command\<close> calls itself again when there is no line to read.\<close>

fun read_again :: "nat \<Rightarrow> string shm" where
  "read_again 0 = halts Still_waiting"
| "read_again (Suc n) =
     shbind (syst Getline) (\<lambda>l.
       case l of
         Some command \<Rightarrow> shret command
       | None \<Rightarrow> shbind (say ''Cannot Read pls enter again.\<newline>'') (\<lambda>_. read_again n))"

definition read_command :: "string shm" where
  "read_command E s = read_again (rounds E) E s"

definition getUserName :: "string shm" where
  "getUserName =
     shbind (sysc Geteuid) (\<lambda>uid. shbind (syst (Getpwuid uid)) (\<lambda>pw.
       shret (case pw of Some name \<Rightarrow> name | None \<Rightarrow> [])))"

text \<open>A colour between escape sequences: \<open>YEL\<close>, \<open>RESET\<close>, \<open>BLU\<close>.\<close>

definition colour :: "string \<Rightarrow> string" where
  "colour n = CHR 0x1B # ''['' @ n @ ''m''"

definition prompt :: "string \<Rightarrow> unit shm" where
  "prompt cwd1 =
     shbind (look (\<lambda>s. (userName s, deviceName s))) (\<lambda>(user, device).
       say (''<'' @ colour ''33'' @ user @ ''@'' @ device @ colour ''0'' @ '':'' @ colour ''34'' @ ''~'' @ cwd1 @
         colour ''0'' @ ''>\<newline>''))"

text \<open>One round of the loop of \<open>main\<close>.\<close>

definition shell_round :: "unit shm" where
  "shell_round =
     shbind (change (\<lambda>s. s\<lparr>Childpid := 0\<rparr>)) (\<lambda>_.
     shbind (sysc (Dup 0)) (\<lambda>a.
     shbind (sysc (Dup 1)) (\<lambda>b.
     shbind (syst Getcwd) (\<lambda>w.
     shbind (some_or_undef w) (\<lambda>shellsWD.
     shbind (look currentWD) (\<lambda>home.
     shbind (if starts_with home shellsWD then some_or_undef (replaceWord shellsWD home []) else shret shellsWD) (\<lambda>cwd1.
     shbind (prompt cwd1) (\<lambda>_.
     shbind read_command (\<lambda>args.
     shbind chkAlarm (\<lambda>_.
       if args = ''quit\<newline>'' then halts (Exits 1)
       else
         shdo [splitcommands args, update_job_status, does (Dup2 a 0), does (Dup2 b 1), does (Closefd a),
               does (Closefd b)]))))))))))"

fun shell_rounds :: "nat \<Rightarrow> unit shm" where
  "shell_rounds 0 = halts Still_waiting"
| "shell_rounds (Suc n) = shbind shell_round (\<lambda>_. shell_rounds n)"

definition shell_main :: "unit shm" where
  "shell_main =
     shbind (sysc Getpid) (\<lambda>me.
     shbind (change (\<lambda>s. s\<lparr>shell_pid := me\<rparr>)) (\<lambda>_.
     shbind (say (''Shell initialized with Process id : '' @ show_int me @ ''\<newline>'')) (\<lambda>_.
     shbind (syst Getcwd) (\<lambda>w.
     shbind (change (\<lambda>s. s\<lparr>currentWD := (case w of Some d \<Rightarrow> d | None \<Rightarrow> [])\<rparr>)) (\<lambda>_.
     shbind (syst Gethostname) (\<lambda>h.
     shbind (change (\<lambda>s. s\<lparr>deviceName := (case h of Some d \<Rightarrow> d | None \<Rightarrow> [])\<rparr>)) (\<lambda>_.
     shbind getUserName (\<lambda>u.
     shbind (change (\<lambda>s. s\<lparr>userName := u\<rparr>)) (\<lambda>_.
     shbind (shdo [does (Signal SIGINT ''ctrlC''), does (Signal SIGTSTP ''ctrlZ'')]) (\<lambda>_.
     (\<lambda>E s. shell_rounds (rounds E) E s)))))))))))"


section \<open>Lines and words\<close>

text \<open>A word that holds no character the shell splits at, and a line of commands.\<close>

definition plain_word :: "string \<Rightarrow> bool" where
  "plain_word w \<longleftrightarrow> w \<noteq> [] \<and> set w \<inter> {CHR '' '', newline, CHR '';'', CHR ''|''} = {}"

definition line_of :: "string list list \<Rightarrow> string" where
  "line_of wss = join '';'' (map (join '' '') wss) @ [newline]"

definition plain_line :: "string list list \<Rightarrow> bool" where
  "plain_line wss \<longleftrightarrow> wss \<noteq> [] \<and> list_all (\<lambda>ws. ws \<noteq> [] \<and> length ws \<le> 50 \<and> list_all plain_word ws) wss"

definition run_words :: "string list \<Rightarrow> unit shm" where
  "run_words ws = chkFile (argument_list ws) (length ws)"

lemma plain_words:
  assumes "list_all plain_word ws"
  shows "tokens [CHR '' '', newline] (join '' '' ws) = ws"
    and "CHR '';'' \<notin> set (join '' '' ws)" and "CHR ''|'' \<notin> set (join '' '' ws)"
proof -
  have w: "w \<in> set ws \<Longrightarrow> plain_word w" for w using assms by (simp add: list_all_iff)
  show "tokens [CHR '' '', newline] (join '' '' ws) = ws"
    by (rule tokens_join) (use w in \<open>auto simp: plain_word_def\<close>)
  show "CHR '';'' \<notin> set (join '' '' ws)" "CHR ''|'' \<notin> set (join '' '' ws)"
    using set_join [of "'' ''" ws] w by (auto simp: plain_word_def)
qed

lemma run_commands_cong:
  "list_all2 (\<lambda>t ws. tokens [CHR '' '', newline] t = ws \<and> length ws \<le> 50) ts wss \<Longrightarrow>
   run_commands ts = shdo (map run_words wss)"
  by (induction rule: list_all2_induct) (simp_all add: run_words_def not_less Let_def)

lemma join_not_Nil: "ws \<noteq> [] \<Longrightarrow> list_all plain_word ws \<Longrightarrow> join sep ws \<noteq> []"
  by (induction ws rule: induct_list012) (auto simp: plain_word_def)

lemma plain_line_parts:
  assumes "plain_line wss"
  shows "CHR ''|'' \<notin> set (line_of wss)"
    and "list_all2 (\<lambda>t ws. tokens [CHR '' '', newline] t = ws \<and> length ws \<le> 50) (tokens '';'' (line_of wss)) wss"
proof -
  obtain us u where wss: "wss = us @ [u]" using assms by (metis plain_line_def rev_exhaust)
  have ok: "\<And>ws. ws \<in> set wss \<Longrightarrow> ws \<noteq> [] \<and> length ws \<le> 50 \<and> list_all plain_word ws"
    using assms by (simp add: plain_line_def list_all_iff)
  define ts where "ts = map (join '' '') us @ [join '' '' u @ [newline]]"
  have line: "line_of wss = join '';'' ts"
    by (simp add: line_of_def wss ts_def join_snoc)
  have t: "p \<noteq> [] \<and> set p \<inter> set '';'' = {} \<and> CHR ''|'' \<notin> set p" if "p \<in> set ts" for p
    using that ok plain_words(2,3) join_not_Nil by (auto simp: ts_def wss)
  show "CHR ''|'' \<notin> set (line_of wss)"
    unfolding line using set_join [of "'';''" ts] t by auto
  have "tokens '';'' (line_of wss) = ts"
    unfolding line by (rule tokens_join) (use t in auto)
  moreover have "list_all2 (\<lambda>t ws. tokens [CHR '' '', newline] t = ws \<and> length ws \<le> 50) ts wss"
    unfolding ts_def wss
    by (intro list_all2_appendI) (use ok plain_words(1) in \<open>auto simp: wss list_all2_map1 tokens_snoc list_all2_same\<close>)
  ultimately show "list_all2 (\<lambda>t ws. tokens [CHR '' '', newline] t = ws \<and> length ws \<le> 50) (tokens '';'' (line_of wss)) wss" by simp
qed

lemma splitcommands_plain: "plain_line wss \<Longrightarrow> splitcommands (line_of wss) = shdo (map run_words wss)"
  using plain_line_parts [of wss] by (simp add: splitcommands_def run_commands_cong)

section \<open>Commands without redirection\<close>

definition redirects :: "string list" where
  "redirects = [''<'', ''>'', ''>>'']"

lemma chk_words_plain:
  "list_all (\<lambda>n. n < length al \<and> (\<exists>w. al ! n = Str w \<and> w \<notin> set redirects)) ns \<Longrightarrow>
   chk_words ns len al r = shret (Some (al, r))"
proof (induction ns)
  case (Cons n ns)
  then obtain w where "n < length al" "al ! n = Str w" "w \<notin> set redirects" by auto
  then have "chk_words (n # ns) len al r = chk_words ns len al r" by (intro ext) (auto simp: redirects_def)
  with Cons show ?case by simp
qed simp

lemma argument_list_nth: "n < length ws \<Longrightarrow> argument_list ws ! n = Str (ws ! n)"
  and argument_list_length: "length ws \<le> length (argument_list ws)"
  by (simp_all add: argument_list_def nth_append)

text \<open>A command without redirection is executed where nothing was redirected, and again behind the test.\<close>

lemma run_words_plain:
  assumes "set ws \<inter> set redirects = {}"
  shows "run_words ws =
    shbind (executeInbuild (argument_list ws) (length ws)) (\<lambda>al.
    shbind (executeInbuild al (length ws)) (\<lambda>_. shret ()))"
proof -
  have "list_all (\<lambda>n. n < length (argument_list ws) \<and> (\<exists>w. argument_list ws ! n = Str w \<and> w \<notin> set redirects)) [0..<length ws]"
    unfolding list_all_iff
  proof
    fix n
    assume "n \<in> set [0..<length ws]"
    then have n: "n < length ws" by simp
    have "ws ! n \<notin> set redirects" using assms nth_mem [OF n] by blast
    with n argument_list_length [of ws]
    show "n < length (argument_list ws) \<and> (\<exists>w. argument_list ws ! n = Str w \<and> w \<notin> set redirects)"
      by (intro conjI exI [of _ "ws ! n"]) (auto simp: argument_list_nth)
  qed
  from chk_words_plain [OF this] show ?thesis by (simp add: run_words_def chkFile_def)
qed

lemma echo_words:
  "drop j al = map Str us @ rest \<Longrightarrow>
   echo_from al [j..<j + length us] E s = (Inr (), s\<lparr>calls := calls s @ map (\<lambda>u. Print (u @ '' '')) us @ [Print ''\<newline>'']\<rparr>)"
proof (induction us arbitrary: j s)
  case (Cons u us)
  have j: "j < length al" using Cons.prems by (metis drop_all list.distinct(1) append_Cons list.simps(9) not_le)
  then have w: "al ! j = Str u" "drop (Suc j) al = map Str us @ rest"
    using Cons.prems by (simp_all flip: Cons_nth_drop_Suc)
  have r: "[j..<j + length (u # us)] = j # [Suc j..<Suc j + length us]"
    by (simp add: upt_rec)
  show ?case unfolding r using j w(1) Cons.IH [OF w(2)] by (simp del: upt_Suc)
qed simp

definition echo_calls :: "string list \<Rightarrow> call list" where
  "echo_calls us = Waitpid (- 1) WNOHANG # map (\<lambda>u. Print (u @ '' '')) us @ [Print ''\<newline>'']"

lemma echo_part:
  assumes "ret E (calls s @ [Waitpid (- 1) WNOHANG]) \<le> 0"
  shows "executeInbuild (argument_list (''echo'' # us @ rest)) (Suc (length us)) E s =
    (Inr (argument_list (''echo'' # us @ rest)), s\<lparr>calls := calls s @ echo_calls us\<rparr>)"
proof -
  let ?al = "argument_list (''echo'' # us @ rest)"
  have d: "drop 1 ?al = map Str us @ (map Str rest @ replicate (50 - length (''echo'' # us @ rest)) Junk)"
    by (simp add: argument_list_def)
  have c: "checkChild E s = (Inr (), s\<lparr>calls := calls s @ [Waitpid (- 1) WNOHANG]\<rparr>)"
    using assms by (simp add: checkChild_def)
  have e: "argAt ?al 0 = shret ''echo''" by (simp add: argument_list_def)
  have l: "[1..<Suc (length us)] = [1..<1 + length us]" by simp
  show ?thesis
    unfolding executeInbuild_def run_word_def e l using c echo_words [OF d]
    by (simp add: keep_args_def echo_calls_def del: upt_Suc)
qed

section \<open>Pipelines in the parent and in a child\<close>

definition asked :: "call \<Rightarrow> call list \<Rightarrow> nat" where
  "asked c cs = length (filter (\<lambda>x. x = c) cs)"

lemma asked_simps [simp]: "asked c [] = 0" "asked c (d # cs) = (if d = c then Suc (asked c cs) else asked c cs)"
  "asked c (cs @ ds) = asked c cs + asked c ds"
  by (simp_all add: asked_def)

text \<open>A system on which the \<open>k\<close>-th pipe has the ends \<open>R k\<close> and \<open>W k\<close> and the \<open>k\<close>-th \<open>fork\<close> returns \<open>F k\<close>.\<close>

definition pipe_system :: "os \<Rightarrow> (nat \<Rightarrow> int) \<Rightarrow> (nat \<Rightarrow> int) \<Rightarrow> (nat \<Rightarrow> int) \<Rightarrow> bool" where
  "pipe_system E R W F \<longleftrightarrow> (\<forall>cs. ret E (cs @ [Mkpipe]) = R (asked Mkpipe cs) \<and> aux E (cs @ [Mkpipe]) = W (asked Mkpipe cs) \<and>
     ret E (cs @ [Fork]) = F (asked Fork cs))"

definition program :: "string list \<Rightarrow> argv \<Rightarrow> command" where
  "program ws rest = \<lparr>argv_of = map Str ws @ Null # rest, len_of = length ws\<rparr>"

text \<open>A stage stays in the shell when its word is \<open>ls\<close>, and also when the value that \<open>chkInpt\<close> does not return for
  any other word happens to be 1.\<close>

definition in_shell :: "os \<Rightarrow> call list \<Rightarrow> string list \<Rightarrow> bool" where
  "in_shell E cs ws \<longleftrightarrow> hd ws = ''ls'' \<or> junk E cs = 1"

definition conn_calls :: "int \<Rightarrow> int \<Rightarrow> call list" where
  "conn_calls inp out =
     (if inp \<noteq> 0 then [Dup2 inp 0, Closefd inp] else []) @ (if out \<noteq> 1 then [Dup2 out 1, Closefd out] else [])"

text \<open>What the shell itself does for \<open>n\<close> stages that it forks.\<close>

definition parent_calls :: "(nat \<Rightarrow> int) \<Rightarrow> nat \<Rightarrow> call list" where
  "parent_calls W n = concat (map (\<lambda>k. [Mkpipe, Fork, Closefd (W k)]) [0..<n])"

text \<open>The stages before: each is forked, and this process is the parent (a \<open>fork\<close> that fails is passed over).\<close>

definition forked_before :: "os \<Rightarrow> (nat \<Rightarrow> int) \<Rightarrow> (nat \<Rightarrow> int) \<Rightarrow> command list \<Rightarrow> bool" where
  "forked_before E W F pre \<longleftrightarrow>
     (\<forall>k < length pre. F k \<noteq> 0 \<and> (\<exists>ws rest. pre ! k = program ws rest \<and> ws \<noteq> [] \<and> \<not> in_shell E (parent_calls W k @ [Mkpipe]) ws))"

lemma exec_args_program [simp]: "exec_args (map Str ws @ Null # rest) = shret ws"
  by (induction ws) simp_all

lemma connect_calls: "connect inp out E s = (Inr (), s\<lparr>calls := calls s @ conn_calls inp out\<rparr>)"
  by (simp add: connect_def conn_calls_def)

lemma pipe_stages_append: "pipe_stages (pre @ post) inp = shbind (pipe_stages pre inp) (pipe_stages post)"
  by (induction pre arbitrary: inp) (simp_all add: shbind_assoc case_prod_beta')

lemma parent_calls_Suc: "parent_calls W (Suc n) = parent_calls W n @ [Mkpipe, Fork, Closefd (W n)]"
  by (simp add: parent_calls_def)

lemma asked_parent [simp]: "asked Mkpipe (parent_calls W n) = n" "asked Fork (parent_calls W n) = n"
  by (induction n) (simp_all add: parent_calls_Suc, simp_all add: parent_calls_def)

lemma execvp_program:
  "ws \<noteq> [] \<Longrightarrow> execvp (map Str ws @ Null # rest) = shbind (sysc (Execvp (hd ws) ws)) (\<lambda>r. if r = - 1 then shret () else halts Replaced)"
proof -
  assume "ws \<noteq> []"
  then have "argAt (map Str ws @ Null # rest) 0 = shret (hd ws)" by (cases ws) simp_all
  then show ?thesis unfolding execvp_def by (intro ext) simp
qed

text \<open>One stage, whoever runs it.\<close>

lemma stage:
  assumes "pipe_system E R W F" "ws \<noteq> []"
  shows "executeCommand inp out (program ws rest) E s =
    (if in_shell E (calls s) ws
     then shbind (chkFile (map Str ws @ Null # rest) (length ws)) (\<lambda>_. shret 1) E (s\<lparr>calls := calls s @ conn_calls inp out\<rparr>)
     else if F (asked Fork (calls s)) = 0
     then
       (let xs = calls s @ Fork # conn_calls inp out @ [Execvp (hd ws) ws]
        in if ret E xs = - 1 then (Inl (Exits 1), s\<lparr>calls := xs @ [Eprint ''Error executing the intermidiate command\<newline>'']\<rparr>)
           else (Inl Replaced, s\<lparr>calls := xs\<rparr>))
     else (Inr (F (asked Fork (calls s))), s\<lparr>calls := calls s @ [Fork]\<rparr>))"
proof -
  have k: "chkInpt (map Str ws @ Null # rest) (length ws) E s = (Inr (if hd ws = ''ls'' then 1 else junk E (calls s)), s)"
    using assms(2) by (cases ws) (simp_all add: chkInpt_def)
  have f: "ret E (calls s @ [Fork]) = F (asked Fork (calls s))" using assms(1) by (simp add: pipe_system_def)
  show ?thesis
    using k f by (auto simp: executeCommand_def program_def in_shell_def connect_calls execvp_program [OF assms(2)] Let_def)
qed

lemma pipe_made:
  assumes "pipe_system E R W F"
  shows "pipe_stages (c # cs) inp E s =
    shbind (executeCommand inp (W (asked Mkpipe (calls s))) c) (\<lambda>_. shbind (does (Closefd (W (asked Mkpipe (calls s)))))
      (\<lambda>_. pipe_stages cs (R (asked Mkpipe (calls s))))) E (s\<lparr>calls := calls s @ [Mkpipe]\<rparr>)"
  using assms by (simp add: pipe_system_def)

definition read_end :: "(nat \<Rightarrow> int) \<Rightarrow> nat \<Rightarrow> int" where
  "read_end R n = (if n = 0 then 0 else R (n - 1))"

lemma stages_forked:
  assumes "pipe_system E R W F" "forked_before E W F pre" "calls s = []"
  shows "pipe_stages pre 0 E s = (Inr (read_end R (length pre)), s\<lparr>calls := parent_calls W (length pre)\<rparr>)"
  using assms(2)
proof (induction pre rule: rev_induct)
  case Nil
  with assms(3) show ?case by (simp add: parent_calls_def read_end_def)
next
  case (snoc c pre)
  let ?n = "length pre"
  let ?t = "s\<lparr>calls := parent_calls W ?n\<rparr>"
  have at: "F k \<noteq> 0 \<and> (\<exists>ws rest. (pre @ [c]) ! k = program ws rest \<and> ws \<noteq> [] \<and> \<not> in_shell E (parent_calls W k @ [Mkpipe]) ws)"
    if "k < Suc ?n" for k
    using snoc.prems that by (simp add: forked_before_def)
  have "forked_before E W F pre" unfolding forked_before_def
  proof (intro allI impI)
    show "F k \<noteq> 0 \<and> (\<exists>ws rest. pre ! k = program ws rest \<and> ws \<noteq> [] \<and> \<not> in_shell E (parent_calls W k @ [Mkpipe]) ws)"
      if "k < ?n" for k
      using at [of k] that by (simp add: nth_append)
  qed
  note IH = snoc.IH [OF this]
  obtain ws rest where c: "c = program ws rest" "ws \<noteq> []" "\<not> in_shell E (parent_calls W ?n @ [Mkpipe]) ws" "F ?n \<noteq> 0"
    using at [of ?n] by auto
  have "pipe_stages [c] (read_end R ?n) E ?t = (Inr (R ?n), ?t\<lparr>calls := parent_calls W (Suc ?n)\<rparr>)"
    using c stage [OF assms(1) c(2), of "read_end R ?n" "W ?n" rest "?t\<lparr>calls := calls ?t @ [Mkpipe]\<rparr>"]
    unfolding pipe_made [OF assms(1)] by (simp add: parent_calls_Suc)
  with IH show ?case by (simp add: pipe_stages_append read_end_def)
qed

text \<open>C18. In a pipeline whose stages so far were forked, the shell has made one pipe and one child for each and closed its
  writing end. The next stage, when it is not the last, is forked unless its word is \<open>ls\<close> or the value that \<open>chkInpt\<close>
  leaves unset is 1. The child reads from the pipe made for the stage before it (the first stage from the standard
  input), writes to the pipe made for its own stage, and becomes its program with its words, or ends with a message
  when it cannot; the parent closes the writing end and goes on with the reading end as input. A stage that is not
  forked makes the shell itself read and write the pipes, and execute the command in place.\<close>

theorem pipeline_connects:
  assumes "pipe_system E R W F" "forked_before E W F pre" "ws \<noteq> []" "post \<noteq> []" "calls s = []" "n = length pre"
  shows "fork_pipes (pre @ program ws rest # post) E s =
    (let inp = read_end R n; out = W n; cs = parent_calls W n @ [Mkpipe];
         go_on = shbind (pipe_stages (butlast post) (R n)) (last_stage (last post))
     in if in_shell E cs ws
        then shbind (chkFile (map Str ws @ Null # rest) (length ws)) (\<lambda>_. shbind (does (Closefd out)) (\<lambda>_. go_on)) E
          (s\<lparr>calls := cs @ conn_calls inp out\<rparr>)
        else if F n = 0
        then
          (let xs = cs @ Fork # conn_calls inp out @ [Execvp (hd ws) ws]
           in if ret E xs = - 1 then (Inl (Exits 1), s\<lparr>calls := xs @ [Eprint ''Error executing the intermidiate command\<newline>'']\<rparr>)
              else (Inl Replaced, s\<lparr>calls := xs\<rparr>))
        else go_on E (s\<lparr>calls := cs @ [Fork, Closefd out]\<rparr>))"
proof -
  let ?t = "s\<lparr>calls := parent_calls W n\<rparr>"
  have "fork_pipes (pre @ program ws rest # post) E s =
      shbind (pipe_stages (program ws rest # butlast post) (read_end R n)) (last_stage (last post)) E ?t"
    using assms(4,6) stages_forked [OF assms(1,2,5)]
    by (simp add: fork_pipes_def butlast_append pipe_stages_append shbind_assoc del: pipe_stages.simps)
  moreover note S = stage [OF assms(1,3), of "read_end R n" "W n" rest "?t\<lparr>calls := calls ?t @ [Mkpipe]\<rparr>"]
  ultimately show ?thesis
    unfolding shbind_def [of "pipe_stages (_ # _) _"] pipe_made [OF assms(1)]
    by (auto simp: Let_def shbind_def split: prod.splits sum.splits)
qed

definition piping :: os where
  "piping = \<lparr>ret = (\<lambda>cs. if last cs = Mkpipe then 3 + 2 * int (asked Mkpipe (butlast cs))
       else if last cs = Fork then (if asked Fork (butlast cs) = 1 then 0 else 100) else 1),
     aux = (\<lambda>cs. 4 + 2 * int (asked Mkpipe (butlast cs))), txt_of = (\<lambda>_. None),
     stat_of = (\<lambda>_. \<lparr>sb_mode = 0, sb_nlink = 0, sb_uid = 0, sb_gid = 0, sb_length = 0, sb_mtime = 0, sb_blocks = 0\<rparr>),
     junk = (\<lambda>_. 0), rounds = 1\<rparr>"

theorem pipeline_connects_witness:
  "fork_pipes [program [''cat'', ''f''] [], program [''sort''] [], program [''wc''] []] piping blank_sh =
    (Inl Replaced, blank_sh\<lparr>calls := [Mkpipe, Fork, Closefd 4, Mkpipe, Fork, Dup2 3 0, Closefd 3, Dup2 6 1, Closefd 6, Execvp ''sort'' [''sort'']]\<rparr>)"
proof -
  have p: "pipe_system piping (\<lambda>k. 3 + 2 * int k) (\<lambda>k. 4 + 2 * int k) (\<lambda>k. if k = 1 then 0 else 100)"
    by (simp add: pipe_system_def piping_def)
  have j: "junk piping cs = 0" for cs by (simp add: piping_def)
  have "\<exists>ws rest. program [''cat'', ''f''] [] = program ws rest \<and> ws \<noteq> [] \<and> \<not> in_shell piping cs ws" for cs
    by (intro exI [of _ "[''cat'', ''f'']"] exI [of _ "[]"]) (simp add: in_shell_def j)
  then have "forked_before piping (\<lambda>k. 4 + 2 * int k) (\<lambda>k. if k = 1 then 0 else 100) [program [''cat'', ''f''] []]"
    by (simp add: forked_before_def)
  from pipeline_connects [OF p this, of "[''sort'']" "[program [''wc''] []]" blank_sh "Suc 0" "[]"] show ?thesis
    by (simp add: blank_sh_def conn_calls_def parent_calls_def read_end_def in_shell_def piping_def asked_def)
qed

text \<open>A part of such a line that has no pipe is not run at all.\<close>

lemma pipe_commands_skips:
  "pipe_commands ts = pipe_commands (filter (\<lambda>t. 1 < length (tokens DILIMITOR_PIPE t)) ts)"
proof (induction ts)
  case (Cons t ts)
  then show ?case by (intro ext) (auto simp: Let_def)
qed simp

end
