(* ===== verification/ShTraces.thy ===== *)
theory ShTraces
  imports ShRun
begin

text \<open>
  What the shells do on a line, as a specification over words and system calls alone: which calls a command makes,
  as the answers of the system direct, and how the process ends. It knows no argument arrays, no buffers and no
  variables of the shell. Both versions of the shell are compared with it.
\<close>

section \<open>Processes as call sequences\<close>

text \<open>From the calls made so far, the calls made in the end, and why the process stopped when it did.\<close>

type_synonym spec = "os \<Rightarrow> call list \<Rightarrow> halt option \<times> call list"

definition emits :: "call list \<Rightarrow> spec" where
  "emits xs E cs = (None, cs @ xs)"

definition and_then :: "spec \<Rightarrow> spec \<Rightarrow> spec" where
  "and_then f g E cs = (case f E cs of (None, ds) \<Rightarrow> g E ds | (Some h, ds) \<Rightarrow> (Some h, ds))"

fun in_order :: "spec list \<Rightarrow> spec" where
  "in_order [] = emits []"
| "in_order (f # fs) = and_then f (in_order fs)"

text \<open>One child that ended in the background is collected, and reported when there is one.\<close>

definition collects :: spec where
  "collects E cs =
     (let ds = cs @ [Waitpid (- 1) 1]; a = ret E ds
      in (None, if 0 < a then ds @ [Eprint (''pid '' @ show_int a @ '' exicted Normally\<newline>'')] else ds))"

text \<open>The process becomes the program that its first word names, with all its words, or ends with a message.\<close>

definition becomes :: "string list \<Rightarrow> spec" where
  "becomes ws E cs =
     (if ws = [] then (Some Undef, cs)
      else
        (let ds = cs @ [Execvp (hd ws) ws]
         in if ret E ds = - 1 then (Some (Exits 1), ds @ [Perror ''lsh'']) else (Some Replaced, ds)))"

text \<open>The state of a child is asked for until it has ended; a first question that fails leaves it undefined.\<close>

definition awaits :: "int \<Rightarrow> spec" where
  "awaits p E cs =
     (let polled = (\<lambda>k. cs @ replicate k (Waitpid p 2))
      in if rounds E = 0 then (Some Still_waiting, cs)
         else if ret E (polled 1) = - 1 then (Some Undef, polled 1)
         else
           (case find (\<lambda>k. ret E (polled k) \<noteq> - 1 \<and> ended (aux E (polled k))) [1..<Suc (rounds E)] of
              None \<Rightarrow> (Some Still_waiting, polled (rounds E))
            | Some k \<Rightarrow> (None, polled k)))"

text \<open>A program in the foreground. There is no room for the null behind 50 words.\<close>

definition runs_program :: "string list \<Rightarrow> spec" where
  "runs_program ws E cs =
     (if 50 \<le> length ws then (Some Undef, cs)
      else
        (let ds = cs @ [Fork]; p = ret E ds
         in if p = 0 then becomes ws E ds
            else if p < 0 then (None, ds @ [Perror ''lsh''])
            else awaits p E ds))"

text \<open>A program in the background, as the first version starts it.\<close>

definition runs_background :: "string list \<Rightarrow> spec" where
  "runs_background ws E cs =
     (let ds = cs @ [Fork]; p = ret E ds
      in if p = 0 then
           (let es = ds @ [Getpid, Getpid] in becomes ws E (es @ [Print (''pid-- '' @ show_int (ret E es) @ ''\<newline>'')]))
         else if p < 0 then (None, ds @ [Getpid, Perror ''lsh''])
         else (None, ds @ [Getpid]))"

definition shows_directory :: spec where
  "shows_directory E cs =
     (let ds = cs @ [Getcwd] in case txt_of E ds of None \<Rightarrow> (Some Undef, ds) | Some d \<Rightarrow> (None, ds @ [Print (d @ ''\<newline>'')]))"

definition runs_command :: "string list \<Rightarrow> spec" where
  "runs_command ws =
     and_then collects
       (if hd ws = ''echo'' then emits (map (\<lambda>u. Print (u @ '' '')) (tl ws) @ [Print ''\<newline>''])
        else if hd ws = ''clear'' then emits [Print (CHR 0x1B # ''[H'' @ CHR 0x1B # ''[J'')]
        else if hd ws = ''pwd'' then shows_directory
        else if last ws = ''&'' then runs_background (butlast ws)
        else runs_program ws)"

section \<open>Comparing\<close>

text \<open>How a run of the shell looks from outside.\<close>

definition outcome :: "(halt + 'a) \<times> sh \<Rightarrow> halt option \<times> call list" where
  "outcome z = (case z of (Inl h, t) \<Rightarrow> (Some h, calls t) | (Inr x, t) \<Rightarrow> (None, calls t))"

lemma outcome_simps [simp]: "outcome (Inl h, t) = (Some h, calls t)" "outcome (Inr x, t) = (None, calls t)"
  by (simp_all add: outcome_def)

text \<open>A run that implements a specification, keeps an empty job table empty, and returns a value that satisfies \<open>P\<close>.\<close>

definition implements :: "('a \<Rightarrow> bool) \<Rightarrow> 'a shm \<Rightarrow> spec \<Rightarrow> bool" where
  "implements P m f \<longleftrightarrow> (\<forall>E s. ThisJobs s = [] \<longrightarrow> outcome (m E s) = f E (calls s) \<and> ThisJobs (snd (m E s)) = [] \<and>
     (\<forall>x t. m E s = (Inr x, t) \<longrightarrow> P x))"

lemma implementsI:
  assumes "\<And>E s. ThisJobs s = [] \<Longrightarrow> outcome (m E s) = f E (calls s) \<and> ThisJobs (snd (m E s)) = [] \<and> (\<forall>x t. m E s = (Inr x, t) \<longrightarrow> P x)"
  shows "implements P m f"
  using assms by (simp add: implements_def)

lemma implementsD: "implements P m f \<Longrightarrow> ThisJobs s = [] \<Longrightarrow> outcome (m E s) = f E (calls s)"
  by (simp add: implements_def)

lemma implements_bind:
  assumes "implements P m f" "\<And>x. P x \<Longrightarrow> implements Q (k x) g"
  shows "implements Q (shbind m k) (and_then f g)"
proof (rule implementsI)
  fix E :: os and s :: sh
  assume s: "ThisJobs s = []"
  note m = assms(1) [unfolded implements_def, rule_format, OF s, of E]
  show "outcome (shbind m k E s) = and_then f g E (calls s) \<and> ThisJobs (snd (shbind m k E s)) = [] \<and>
      (\<forall>x t. shbind m k E s = (Inr x, t) \<longrightarrow> Q x)"
  proof (cases "m E s")
    case (Pair r t)
    show ?thesis
    proof (cases r)
      case (Inl h)
      with Pair m have "f E (calls s) = (Some h, calls t)" "ThisJobs t = []" by simp_all
      with Pair Inl show ?thesis by (simp add: and_then_def)
    next
      case (Inr x)
      with Pair m have f: "f E (calls s) = (None, calls t)" "ThisJobs t = []" "P x" by simp_all
      from assms(2) [OF f(3), unfolded implements_def, rule_format, OF f(2), of E] Pair Inr f(1)
      show ?thesis by (simp add: and_then_def)
    qed
  qed
qed

lemma implements_shret: "P x \<Longrightarrow> implements P (shret x) (emits [])"
  by (rule implementsI) (simp add: emits_def)

lemma and_then_emits [simp]: "and_then f (emits []) = f"
  by (intro ext) (auto simp: and_then_def emits_def split: prod.splits option.splits)

lemma and_then_assoc: "and_then (and_then f g) h = and_then f (and_then g h)"
  by (intro ext) (auto simp: and_then_def split: prod.splits option.splits)

lemma implements_shdo: "list_all (\<lambda>x. implements (\<lambda>_. True) (m x) (f x)) xs \<Longrightarrow>
    implements (\<lambda>_. True) (shdo (map m xs)) (in_order (map f xs))"
proof (induction xs)
  case (Cons x xs)
  then show ?case by (auto intro: implements_bind)
qed (simp add: implements_shret)

section \<open>The parts of a command\<close>

text \<open>An argument array that begins with the words.\<close>

definition holds_words :: "string list \<Rightarrow> argv \<Rightarrow> bool" where
  "holds_words ws al \<longleftrightarrow> length al = 50 \<and> take (length ws) al = map Str ws \<and> length ws \<le> 50"

lemma holds_argument_list: "length ws \<le> 50 \<Longrightarrow> holds_words ws (argument_list ws)"
  by (simp add: holds_words_def argument_list_def)

lemma holds_words_nth: "holds_words ws al \<Longrightarrow> i < length ws \<Longrightarrow> al ! i = Str (ws ! i)"
  unfolding holds_words_def by (metis length_map nth_map nth_take)

lemma holds_words_arg: "holds_words ws al \<Longrightarrow> i < length ws \<Longrightarrow> argAt al i = shret (ws ! i)"
  using holds_words_nth [of ws al i] by (intro argAt_Str) (auto simp: holds_words_def)

lemma holds_words_drop: "holds_words ws al \<Longrightarrow> al = map Str ws @ drop (length ws) al"
  unfolding holds_words_def by (metis append_take_drop_id)

text \<open>Behind the words comes the null.\<close>

lemma null_behind:
  assumes "holds_words ws al" "length ws < 50"
  shows "al[length ws := Null] = map Str ws @ Null # drop (Suc (length ws)) al" "holds_words ws (al[length ws := Null])"
  using assms by (auto simp: holds_words_def upd_conv_take_nth_drop)

lemma checkChild_implements: "implements (\<lambda>_. True) checkChild collects"
  by (rule implementsI) (simp add: checkChild_spec collects_def WNOHANG_def Let_def)

lemma execvp_becomes:
  assumes "\<And>E s. k E s = (Inl (Exits 1), g (s\<lparr>calls := calls s @ [Perror ''lsh'']\<rparr>))" "\<And>s. calls (g s) = calls s \<and> ThisJobs (g s) = ThisJobs s"
  shows "outcome (shbind (execvp (map Str ws @ Null # rest)) (\<lambda>_. k) E s) = becomes ws E (calls s) \<and>
    ThisJobs (snd (shbind (execvp (map Str ws @ Null # rest)) (\<lambda>_. k) E s)) = ThisJobs s"
proof (cases "ws = []")
  case True
  have "execvp (map Str ws @ Null # rest) = halts Undef" by (intro ext) (simp add: execvp_def True)
  then show ?thesis by (simp add: becomes_def True)
next
  case False
  then have "argAt (map Str ws @ Null # rest) 0 = shret (hd ws)" by (cases ws) simp_all
  then have "execvp (map Str ws @ Null # rest) = shbind (sysc (Execvp (hd ws) ws)) (\<lambda>r. if r = - 1 then shret () else halts Replaced)"
    by (intro ext) (simp add: execvp_def)
  with False assms show ?thesis by (simp add: becomes_def Let_def)
qed

text \<open>The loop that waits.\<close>

lemma find_map: "find P (map f xs) = map_option f (find (\<lambda>x. P (f x)) xs)"
  by (induction xs) simp_all

lemma from_one: "[1..<Suc (Suc n)] = 1 # map Suc [1..<Suc n]"
  by (simp add: map_Suc_upt upt_conv_Cons del: upt_Suc)

lemma wait_loop_asks:
  assumes "\<not> ended x"
  shows "wait_loop n opts p (Some x) E s =
    (case find (\<lambda>k. ret E (calls s @ replicate k (Waitpid p opts)) \<noteq> - 1 \<and> ended (aux E (calls s @ replicate k (Waitpid p opts)))) [1..<Suc n] of
       None \<Rightarrow> (Inl Still_waiting, s\<lparr>calls := calls s @ replicate n (Waitpid p opts)\<rparr>)
     | Some k \<Rightarrow> (Inr (), s\<lparr>calls := calls s @ replicate k (Waitpid p opts)\<rparr>))"
  using assms
proof (induction n arbitrary: x s)
  case (Suc n)
  let ?w = "Waitpid p opts"
  let ?t = "s\<lparr>calls := calls s @ [?w]\<rparr>"
  note u = from_one [of n]
  have step: "wait_loop (Suc n) opts p (Some x) E s =
    (if ret E (calls s @ [?w]) = - 1 then wait_loop n opts p (Some x) E ?t
     else if ended (aux E (calls s @ [?w])) then (Inr (), ?t)
     else wait_loop n opts p (Some (aux E (calls s @ [?w]))) E ?t)"
    using Suc.prems by simp
  show ?case
  proof (cases "ret E (calls s @ [?w]) \<noteq> - 1 \<and> ended (aux E (calls s @ [?w]))")
    case True
    then show ?thesis unfolding u step by simp
  next
    case False
    then have "wait_loop (Suc n) opts p (Some x) E s =
        wait_loop n opts p (Some (if ret E (calls s @ [?w]) = - 1 then x else aux E (calls s @ [?w]))) E ?t"
      unfolding step by auto
    also have "\<dots> = (case find (\<lambda>k. ret E (calls ?t @ replicate k ?w) \<noteq> - 1 \<and> ended (aux E (calls ?t @ replicate k ?w))) [1..<Suc n] of
        None \<Rightarrow> (Inl Still_waiting, ?t\<lparr>calls := calls ?t @ replicate n ?w\<rparr>)
      | Some k \<Rightarrow> (Inr (), ?t\<lparr>calls := calls ?t @ replicate k ?w\<rparr>))"
      by (rule Suc.IH) (use False Suc.prems in auto)
    finally show ?thesis unfolding u using False by (auto simp: find_map simp del: upt_Suc wait_loop.simps split: option.splits)
  qed
qed simp

lemma wait_for_awaits: "outcome (wait_for WUNTRACED p E s) = awaits p E (calls s) \<and> ThisJobs (snd (wait_for WUNTRACED p E s)) = ThisJobs s"
proof (cases "rounds E")
  case 0
  then show ?thesis by (simp add: wait_for_def awaits_def)
next
  case (Suc n)
  let ?w = "Waitpid p 2"
  let ?t = "s\<lparr>calls := calls s @ [?w]\<rparr>"
  note u = from_one [of n]
  have step: "wait_for WUNTRACED p E s =
    (if ret E (calls s @ [?w]) = - 1 then (Inl Undef, ?t)
     else if ended (aux E (calls s @ [?w])) then (Inr (), ?t)
     else wait_loop n 2 p (Some (aux E (calls s @ [?w]))) E ?t)"
    by (simp add: wait_for_def WUNTRACED_def Suc)
  show ?thesis
  proof (cases "ret E (calls s @ [?w]) = - 1 \<or> ended (aux E (calls s @ [?w]))")
    case True
    then show ?thesis unfolding step awaits_def Suc u by auto
  next
    case False
    with wait_loop_asks [of "aux E (calls s @ [?w])" n 2 p E ?t] show ?thesis
      unfolding step awaits_def Suc u by (simp add: find_map split: option.splits del: upt_Suc)
  qed
qed

text \<open>Printing the words.\<close>

lemma echo_implements:
  assumes "holds_words (w # us) al"
  shows "implements (\<lambda>_. True) (echo_from al [1..<length (w # us)]) (emits (map (\<lambda>u. Print (u @ '' '')) us @ [Print ''\<newline>'']))"
proof (rule implementsI)
  fix E :: os and s :: sh
  obtain rest where "al = map Str (w # us) @ rest" using holds_words_drop [OF assms] by blast
  then have "drop 1 al = map Str us @ rest" by simp
  note echo_words [OF this, of E s]
  moreover assume "ThisJobs s = []"
  ultimately show "outcome (echo_from al [1..<length (w # us)] E s) = emits (map (\<lambda>u. Print (u @ '' '')) us @ [Print ''\<newline>'']) E (calls s) \<and>
      ThisJobs (snd (echo_from al [1..<length (w # us)] E s)) = [] \<and>
      (\<forall>x t. echo_from al [1..<length (w # us)] E s = (Inr x, t) \<longrightarrow> True)"
    by (simp add: emits_def del: upt_Suc)
qed

lemma pwd_implements: "implements (\<lambda>_. True) pwdPressed shows_directory"
  by (rule implementsI) (auto simp: pwdPressed_def shows_directory_def Let_def split: option.splits)

lemma clear_implements: "implements (\<lambda>_. True) clear_screen (emits [Print (CHR 0x1B # ''[H'' @ CHR 0x1B # ''[J'')])"
  by (rule implementsI) (simp add: clear_screen_def emits_def)

lemma keep_args_implements: "implements (\<lambda>_. True) m f \<Longrightarrow> P ws \<Longrightarrow> implements P (keep_args ws m) f"
  unfolding keep_args_def using implements_bind [of "\<lambda>_. True" m f P "\<lambda>_. shret ws" "emits []"] by (simp add: implements_shret)

text \<open>A program in the foreground of the later version.\<close>

lemma foreGround_implements:
  assumes "holds_words ws al" "ws \<noteq> []"
  shows "implements (holds_words ws) (foreGroundProcess al (length ws)) (runs_program ws)"
proof (cases "length ws < 50")
  case False
  with assms(1) have "foreGroundProcess al (length ws) = halts Undef"
    by (intro ext) (simp add: foreGroundProcess_def put_null_def holds_words_def)
  with False show ?thesis by (intro implementsI) (simp add: runs_program_def)
next
  case True
  let ?al = "al[length ws := Null]"
  note N = null_behind [OF assms(1) True]
  have c: "cellAt ?al 1 = shret (?al ! 1)"
  proof (rule cellAt_simp)
    show "1 < length ?al" using assms(1) by (simp add: holds_words_def)
    show "?al ! 1 \<noteq> Junk" using assms(2) holds_words_nth [OF N(2), of 1] assms(1)
      by (cases "length ws = 1") (auto simp: holds_words_def not_less_eq less_one Suc_lessI)
  qed
  have p: "put_null al (length ws) = shret ?al" using assms(1) True by (simp add: put_null_def holds_words_def)
  show ?thesis
  proof (rule implementsI)
    fix E :: os and s :: sh
    assume s: "ThisJobs s = []"
    let ?p = "ret E (calls s @ [Fork])"
    let ?t = "s\<lparr>currentProcessName := ?al ! 1, calls := calls s @ [Fork], Childpid := ?p\<rparr>"
    let ?m = "(if ?p = 0 then shdo [execvp ?al, does (Perror ''lsh''), change (\<lambda>s. s\<lparr>foreground := 1\<rparr>), halts (Exits 1)]
        else if ?p < 0 then does (Perror ''lsh'') else wait_for WUNTRACED ?p)"
    have run: "foreGroundProcess al (length ws) E s = shbind ?m (\<lambda>_. shret ?al) E ?t"
      unfolding foreGroundProcess_def p shbind_shret c by simp
    note X = execvp_becomes [of "shdo [does (Perror ''lsh''), change (\<lambda>s. s\<lparr>foreground := 1\<rparr>), halts (Exits 1)]"
        "\<lambda>s. s\<lparr>foreground := 1\<rparr>" ws "drop (Suc (length ws)) al" E ?t, folded N(1)]
    consider "?p = 0" | "?p < 0" | "0 < ?p" by linarith
    then have "outcome (?m E ?t) = runs_program ws E (calls s) \<and> ThisJobs (snd (?m E ?t)) = []"
    proof cases
      case 1
      then show ?thesis using X s True by (simp add: runs_program_def Let_def)
    next
      case 2
      then show ?thesis using s True by (simp add: runs_program_def Let_def)
    next
      case 3
      then show ?thesis using wait_for_awaits [of ?p E ?t] s True by (simp add: runs_program_def Let_def)
    qed
    then show "outcome (foreGroundProcess al (length ws) E s) = runs_program ws E (calls s) \<and>
        ThisJobs (snd (foreGroundProcess al (length ws) E s)) = [] \<and>
        (\<forall>x t. foreGroundProcess al (length ws) E s = (Inr x, t) \<longrightarrow> holds_words ws x)"
      unfolding run using N(2) by (auto simp: shbind_def split: prod.splits sum.splits)
  qed
qed

lemma change_first:
  assumes "\<And>x. ThisJobs (g x) = ThisJobs x \<and> calls (g x) = calls x" "implements P m f"
  shows "implements P (shbind (change g) (\<lambda>_. m)) f"
proof (rule implementsI)
  fix E :: os and s :: sh
  assume "ThisJobs s = []"
  then have "ThisJobs (g s) = []" by (simp add: assms(1))
  from assms(2) [unfolded implements_def, rule_format, OF this, of E] assms(1) [of s]
  show "outcome (shbind (change g) (\<lambda>_. m) E s) = f E (calls s) \<and> ThisJobs (snd (shbind (change g) (\<lambda>_. m) E s)) = [] \<and>
      (\<forall>x t. shbind (change g) (\<lambda>_. m) E s = (Inr x, t) \<longrightarrow> P x)" by simp
qed

section \<open>Commands and lines of the later version\<close>

definition builtin_words :: "string list" where
  "builtin_words = [''clear'', ''fg'', ''bg'', ''kjob'', ''jobs'', ''overkill'', ''setenv'', ''unsetenv'', ''cd'', ''pwd'',
     ''remindme'', ''clock'', ''echo'', ''ls'', ''pinfo'']"

text \<open>Output of words, the current directory, clearing the screen, or a program in the foreground.\<close>

definition simple_command :: "string list \<Rightarrow> bool" where
  "simple_command ws \<longleftrightarrow> ws \<noteq> [] \<and> set ws \<inter> set redirects = {} \<and>
     (hd ws \<in> {''echo'', ''clear'', ''pwd''} \<or> hd ws \<notin> set builtin_words \<and> last ws \<noteq> ''&'')"

lemma program_implements:
  assumes "holds_words ws al" "ws \<noteq> []" "last ws \<noteq> ''&''"
  shows "implements (holds_words ws) (switchForeOrBackGround al (length ws)) (runs_program ws)"
proof -
  have "argAt al (length ws - 1) = shret (last ws)"
    using holds_words_arg [OF assms(1), of "length ws - 1"] assms(2) by (simp add: last_conv_nth)
  moreover have "cellAt al 0 = shret (al ! 0)"
    using holds_words_nth [OF assms(1), of 0] assms(1,2) by (intro cellAt_simp) (auto simp: holds_words_def)
  ultimately have "switchForeOrBackGround al (length ws) =
      shbind (change (\<lambda>s. s\<lparr>childProcName := al ! 0\<rparr>)) (\<lambda>_. foreGroundProcess al (length ws))"
    using assms(2,3) by (intro ext) (simp add: switchForeOrBackGround_def)
  then show ?thesis using change_first [OF _ foreGround_implements [OF assms(1,2)]] by simp
qed

lemma command_implements:
  assumes "holds_words ws al" "simple_command ws"
  shows "implements (holds_words ws) (executeInbuild al (length ws)) (runs_command ws)"
proof -
  obtain w us where ws: "ws = w # us" using assms(2) by (cases ws) (auto simp: simple_command_def)
  have w: "argAt al 0 = shret w" using holds_words_arg [OF assms(1), of 0] by (simp add: ws)
  have e: "executeInbuild al (length ws) = shbind checkChild (\<lambda>_. run_word w al (length ws))"
    by (simp add: executeInbuild_def w ws)
  consider "w = ''echo''" | "w = ''clear''" | "w = ''pwd''" | "w \<notin> set builtin_words" "last ws \<noteq> ''&''"
    using assms(2) by (auto simp: simple_command_def ws)
  then have "implements (holds_words ws) (run_word w al (length ws))
     (if hd ws = ''echo'' then emits (map (\<lambda>u. Print (u @ '' '')) (tl ws) @ [Print ''\<newline>''])
        else if hd ws = ''clear'' then emits [Print (CHR 0x1B # ''[H'' @ CHR 0x1B # ''[J'')]
        else if hd ws = ''pwd'' then shows_directory
        else if last ws = ''&'' then runs_background (butlast ws)
        else runs_program ws)"
  proof cases
    case 1
    then show ?thesis using keep_args_implements [OF echo_implements [OF assms(1) [unfolded ws]], of "holds_words ws" al] assms(1)
      by (simp add: run_word_def ws del: upt_Suc)
  next
    case 2
    then show ?thesis using keep_args_implements [OF clear_implements, of "holds_words ws" al] assms(1) by (simp add: run_word_def ws)
  next
    case 3
    then show ?thesis using keep_args_implements [OF pwd_implements, of "holds_words ws" al] assms(1) by (simp add: run_word_def ws)
  next
    case 4
    then have "run_word w al (length ws) = switchForeOrBackGround al (length ws)"
      by (simp add: run_word_def builtin_words_def)
    with 4 program_implements [OF assms(1)] show ?thesis by (simp add: ws builtin_words_def)
  qed
  then show ?thesis unfolding e runs_command_def by (rule implements_bind [OF checkChild_implements])
qed

lemma run_words_implements:
  assumes "simple_command ws" "length ws \<le> 50"
  shows "implements (\<lambda>_. True) (run_words ws) (and_then (runs_command ws) (runs_command ws))"
proof -
  note C = command_implements [OF _ assms(1)]
  have "implements (\<lambda>_. True) (shbind (executeInbuild al (length ws)) (\<lambda>_. shret ())) (and_then (runs_command ws) (emits []))"
    if "holds_words ws al" for al
    by (rule implements_bind [OF C [OF that]]) (simp add: implements_shret)
  then have "implements (\<lambda>_. True) (shbind (executeInbuild al (length ws)) (\<lambda>_. shret ())) (runs_command ws)"
    if "holds_words ws al" for al
    using that by simp
  then have "implements (\<lambda>_. True) (shbind (executeInbuild (argument_list ws) (length ws)) (\<lambda>al.
      shbind (executeInbuild al (length ws)) (\<lambda>_. shret ()))) (and_then (runs_command ws) (runs_command ws))"
    by (rule implements_bind [OF C [OF holds_argument_list [OF assms(2)]]])
  then show ?thesis using assms(1) by (simp add: run_words_plain simple_command_def)
qed

text \<open>Every command of a line twice.\<close>

definition twice_each :: "string list list \<Rightarrow> string list list" where
  "twice_each wss = concat (map (\<lambda>ws. [ws, ws]) wss)"

lemma in_order_twice: "in_order (map (\<lambda>ws. and_then (runs_command ws) (runs_command ws)) wss) = in_order (map runs_command (twice_each wss))"
  by (induction wss) (simp_all add: twice_each_def and_then_assoc)

text \<open>C17. A line of commands separated by semicolons, of words separated by blanks, in a shell without background jobs:
  whatever the system answers, the shell runs each of its commands twice, in order, before each one collects a
  child that has ended, forks for each program, waits for it, and the child becomes the program with exactly the
  words of the command; on the way it makes exactly the calls of the specification and ends as it says.\<close>

theorem splitcommands_line:
  assumes "plain_line wss" "list_all simple_command wss" "ThisJobs s = []"
  shows "outcome (splitcommands (line_of wss) E s) = in_order (map runs_command (twice_each wss)) E (calls s)"
proof -
  have "list_all (\<lambda>ws. implements (\<lambda>_. True) (run_words ws) (and_then (runs_command ws) (runs_command ws))) wss"
    using assms(1,2) run_words_implements by (auto simp: plain_line_def list_all_iff)
  from implementsD [OF implements_shdo [OF this] assms(3)] show ?thesis
    by (simp add: splitcommands_plain [OF assms(1)] in_order_twice)
qed

text \<open>A system where the second \<open>fork\<close> is seen by the child, and a child has ended whenever the shell asks.\<close>

definition forking :: os where
  "forking = \<lparr>ret = (\<lambda>cs. if last cs = Fork then (if asked Fork cs = 2 then 0 else 7) else if last cs = Waitpid (- 1) 1 then 5 else 7),
     aux = (\<lambda>_. 0), txt_of = (\<lambda>_. None),
     stat_of = (\<lambda>_. \<lparr>sb_mode = 0, sb_nlink = 0, sb_uid = 0, sb_gid = 0, sb_length = 0, sb_mtime = 0, sb_blocks = 0\<rparr>),
     junk = (\<lambda>_. 0), rounds = 1\<rparr>"

theorem splitcommands_line_witness:
  "outcome (splitcommands ''cat f;wc\<newline>'' forking blank_sh) =
    (Some Replaced, [Waitpid (- 1) 1, Eprint ''pid 5 exicted Normally\<newline>'', Fork, Waitpid 7 2,
       Waitpid (- 1) 1, Eprint ''pid 5 exicted Normally\<newline>'', Fork, Execvp ''cat'' [''cat'', ''f'']])"
proof -
  have "plain_line [[''cat'', ''f''], [''wc'']]" by (simp add: plain_line_def plain_word_def)
  moreover have "list_all simple_command [[''cat'', ''f''], [''wc'']]"
    by (simp add: simple_command_def redirects_def builtin_words_def)
  ultimately have "outcome (splitcommands (line_of [[''cat'', ''f''], [''wc'']]) forking blank_sh) =
      in_order (map runs_command (twice_each [[''cat'', ''f''], [''wc'']])) forking (calls blank_sh)"
    by (rule splitcommands_line) (simp add: blank_sh_def)
  moreover have "show_int 5 = ''5''" by code_simp
  moreover have "ended 0" by (simp add: ended_def)
  ultimately show ?thesis
    by (simp add: line_of_def twice_each_def runs_command_def and_then_def collects_def runs_program_def becomes_def awaits_def
        forking_def asked_def blank_sh_def Let_def)
qed

end
