(* ===== verification/FirstShell.thy ===== *)
theory FirstShell
  imports ShTraces
begin

text \<open>
  Assignment2/wonderShell/\<open>wonderShell.c\<close>: the first version of the shell, without jobs, pipes and redirection. The
  functions it shares word for word with the later version are those of \<open>ShText\<close>, \<open>ShCommands\<close> and \<open>ShRun\<close>
  (\<open>replaceWord\<close>, \<open>setAlarm\<close>, \<open>chkAlarm\<close>, \<open>clkCmd\<close>, \<open>chkFlgOrPath\<close>, \<open>parsePath\<close>, \<open>read_command\<close>, \<open>getUserName\<close> and the
  commands inside \<open>executeInbuild\<close> but \<open>pinfo\<close>); the others follow. The state is that of the later version, whose
  jobs stay empty here. Lines of commands are compared with the specification of \<open>ShTraces\<close>.
\<close>

section \<open>Processes\<close>

definition checkChild1 :: "unit shm" where
  "checkChild1 =
     shbind (sysc (Waitpid (- 1) WNOHANG)) (\<lambda>a.
       if a > 0 then does (Eprint (''pid '' @ show_int a @ '' exicted Normally\<newline>'')) else shret ())"

definition foreGroundProcess1 :: "argv \<Rightarrow> nat \<Rightarrow> unit shm" where
  "foreGroundProcess1 line len =
     shbind (put_null line len) (\<lambda>ws.
     shbind (sysc Fork) (\<lambda>p.
       if p = 0 then shdo [execvp ws, does (Perror ''lsh''), halts (Exits 1)]
       else if p < 0 then does (Perror ''lsh'')
       else wait_for WUNTRACED p))"

definition backGroundProcess1 :: "argv \<Rightarrow> nat \<Rightarrow> unit shm" where
  "backGroundProcess1 line len =
     shbind (put_null line len) (\<lambda>ws.
     shbind (sysc Fork) (\<lambda>p.
     shbind (sysc Getpid) (\<lambda>me.
     shbind (change (\<lambda>s. s\<lparr>childpid := me\<rparr>)) (\<lambda>_.
       if p = 0 then
         shbind (sysc Getpid) (\<lambda>me.
         shdo [change (\<lambda>s. s\<lparr>childpid := me\<rparr>), say (''pid-- '' @ show_int me @ ''\<newline>''), execvp ws,
               does (Perror ''lsh''), halts (Exits 1)])
       else if p < 0 then does (Perror ''lsh'')
       else shret ()))))"

definition switchForeOrBackGround1 :: "argv \<Rightarrow> nat \<Rightarrow> unit shm" where
  "switchForeOrBackGround1 line len =
     shbind (if len = 0 then halts Undef else argAt line (len - 1)) (\<lambda>w.
       if w = ''&'' then shbind (put_null line (len - 1)) (\<lambda>ws. backGroundProcess1 ws (len - 1))
       else
         shbind (cellAt line 0) (\<lambda>c.
         shbind (change (\<lambda>s. s\<lparr>childProcName := c\<rparr>)) (\<lambda>_. foreGroundProcess1 line len)))"

section \<open>Process information\<close>

text \<open>One \<open>fgets\<close> into a buffer of \<open>n\<close> bytes, and what it leaves of the file.\<close>

definition fgets_line :: "nat \<Rightarrow> string \<Rightarrow> string \<times> string" where
  "fgets_line n s =
     (let t = take (n - 1) s; l = takeWhile (\<lambda>c. c \<noteq> newline) t
      in if length l < length t then (l @ [newline], drop (Suc (length l)) s) else (t, drop (length t) s))"

lemma fgets_shorter: "s \<noteq> [] \<Longrightarrow> 1 < n \<Longrightarrow> length (snd (fgets_line n s)) < length s"
  by (cases s; cases n) (auto simp: fgets_line_def Let_def)

text \<open>The loop that looks for the memory line: the buffer it ends with, which holds the last line when there is no
  such line, and nothing for an empty file.\<close>

function vm_line :: "string \<Rightarrow> string option \<Rightarrow> string option" where
  "vm_line s buf =
     (if s = [] then buf
      else let l = fst (fgets_line 100 s); r = snd (fgets_line 100 s) in
        if starts_with ''VmRSS'' l then Some l else vm_line r (Some l))"
  by pat_completeness auto
termination
  by (relation "measure (\<lambda>(s, buf). length s)") (auto simp: fgets_shorter)

declare vm_line.simps [simp del]

text \<open>\<open>pinfo\<close> alone: the second token of the line, then the path of the program, which the code has in a variable
  only when it lies below the current directory.\<close>

definition pinfo_self :: "unit shm" where
  "pinfo_self =
     shbind (sysc Getpid) (\<lambda>p.
     shbind (syst (Fopen (''/proc/'' @ show_int p @ ''/status''))) (\<lambda>f.
       case f of
         None \<Rightarrow> say (''Unable to open status File, No Process of given pid '' @ show_int p @ ''\<newline>'')
       | Some content \<Rightarrow>
           shbind (some_or_undef (vm_line content None)) (\<lambda>procInfo.
           shbind (say (''pid -- '' @ show_int p @ ''\<newline>'')) (\<lambda>_.
           shbind (say ''Process Status -- {R/S/S+/Z} memory\<newline>\<newline> - '') (\<lambda>_.
           shbind (case tokens [CHR '' '', newline] (cstr procInfo) of _ # token # _ \<Rightarrow> shret token | _ \<Rightarrow> halts Undef) (\<lambda>token.
           shbind (say (token @ '' {Virtual Memory}\<newline>\<newline> - '')) (\<lambda>_.
           shbind (does Fclose) (\<lambda>_.
           shbind (syst (Readlink (''/proc/'' @ show_int p @ ''/exe''))) (\<lambda>l.
           shbind (some_or_undef l) (\<lambda>exePath.
           shbind (syst Getcwd) (\<lambda>d.
           shbind (some_or_undef d) (\<lambda>cwd.
           shbind (if starts_with cwd exePath then some_or_undef (replaceWord exePath cwd ''~'') else halts Undef) (\<lambda>exePath1.
           say (exePath1 @ ''\<newline>\<newline>''))))))))))))))"

text \<open>\<open>pinfo pid\<close>: the loop goes on only while nothing could be read, so a file that has a line leaves \<open>flg\<close> at 0;
  with an empty file the loop compares a buffer that was never written.\<close>

definition pinfo_pid :: "string \<Rightarrow> unit shm" where
  "pinfo_pid p =
     (if 10 \<le> length p then halts Undef
      else
        shbind (syst (Fopen (''/proc/'' @ p @ ''/status''))) (\<lambda>f.
          case f of
            None \<Rightarrow> say (''No status File, no process with pid '' @ p @ ''.\<newline>'')
          | Some content \<Rightarrow> if content = [] then halts Undef else say ''No Information Avilable\<newline>''))"

section \<open>The dispatcher\<close>

definition run_word1 :: "string \<Rightarrow> argv \<Rightarrow> nat \<Rightarrow> unit shm" where
  "run_word1 w ws len =
     (if w = ''clear'' then clear_screen
      else if w = ''cd'' then cdPressed ws len
      else if w = ''pwd'' then pwdPressed
      else if w = ''remindme'' then setAlarm ws len
      else if w = ''clock'' then clkCmd ws len
      else if w = ''echo'' then echo_from ws [1..<len]
      else if w = ''ls'' then lsPressed ws len
      else if len = 1 \<and> w = ''pinfo'' then pinfo_self
      else if len = 2 \<and> w = ''pinfo'' then shbind (argAt ws 1) pinfo_pid
      else switchForeOrBackGround1 ws len)"

definition executeInbuild1 :: "argv \<Rightarrow> nat \<Rightarrow> unit shm" where
  "executeInbuild1 ws len =
     shbind checkChild1 (\<lambda>_.
       if len = 0 then shret ()
       else shbind (argAt ws 0) (\<lambda>w. run_word1 w ws len))"

section \<open>Lines\<close>

fun run_commands1 :: "string list \<Rightarrow> unit shm" where
  "run_commands1 [] = shret ()"
| "run_commands1 (t # ts) =
     (let ws = tokens [CHR '' '', newline] t
      in if length ws > 50 then halts Undef
         else shbind (executeInbuild1 (argument_list ws) (length ws)) (\<lambda>_. run_commands1 ts))"

definition splitcommands1 :: "string \<Rightarrow> unit shm" where
  "splitcommands1 str = run_commands1 (tokens '';'' str)"

text \<open>One round of the loop of \<open>main\<close>, and \<open>main\<close>.\<close>

definition shell_round1 :: "unit shm" where
  "shell_round1 =
     shbind (syst Getcwd) (\<lambda>w.
     shbind (some_or_undef w) (\<lambda>shellsWD.
     shbind (look currentWD) (\<lambda>home.
     shbind (if starts_with home shellsWD then some_or_undef (replaceWord shellsWD home []) else shret shellsWD) (\<lambda>cwd1.
     shbind (prompt cwd1) (\<lambda>_.
     shbind read_command (\<lambda>args.
     shbind chkAlarm (\<lambda>_.
       if args = ''exit\<newline>'' then shdo [say ''Exiting the Ultimate shell ever made the WonderShell\<newline>'', halts (Exits 1)]
       else splitcommands1 args)))))))"

fun shell_rounds1 :: "nat \<Rightarrow> unit shm" where
  "shell_rounds1 0 = halts Still_waiting"
| "shell_rounds1 (Suc n) = shbind shell_round1 (\<lambda>_. shell_rounds1 n)"

definition shell_main1 :: "unit shm" where
  "shell_main1 =
     shbind (syst Getcwd) (\<lambda>w.
     shbind (change (\<lambda>s. s\<lparr>currentWD := (case w of Some d \<Rightarrow> d | None \<Rightarrow> [])\<rparr>)) (\<lambda>_.
     shbind (syst Gethostname) (\<lambda>h.
     shbind (change (\<lambda>s. s\<lparr>deviceName := (case h of Some d \<Rightarrow> d | None \<Rightarrow> [])\<rparr>)) (\<lambda>_.
     shbind getUserName (\<lambda>u.
     shbind (change (\<lambda>s. s\<lparr>userName := u\<rparr>)) (\<lambda>_.
     (\<lambda>E s. shell_rounds1 (rounds E) E s)))))))"

section \<open>Commands and lines\<close>

text \<open>Output of words, the current directory, clearing the screen, or a program, in the foreground or the background.\<close>

definition simple_command1 :: "string list \<Rightarrow> bool" where
  "simple_command1 ws \<longleftrightarrow> ws \<noteq> [] \<and>
     (hd ws \<in> {''echo'', ''clear'', ''pwd''} \<or> hd ws \<notin> {''cd'', ''remindme'', ''clock'', ''ls'', ''pinfo''})"

lemma checkChild1_implements: "implements (\<lambda>_. True) checkChild1 collects"
  by (rule implementsI) (simp add: checkChild1_def collects_def WNOHANG_def Let_def)

text \<open>The child of a program.\<close>

lemmas child_becomes = execvp_becomes [of "shdo [does (Perror ''lsh''), halts (Exits 1)]" "\<lambda>s. s"]

lemma foreGround1_implements:
  assumes "holds_words ws al"
  shows "implements (\<lambda>_. True) (foreGroundProcess1 al (length ws)) (runs_program ws)"
proof (rule implementsI)
  fix E :: os and s :: sh
  assume s: "ThisJobs s = []"
  show "outcome (foreGroundProcess1 al (length ws) E s) = runs_program ws E (calls s) \<and>
      ThisJobs (snd (foreGroundProcess1 al (length ws) E s)) = [] \<and>
      (\<forall>x t. foreGroundProcess1 al (length ws) E s = (Inr x, t) \<longrightarrow> True)"
  proof (cases "length ws < 50")
    case False
    then show ?thesis using assms s by (simp add: foreGroundProcess1_def put_null_def holds_words_def runs_program_def)
  next
    case True
    let ?al = "al[length ws := Null]" and ?p = "ret E (calls s @ [Fork])" and ?t = "s\<lparr>calls := calls s @ [Fork]\<rparr>"
    have p: "put_null al (length ws) = shret ?al" using assms True by (simp add: put_null_def holds_words_def)
    note X = child_becomes [of ws "drop (Suc (length ws)) al" E ?t, folded null_behind(1) [OF assms True]]
    have run: "foreGroundProcess1 al (length ws) E s =
        (if ?p = 0 then shdo [execvp ?al, does (Perror ''lsh''), halts (Exits 1)] E ?t
         else if ?p < 0 then does (Perror ''lsh'') E ?t else wait_for WUNTRACED ?p E ?t)"
      unfolding foreGroundProcess1_def p shbind_shret by simp
    consider "?p = 0" | "?p < 0" | "0 < ?p" by linarith
    then show ?thesis
    proof cases
      case 1
      then show ?thesis unfolding run using X s True by (simp add: runs_program_def Let_def)
    next
      case 2
      then show ?thesis unfolding run using s True by (simp add: runs_program_def Let_def)
    next
      case 3
      then show ?thesis unfolding run using wait_for_awaits [of ?p E ?t] s True by (simp add: runs_program_def Let_def)
    qed
  qed
qed

lemma backGround1_implements:
  assumes "holds_words ws al" "length ws < 50"
  shows "implements (\<lambda>_. True) (backGroundProcess1 al (length ws)) (runs_background ws)"
proof (rule implementsI)
  fix E :: os and s :: sh
  assume s: "ThisJobs s = []"
  let ?al = "al[length ws := Null]" and ?p = "ret E (calls s @ [Fork])" and ?q = "ret E (calls s @ [Fork, Getpid])"
    and ?r = "ret E (calls s @ [Fork, Getpid, Getpid])"
  let ?t = "s\<lparr>childpid := ?q, calls := calls s @ [Fork, Getpid]\<rparr>"
  let ?u = "s\<lparr>childpid := ?r, calls := calls s @ [Fork, Getpid, Getpid, Print (''pid-- '' @ show_int ?r @ ''\<newline>'')]\<rparr>"
  have p: "put_null al (length ws) = shret ?al" using assms by (simp add: put_null_def holds_words_def)
  note X = child_becomes [of ws "drop (Suc (length ws)) al" E ?u, folded null_behind(1) [OF assms]]
  have run: "backGroundProcess1 al (length ws) E s =
      (if ?p = 0 then shdo [execvp ?al, does (Perror ''lsh''), halts (Exits 1)] E ?u
       else if ?p < 0 then does (Perror ''lsh'') E ?t else (Inr (), ?t))"
    unfolding backGroundProcess1_def p shbind_shret by simp
  show "outcome (backGroundProcess1 al (length ws) E s) = runs_background ws E (calls s) \<and>
      ThisJobs (snd (backGroundProcess1 al (length ws) E s)) = [] \<and>
      (\<forall>x t. backGroundProcess1 al (length ws) E s = (Inr x, t) \<longrightarrow> True)"
    unfolding run using X s by (auto simp: runs_background_def Let_def)
qed

text \<open>The words before the last are in the array too.\<close>

lemma holds_butlast:
  assumes "holds_words ws al"
  shows "holds_words (butlast ws) (al[length ws - 1 := Null])"
proof -
  have "take (length ws - 1) al = take (length ws - 1) (take (length ws) al)" by simp
  also have "\<dots> = map Str (butlast ws)"
    using assms by (simp add: holds_words_def butlast_conv_take take_map)
  finally show ?thesis using assms by (auto simp: holds_words_def)
qed

lemma program1_implements:
  assumes "holds_words ws al" "ws \<noteq> []"
  shows "implements (\<lambda>_. True) (switchForeOrBackGround1 al (length ws))
    (if last ws = ''&'' then runs_background (butlast ws) else runs_program ws)"
proof -
  have l: "argAt al (length ws - 1) = shret (last ws)"
    using holds_words_arg [OF assms(1), of "length ws - 1"] assms(2) by (simp add: last_conv_nth)
  show ?thesis
  proof (cases "last ws = ''&''")
    case True
    have "length ws \<le> 50" "length al = 50" using assms(1) by (simp_all add: holds_words_def)
    then have n: "put_null al (length ws - 1) = shret (al[length ws - 1 := Null])" "length (butlast ws) < 50"
      using assms(2) by (cases ws; simp add: put_null_def)+
    have "switchForeOrBackGround1 al (length ws) = backGroundProcess1 (al[length ws - 1 := Null]) (length (butlast ws))"
      using assms(2) l n True by (simp add: switchForeOrBackGround1_def)
    with backGround1_implements [OF holds_butlast [OF assms(1)] n(2)] True show ?thesis by simp
  next
    case False
    have "cellAt al 0 = shret (al ! 0)"
      using holds_words_nth [OF assms(1), of 0] assms by (intro cellAt_simp) (auto simp: holds_words_def)
    then have "switchForeOrBackGround1 al (length ws) =
        shbind (change (\<lambda>s. s\<lparr>childProcName := al ! 0\<rparr>)) (\<lambda>_. foreGroundProcess1 al (length ws))"
      using assms(2) l False by (intro ext) (simp add: switchForeOrBackGround1_def)
    with change_first [OF _ foreGround1_implements [OF assms(1)]] False show ?thesis by simp
  qed
qed

lemma command1_implements:
  assumes "holds_words ws al" "simple_command1 ws"
  shows "implements (\<lambda>_. True) (executeInbuild1 al (length ws)) (runs_command ws)"
proof -
  obtain w us where ws: "ws = w # us" using assms(2) by (cases ws) (auto simp: simple_command1_def)
  have w: "argAt al 0 = shret w" using holds_words_arg [OF assms(1), of 0] by (simp add: ws)
  have e: "executeInbuild1 al (length ws) = shbind checkChild1 (\<lambda>_. run_word1 w al (length ws))"
    by (simp add: executeInbuild1_def w ws)
  consider "w = ''echo''" | "w = ''clear''" | "w = ''pwd''"
    | "w \<notin> {''echo'', ''clear'', ''pwd'', ''cd'', ''remindme'', ''clock'', ''ls'', ''pinfo''}"
    using assms(2) by (auto simp: simple_command1_def ws)
  then have "implements (\<lambda>_. True) (run_word1 w al (length ws))
     (if hd ws = ''echo'' then emits (map (\<lambda>u. Print (u @ '' '')) (tl ws) @ [Print ''\<newline>''])
        else if hd ws = ''clear'' then emits [Print (CHR 0x1B # ''[H'' @ CHR 0x1B # ''[J'')]
        else if hd ws = ''pwd'' then shows_directory
        else if last ws = ''&'' then runs_background (butlast ws)
        else runs_program ws)"
  proof cases
    case 1
    then show ?thesis using echo_implements [OF assms(1) [unfolded ws]] by (simp add: run_word1_def ws del: upt_Suc)
  next
    case 2
    then show ?thesis using clear_implements by (simp add: run_word1_def ws)
  next
    case 3
    then show ?thesis using pwd_implements by (simp add: run_word1_def ws)
  next
    case 4
    then have "run_word1 w al (length ws) = switchForeOrBackGround1 al (length ws)" by (simp add: run_word1_def)
    with 4 program1_implements [OF assms(1)] show ?thesis by (simp add: ws)
  qed
  then show ?thesis unfolding e runs_command_def by (rule implements_bind [OF checkChild1_implements])
qed

lemma run_commands1_cong:
  "list_all2 (\<lambda>t ws. tokens [CHR '' '', newline] t = ws \<and> length ws \<le> 50) ts wss \<Longrightarrow>
   run_commands1 ts = shdo (map (\<lambda>ws. executeInbuild1 (argument_list ws) (length ws)) wss)"
  by (induction rule: list_all2_induct) (simp_all add: not_less Let_def)

text \<open>C20. In the first version of the shell a line of commands runs each of them once, in order: before each one a child
  that has ended in the background is collected and reported, a program is started in a child that becomes it with
  exactly the words of the command, and waited for, but not when the last word is an ampersand; the line makes
  exactly the calls of the specification, whatever the system answers. (This version has no jobs, so the table of
  the later one is empty in its states.)\<close>

theorem first_shell_line:
  assumes "plain_line wss" "list_all simple_command1 wss" "ThisJobs s = []"
  shows "outcome (splitcommands1 (line_of wss) E s) = in_order (map runs_command wss) E (calls s)"
proof -
  have "splitcommands1 (line_of wss) = shdo (map (\<lambda>ws. executeInbuild1 (argument_list ws) (length ws)) wss)"
    unfolding splitcommands1_def by (rule run_commands1_cong) (rule plain_line_parts(2) [OF assms(1)])
  moreover have "list_all (\<lambda>ws. implements (\<lambda>_. True) (executeInbuild1 (argument_list ws) (length ws)) (runs_command ws)) wss"
    using assms(1,2) command1_implements [OF holds_argument_list] by (auto simp: plain_line_def list_all_iff)
  ultimately show ?thesis using implementsD [OF implements_shdo assms(3)] by simp
qed

theorem first_shell_line_witness:
  "outcome (splitcommands1 ''wc f &;cat\<newline>'' forking blank_sh) =
    (Some Replaced, [Waitpid (- 1) 1, Eprint ''pid 5 exicted Normally\<newline>'', Fork, Getpid,
       Waitpid (- 1) 1, Eprint ''pid 5 exicted Normally\<newline>'', Fork, Execvp ''cat'' [''cat'']])"
proof -
  have "plain_line [[''wc'', ''f'', ''&''], [''cat'']]" by (simp add: plain_line_def plain_word_def)
  moreover have "list_all simple_command1 [[''wc'', ''f'', ''&''], [''cat'']]" by (simp add: simple_command1_def)
  ultimately have "outcome (splitcommands1 (line_of [[''wc'', ''f'', ''&''], [''cat'']]) forking blank_sh) =
      in_order (map runs_command [[''wc'', ''f'', ''&''], [''cat'']]) forking (calls blank_sh)"
    by (rule first_shell_line) (simp add: blank_sh_def)
  moreover have "show_int 5 = ''5''" by code_simp
  ultimately show ?thesis
    by (simp add: line_of_def runs_command_def and_then_def collects_def runs_program_def runs_background_def becomes_def
        forking_def asked_def blank_sh_def emits_def Let_def)
qed

section \<open>Process information\<close>

text \<open>Whatever the file of the process holds, \<open>pinfo pid\<close> prints no information.\<close>

lemma pinfo_pid_tells_nothing:
  assumes "length p < 10" "txt_of E (calls s @ [Fopen (''/proc/'' @ p @ ''/status'')]) = Some (c # content)"
  shows "pinfo_pid p E s = (Inr (), s\<lparr>calls := calls s @ [Fopen (''/proc/'' @ p @ ''/status''), Print ''No Information Avilable\<newline>'']\<rparr>)"
  using assms by (simp add: pinfo_pid_def)

text \<open>The search for the memory line ends with that line, when the file is of short lines and has one.\<close>

lemma fgets_short:
  assumes "newline \<notin> set l" "length l < 99"
  shows "fgets_line 100 (l @ newline # r) = (l @ [newline], r)"
proof -
  obtain k where k: "99 - length l = Suc k" using assms(2) by (metis Suc_diff_Suc)
  have t: "take (100 - 1) (l @ newline # r) = l @ newline # take k r"
    using assms(2) k by simp
  have "takeWhile (\<lambda>c. c \<noteq> newline) (l @ newline # u) = l" for u
    using assms(1) by (induction l) auto
  then show ?thesis unfolding fgets_line_def t Let_def by simp
qed

lemma starts_with_more: "starts_with w v \<Longrightarrow> starts_with w (v @ u)"
  by (metis append.assoc append_eq_conv_conj starts_with_def starts_with_split)

lemma vm_line_finds:
  assumes "list_all (\<lambda>l. newline \<notin> set l \<and> length l < 99 \<and> \<not> starts_with ''VmRSS'' (l @ [newline])) ls"
    "newline \<notin> set v" "length v < 99" "starts_with ''VmRSS'' v"
  shows "vm_line (concat (map (\<lambda>l. l @ [newline]) ls) @ v @ newline # rest) buf = Some (v @ [newline])"
  using assms(1)
proof (induction ls arbitrary: buf)
  case Nil
  have "starts_with ''VmRSS'' (v @ [newline])" using assms(4) by (rule starts_with_more)
  then show ?case by (subst vm_line.simps) (simp add: fgets_short [OF assms(2,3)])
next
  case (Cons l ls)
  then show ?case by (subst vm_line.simps) (simp add: fgets_short)
qed

end
