(* ===== verification/ShVersions.thy ===== *)
theory ShVersions
  imports ShRun
begin

text \<open>
  Two versions of the shell kept beside \<open>wonderShell.c\<close>: \<open>wonder.c\<close>, the older one, and \<open>exp.c\<close>, an experiment with
  redirection. The functions in which they differ from \<open>wonderShell.c\<close> are modelled here; where not said
  otherwise the names are those of the code with the name of the version in front. \<open>exp1.c\<close> has the
  redirection of \<open>wonder.c\<close>.
\<close>

section \<open>Redirection\<close>

text \<open>\<open>inputFileFrom\<close> up to the second \<open>dup2\<close>; the version of \<open>wonder.c\<close> then runs the command.\<close>

definition read_from :: "argv \<Rightarrow> nat \<Rightarrow> (argv \<times> int) shm" where
  "read_from ws n =
     shbind (put_null ws n) (\<lambda>ws1.
     shbind (argAt ws1 (n + 1)) (\<lambda>target.
     shbind (sysc (Openf target O_IN)) (\<lambda>fd.
     shbind (if fd = - 1 then does (Perror ''Failed to open file'') else shret ()) (\<lambda>_.
     shbind (does (Closefd 0)) (\<lambda>_.
     shbind (sysc (Dup2 fd 0)) (\<lambda>r.
     shbind (if r = - 1 then does (Perror ''dup2 fail'') else shret ()) (\<lambda>_. shret (ws1, fd))))))))"

definition wonder_inputFileFrom :: "argv \<Rightarrow> nat \<Rightarrow> nat \<Rightarrow> argv shm" where
  "wonder_inputFileFrom ws len n =
     (if n = len - 1 then
        shbind (say ''Missing Input file name;\<newline>Usage-> python test_code.py < input.txt \<newline>'') (\<lambda>_. shret ws)
      else
        shbind (read_from ws n) (\<lambda>(ws1, fd).
        shbind (executeInbuild ws1 len) (\<lambda>ws2.
        shbind (shdo [does (Closefd fd), say ''Here\<newline>'']) (\<lambda>_. shret ws2))))"

definition exp_inputFileFrom :: "argv \<Rightarrow> nat \<Rightarrow> nat \<Rightarrow> argv shm" where
  "exp_inputFileFrom ws len n =
     (if n = len - 1 then
        shbind (say ''Missing Input file name;\<newline>Usage-> python test_code.py < input.txt \<newline>'') (\<lambda>_. shret ws)
      else
        shbind (read_from ws n) (\<lambda>(ws1, fd).
        shbind (shdo [does (Closefd fd), say ''Here\<newline>'']) (\<lambda>_. shret ws1)))"

definition exp_outputFileAt :: "argv \<Rightarrow> nat \<Rightarrow> nat \<Rightarrow> int \<Rightarrow> argv shm" where
  "exp_outputFileAt ws len n appendOrNot =
     shbind (argAt ws (n + 1)) (\<lambda>target.
     shbind (sysc (Openf target (if appendOrNot = 1 then O_APP else O_OUT))) (\<lambda>fd.
       if fd < 0 then shbind (say (''Cannot open file '' @ target @ ''.\<newline>'')) (\<lambda>_. shret ws)
       else
         shbind (sysc (Dup2 fd 1)) (\<lambda>r.
           if r \<noteq> 1 then
             shbind (say (''Error in shifting the filepointer to '' @ target @ ''.\<newline>'')) (\<lambda>_. shret ws)
           else shbind (does (Closefd fd)) (\<lambda>_. shret ws))))"

text \<open>The loops of \<open>chkFile\<close>; the result is the array, whether the input and whether anything was redirected.\<close>

fun wonder_words :: "nat list \<Rightarrow> nat \<Rightarrow> argv \<Rightarrow> bool \<Rightarrow> bool \<Rightarrow> (argv \<times> bool \<times> bool) option shm" where
  "wonder_words [] len ws inr redirected = shret (Some (ws, inr, redirected))"
| "wonder_words (n # ns) len ws inr redirected =
     shbind (argAt ws n) (\<lambda>w.
       if w = ''<'' then
         shbind (argAt ws (n + 1)) (\<lambda>f.
         shbind (say (''InputFile redirection '' @ f @ ''.\<newline>'')) (\<lambda>_.
         shbind (wonder_inputFileFrom ws len n) (\<lambda>ws1. wonder_words ns len ws1 True True)))
       else if w = ''>'' then
         (if n = len - 1 then
            shbind (say ''Output file is missing.\<newline> Usage -> command > filename.txt\<newline>'') (\<lambda>_. shret None)
          else
            shbind (argAt ws (n + 1)) (\<lambda>f.
            shbind (say (''Redirected to file '' @ f @ ''!!\<newline>'')) (\<lambda>_.
            shbind (outputFileAt ws len n 0) (\<lambda>ws1. wonder_words ns len ws1 inr True))))
       else if w = ''>>'' then
         (if n = len - 1 then
            shbind (say ''Output file is missing.\<newline> Usage -> command >> filename.txt\<newline>'') (\<lambda>_. shret None)
          else
            shbind (argAt ws (n + 1)) (\<lambda>f.
            shbind (say (''Appended to file '' @ f @ ''!!\<newline>'')) (\<lambda>_.
            shbind (outputFileAt ws len n 1) (\<lambda>ws1. wonder_words ns len ws1 inr True))))
       else wonder_words ns len ws inr redirected)"

definition wonder_chkFile :: "argv \<Rightarrow> nat \<Rightarrow> unit shm" where
  "wonder_chkFile ws len =
     shbind (wonder_words [0..<len] len ws False False) (\<lambda>z.
       case z of
         None \<Rightarrow> shret ()
       | Some (ws1, inr, redirected) \<Rightarrow>
           shbind (if \<not> redirected then executeInbuild ws1 len else shret ws1) (\<lambda>_.
             if inr then does (Freopen ''/dev/tty'' ''r'') else shret ()))"

fun exp_words :: "nat list \<Rightarrow> nat \<Rightarrow> argv \<Rightarrow> bool \<Rightarrow> (argv \<times> bool) option shm" where
  "exp_words [] len ws inr = shret (Some (ws, inr))"
| "exp_words (n # ns) len ws inr =
     shbind (argAt ws n) (\<lambda>w.
       if w = ''<'' then
         shbind (argAt ws (n + 1)) (\<lambda>f.
         shbind (say (''InputFile redirection '' @ f @ ''.\<newline>'')) (\<lambda>_.
         shbind (exp_inputFileFrom ws len n) (\<lambda>ws1. exp_words ns len ws1 True)))
       else if w = ''>'' then
         (if n = len - 1 then
            shbind (say ''Output file is missing.\<newline> Usage -> command > filename.txt\<newline>'') (\<lambda>_. shret None)
          else
            shbind (argAt ws (n + 1)) (\<lambda>f.
            shbind (say (''Redirected to file '' @ f @ ''!!\<newline>'')) (\<lambda>_.
            shbind (exp_outputFileAt ws len n 0) (\<lambda>ws1. exp_words ns len ws1 inr))))
       else if w = ''>>'' then
         (if n = len - 1 then
            shbind (say ''Output file is missing.\<newline> Usage -> command >> filename.txt\<newline>'') (\<lambda>_. shret None)
          else
            shbind (argAt ws (n + 1)) (\<lambda>f.
            shbind (say (''Appended to file '' @ f @ ''!!\<newline>'')) (\<lambda>_.
            shbind (exp_outputFileAt ws len n 1) (\<lambda>ws1. exp_words ns len ws1 inr))))
       else exp_words ns len ws inr)"

text \<open>The test \<open>if(outredireted = 1)\<close> assigns, so the output is always reopened.\<close>

definition exp_chkFile :: "argv \<Rightarrow> nat \<Rightarrow> unit shm" where
  "exp_chkFile ws len =
     shbind (exp_words [0..<len] len ws False) (\<lambda>z.
       case z of
         None \<Rightarrow> shret ()
       | Some (ws1, inr) \<Rightarrow>
           shbind (executeInbuild ws1 len) (\<lambda>_.
           shdo [if inr then does (Freopen ''/dev/tty'' ''r'') else shret (), does (Freopen ''/dev/tty'' ''w'')]))"

section \<open>Pipelines and signals\<close>

text \<open>A stage of a pipeline always runs in a child here, and its messages of errors go to a file.\<close>

definition wonder_executeCommand :: "int \<Rightarrow> int \<Rightarrow> command \<Rightarrow> int shm" where
  "wonder_executeCommand inp out cmd =
     shbind (sysc (Openf ''errlog'' O_APP)) (\<lambda>log.
     shbind (does (Dup2 log 2)) (\<lambda>_.
     shbind (sysc Fork) (\<lambda>p.
       if p = 0 then
         shbind (connect inp out) (\<lambda>_.
         shbind (execvp (argv_of cmd)) (\<lambda>_.
         shbind (does (Eprint ''Error executing the intermidiate command\<newline>'')) (\<lambda>_. halts (Exits 1))))
       else shret p)))"

text \<open>The handler of \<open>exp.c\<close> looks for the shell itself in the job table, and signals whatever \<open>Childpid\<close> is.\<close>

definition exp_ctrlC :: "unit shm" where
  "exp_ctrlC =
     shbind (sysc Getpid) (\<lambda>me.
     shbind (look (\<lambda>s. (shell_pid s, Childpid s))) (\<lambda>(shell, child).
       if me \<noteq> shell then shret ()
       else
         shdo [shbind (if me \<noteq> 0 then search_job me else shret 1) (\<lambda>k.
                 if k = 0
                 then shdo [say (''\<newline>Sending SIGINT to '' @ show_int child @ ''.\<newline>''), does (Kill child SIGINT)]
                 else shret ()),
               does (Signal SIGINT ''ctrlC'')]))"

section \<open>One redirection in three versions\<close>

text \<open>A system on which files open, \<open>dup2\<close> works and no child has ended.\<close>

definition opens_files :: "os \<Rightarrow> (string \<Rightarrow> int) \<Rightarrow> bool" where
  "opens_files E fd \<longleftrightarrow> (\<forall>cs. ret E (cs @ [Waitpid (- 1) WNOHANG]) \<le> 0) \<and>
     (\<forall>cs f. ret E (cs @ [Openf f O_OUT]) = fd f \<and> 0 \<le> fd f) \<and> (\<forall>cs d. ret E (cs @ [Dup2 d 1]) = 1)"

lemma opens_filesD:
  assumes "opens_files E fd"
  shows "ret E (cs @ [Waitpid (- 1) WNOHANG]) \<le> 0" "ret E (cs @ [Openf f O_OUT]) = fd f" "0 \<le> fd f" "ret E (cs @ [Dup2 d 1]) = 1"
  using assms unfolding opens_files_def by blast+

lemma chk_words_skip:
  assumes "list_all (\<lambda>n. n < length al \<and> (\<exists>w. al ! n = Str w \<and> w \<notin> set redirects)) ns"
  shows "chk_words (ns @ ms) len al r = chk_words ms len al r"
    "wonder_words (ns @ ms) len al i r = wonder_words ms len al i r"
    "exp_words (ns @ ms) len al i = exp_words ms len al i"
proof -
  have "chk_words (ns @ ms) len al r = chk_words ms len al r \<and> wonder_words (ns @ ms) len al i r = wonder_words ms len al i r \<and>
      exp_words (ns @ ms) len al i = exp_words ms len al i"
    using assms
  proof (induction ns)
    case (Cons n ns)
    then obtain w where "n < length al" "al ! n = Str w" "w \<notin> set redirects" by auto
    then have "chk_words (n # ns @ ms) len al r = chk_words (ns @ ms) len al r"
      "wonder_words (n # ns @ ms) len al i r = wonder_words (ns @ ms) len al i r"
      "exp_words (n # ns @ ms) len al i = exp_words (ns @ ms) len al i"
      by (intro ext, auto simp: redirects_def)+
    with Cons show ?case by simp
  qed simp
  then show "chk_words (ns @ ms) len al r = chk_words ms len al r"
    "wonder_words (ns @ ms) len al i r = wonder_words ms len al i r" "exp_words (ns @ ms) len al i = exp_words ms len al i" by simp_all
qed

text \<open>Switching the standard output to a file.\<close>

definition to_file :: "(string \<Rightarrow> int) \<Rightarrow> string \<Rightarrow> call list" where
  "to_file fd f = [Print (''Redirected to file '' @ f @ ''!!\<newline>''), Openf f O_OUT, Dup2 (fd f) 1]"

abbreviation to_terminal :: call where
  "to_terminal \<equiv> Freopen ''/dev/tty'' ''w''"

lemma redirect_words:
  assumes "opens_files E fd" "set us \<inter> set redirects = {}" "length us < 48" "ws = ''echo'' # us @ [''>'', f]"
  shows "list_all (\<lambda>n. n < length (argument_list ws) \<and> (\<exists>w. argument_list ws ! n = Str w \<and> w \<notin> set redirects)) [0..<Suc (length us)]"
    "[0..<length ws] = [0..<Suc (length us)] @ [Suc (length us), Suc (Suc (length us))]" "length ws = length us + 3"
    "argAt (argument_list ws) (Suc (length us)) = shret ''>''" "argAt (argument_list ws) (Suc (Suc (length us))) = shret f"
proof -
  show len: "length ws = length us + 3" by (simp add: assms(4))
  show "[0..<length ws] = [0..<Suc (length us)] @ [Suc (length us), Suc (Suc (length us))]" by (simp add: len numeral_3_eq_3)
  have al: "n < length ws \<Longrightarrow> argument_list ws ! n = Str (ws ! n)" "length ws \<le> length (argument_list ws)" for n
    using argument_list_nth argument_list_length by auto
  have "ws ! n \<notin> set redirects" if "n < Suc (length us)" for n
  proof (cases n)
    case (Suc m)
    with that have "us ! m \<in> set us" "ws ! n = us ! m" by (simp_all add: assms(4) nth_append)
    with assms(2) show ?thesis by auto
  qed (simp add: assms(4) redirects_def)
  then show "list_all (\<lambda>n. n < length (argument_list ws) \<and> (\<exists>w. argument_list ws ! n = Str w \<and> w \<notin> set redirects)) [0..<Suc (length us)]"
    using al len by (auto simp: list_all_iff)
  have "ws ! Suc (length us) = ''>''" "ws ! Suc (Suc (length us)) = f" by (simp_all add: assms(4) nth_append)
  then show "argAt (argument_list ws) (Suc (length us)) = shret ''>''" "argAt (argument_list ws) (Suc (Suc (length us))) = shret f"
    using al len by (auto intro!: argAt_Str)
qed

lemma outputs:
  assumes "opens_files E fd" "set us \<inter> set redirects = {}" "length us < 48" "ws = ''echo'' # us @ [''>'', f]"
  shows "outputFileAt (argument_list ws) (length us + 3) (Suc (length us)) 0 E s =
      (Inr (argument_list ws), s\<lparr>calls := calls s @ [Openf f O_OUT, Dup2 (fd f) 1] @ echo_calls us @ [Closefd (fd f), to_terminal]\<rparr>)"
    "exp_outputFileAt (argument_list ws) (length us + 3) (Suc (length us)) 0 E s =
      (Inr (argument_list ws), s\<lparr>calls := calls s @ [Openf f O_OUT, Dup2 (fd f) 1, Closefd (fd f)]\<rparr>)"
proof -
  note W = redirect_words [OF assms] and F = opens_filesD [OF assms(1)]
  let ?t = "s\<lparr>calls := calls s @ [Openf f O_OUT, Dup2 (fd f) 1]\<rparr>"
  have o: "ret E (calls s @ [Openf f O_OUT]) = fd f" "0 \<le> fd f" "ret E (calls s @ [Openf f O_OUT, Dup2 (fd f) 1]) = 1"
    using F(2,3) F(4) [of "calls s @ [Openf f O_OUT]"] by simp_all
  have e: "executeInbuild (argument_list ws) (Suc (length us)) E ?t = (Inr (argument_list ws), ?t\<lparr>calls := calls ?t @ echo_calls us\<rparr>)"
    unfolding assms(4) by (rule echo_part [of E ?t us "[''>'', f]", OF F(1)])
  show "outputFileAt (argument_list ws) (length us + 3) (Suc (length us)) 0 E s =
      (Inr (argument_list ws), s\<lparr>calls := calls s @ [Openf f O_OUT, Dup2 (fd f) 1] @ echo_calls us @ [Closefd (fd f), to_terminal]\<rparr>)"
    using o e by (simp add: outputFileAt_def W(5))
  show "exp_outputFileAt (argument_list ws) (length us + 3) (Suc (length us)) 0 E s =
      (Inr (argument_list ws), s\<lparr>calls := calls s @ [Openf f O_OUT, Dup2 (fd f) 1, Closefd (fd f)]\<rparr>)"
    using o by (simp add: exp_outputFileAt_def W(5))
qed

text \<open>C34. The line \<open>echo us > f\<close> in the three versions, on a system on which files open and no child has ended. In \<open>wonder.c\<close>
  the words go to the file, once, and the terminal is back afterwards. In \<open>exp.c\<close> the file gets the words and also
  \<open>>\<close> and the name of the file. In \<open>wonderShell.c\<close> the words go to the file, and then the whole line, \<open>>\<close> and
  the name included, to the terminal.\<close>

theorem redirection_in_three_versions:
  assumes "opens_files E fd" "set us \<inter> set redirects = {}" "f \<notin> set redirects" "length us < 48"
    and "ws = ''echo'' # us @ [''>'', f]"
  shows "wonder_chkFile (argument_list ws) (length ws) E s =
      (Inr (), s\<lparr>calls := calls s @ to_file fd f @ echo_calls us @ [Closefd (fd f), to_terminal]\<rparr>) \<and>
    exp_chkFile (argument_list ws) (length ws) E s =
      (Inr (), s\<lparr>calls := calls s @ to_file fd f @ [Closefd (fd f)] @ echo_calls (us @ [''>'', f]) @ [to_terminal]\<rparr>) \<and>
    chkFile (argument_list ws) (length ws) E s =
      (Inr (), s\<lparr>calls := calls s @ to_file fd f @ echo_calls us @ [Closefd (fd f), to_terminal] @ echo_calls (us @ [''>'', f])\<rparr>)"
proof -
  note W = redirect_words [OF assms(1,2,4,5)] and O = outputs [OF assms(1,2,4,5)] and F = opens_filesD [OF assms(1)]
  have whole: "executeInbuild (argument_list ws) (length us + 3) E t = (Inr (argument_list ws), t\<lparr>calls := calls t @ echo_calls (us @ [''>'', f])\<rparr>)" for t
    using echo_part [of E t "us @ [''>'', f]" "[]", OF F(1)] by (simp add: assms(5) numeral_3_eq_3)
  have nf: "f \<noteq> ''<''" "f \<noteq> ''>''" "f \<noteq> ''>>''" using assms(3) by (auto simp: redirects_def)
  show ?thesis
    unfolding wonder_chkFile_def exp_chkFile_def chkFile_def W(2) chk_words_skip [OF W(1)]
    using nf by (simp add: W(3-5) O whole to_file_def)
qed

definition file_system :: os where
  "file_system = ticking\<lparr>ret := (\<lambda>cs. case last cs of Openf f m \<Rightarrow> 5 | Dup2 d e \<Rightarrow> e | c \<Rightarrow> 0)\<rparr>"

theorem redirection_in_three_versions_witness:
  "calls (snd (exp_chkFile (argument_list [''echo'', ''hi'', ''>'', ''out'']) 4 file_system blank_sh)) =
      [Print ''Redirected to file out!!\<newline>'', Openf ''out'' O_OUT, Dup2 5 1, Closefd 5, Waitpid (- 1) WNOHANG,
       Print ''hi '', Print ''> '', Print ''out '', Print ''\<newline>'', Freopen ''/dev/tty'' ''w''] \<and>
    calls (snd (wonder_chkFile (argument_list [''echo'', ''hi'', ''>'', ''out'']) 4 file_system blank_sh)) =
      [Print ''Redirected to file out!!\<newline>'', Openf ''out'' O_OUT, Dup2 5 1, Waitpid (- 1) WNOHANG,
       Print ''hi '', Print ''\<newline>'', Closefd 5, Freopen ''/dev/tty'' ''w'']"
proof -
  have "opens_files file_system (\<lambda>_. 5)" by (simp add: opens_files_def file_system_def)
  note main = redirection_in_three_versions [OF this, of "[''hi'']" "''out''" "[''echo'', ''hi'', ''>'', ''out'']" blank_sh]
  have len: "length [''echo'', ''hi'', ''>'', ''out''] = 4" and b: "calls blank_sh = []" by (simp_all add: blank_sh_def)
  show ?thesis
    using main [unfolded len] b by (simp add: redirects_def to_file_def echo_calls_def)
qed

end
