(* ===== verification/Spec2Isabelle.thy ===== *)
theory Spec2Isabelle
  imports Grep UserProgs MergeSort Reverse Locks FsInv FileContent DirContent FsTrunc CopyOut Sysproc Lapic Ioapic Booth Badminton FuelStation FirstShell ShVersions
begin

text \<open>
  A verification library for the programs of five operating systems assignments: programs that copy and check a
  reversed file (Assignment1), a command shell in two versions (Assignment2 and Assignment3), three merge sorts and
  three programs with threads (Assignment4), and the files of an xv6 kernel with its user library and user
  programs (Assignment5/xv6-public). The programs
  stand side by side; inside xv6 the user programs rest on the user library, the system calls on files rest on
  pipes and inodes, and all kernel parts rest on the locks.

  \<^bold>\<open>The theories and the code.\<close>
    \<^item> \<open>Prelude\<close>: C integers as words, C strings, 32-bit wrap-around on \<open>int\<close>, kernel panics as the left half of a
      sum, array segments, and the collection of invariant lemmas. The locale \<open>step_system\<close> is the contract of a step
      relation and its reachable states, with the rules for invariants; \<open>exclusive\<close> extends it with a resource that has
      one holder at a time. The runs of \<open>Pipe\<close>, \<open>Booth\<close>, \<open>FuelStation\<close> and \<open>FsInv\<close> interpret the first, both locks and the
      team being formed in \<open>Badminton\<close> the second.
    \<^item> \<open>Reverse\<close>: \<open>task1.c\<close> (blocks read backwards through \<open>lseek\<close>, case inversion) and \<open>task2.c\<close> (the check, and
      the report on permissions). Files are strings, read errors are branches.
    \<^item> \<open>ShBase\<close>, \<open>ShText\<close>, \<open>ShJobs\<close>, \<open>ShCommands\<close>, \<open>ShRun\<close>: Assignment3/wonderShell/\<open>wonderShell.c\<close>. The record
      \<open>sh\<close> holds the global variables and the sequence of system calls made; the parameter \<open>os\<close> answers every call
      as a function of that sequence, so a theorem about all \<open>os\<close> covers every behaviour of the system. A
      process ends by \<open>exit\<close>, by \<open>execvp\<close>, or in \<open>Undef\<close>, which stands for a read or write C leaves undefined.
      \<open>chkInpt\<close> returns a value on one branch only; what \<open>executeCommand\<close> then finds is the answer of \<open>os\<close>, any number.
      \<open>ShTraces\<close> specifies the calls of a line over words and answers alone, without the arrays and variables of the
      code.
    \<^item> \<open>FirstShell\<close>: Assignment2/wonderShell/\<open>wonderShell.c\<close>, the earlier version of the shell, over the same record
      and parameter. \<open>ShVersions\<close>: what differs in \<open>wonder.c\<close> and \<open>exp.c\<close>, two versions kept beside the final one.
    \<^item> \<open>ArraySort\<close>, \<open>MergeSort\<close>: \<open>q3_normal.c\<close>, \<open>q3_forked.c\<close>, \<open>q3_threaded.c\<close>. The locale \<open>merge_routine\<close>
      is the contract of the three merge functions, interpreted for each of them; the threaded program is a
      relation over all interleavings of its threads and all failures of their creation.
    \<^item> \<open>Badminton\<close>: \<open>q1.c\<close>, with the history of meetings that says which teams were formed, \<open>Booth\<close>: \<open>q2.c\<close>, \<open>FuelStation\<close>: \<open>q1_temp.c\<close>. The locked blocks are atomic steps of an inductive relation
      over the state of all threads.
    \<^item> \<open>Ulib\<close>, \<open>Printf\<close>, \<open>Grep\<close>: the user library \<open>ulib.c\<close> over a byte memory, \<open>printf.c\<close>, and \<open>grep.c\<close>.
      \<open>UserProgs\<close>: \<open>echo.c\<close>, \<open>kill.c\<close>, \<open>rm.c\<close>, \<open>zombie.c\<close>, \<open>forktest.c\<close>, \<open>stressfs.c\<close> and \<open>invertcase.c\<close> over the system
      calls they make.
    \<^item> \<open>Locks\<close>: \<open>spinlock.c\<close> and \<open>sleeplock.c\<close>, as code of one CPU and as a step relation over all CPUs.
    \<^item> \<open>Pipe\<close>: \<open>pipe.c\<close>; the locale \<open>bounded_queue\<close> is the contract of the ring buffer, interpreted on the
      counters and the 512 bytes of the pipe. \<open>FileTable\<close>: \<open>file.c\<close> and \<open>pipealloc\<close>, with the locale \<open>inode_store\<close>, the
      contract between open files and the inode layer.
    \<^item> \<open>FsBase\<close> (blocks and the bitmap), \<open>FsInode\<close> (the inode cache and the content of files), \<open>FsDir\<close>
      (directories and paths): \<open>fs.c\<close>. The record \<open>fs\<close> is the disk, the superblock in memory and the inode
      cache; the parameter \<open>env\<close> is the disk as the buffer cache shows it with the constants and layouts of the
      header files that are not in the repository. \<open>FsBitmap\<close> and \<open>FsInv\<close> hold the refinement of the
      allocator and the invariant of the cache; \<open>FsContent\<close> sees an inode as a function from offsets to bytes under the
      invariant \<open>file_ok\<close>, \<open>DirContent\<close> sees a directory as a map from names to inode numbers. \<open>FsTrunc\<close> follows \<open>itrunc\<close>
      through the blocks of a file. \<open>FileContent\<close> runs the
      calls of \<open>file.c\<close> on the inode operations, between \<open>ilock\<close> and \<open>iunlock\<close>, and interprets \<open>inode_store\<close> on them.
    \<^item> \<open>Paging\<close>: \<open>vm.c\<close>, page tables in a byte memory; the parameter \<open>mmu\<close> has the macros of the missing headers and
      the page allocator. \<open>PageWords\<close> and \<open>PageTable\<close> see a page directory as a map from pages to entries
      under the invariant \<open>pt_wf\<close>, \<open>CopyOut\<close> follows \<open>copyout\<close> through it. \<open>Faults\<close> has the operations with panics
      that the file system and the paging code are written in.
    \<^item> \<open>Exec\<close>: \<open>exec.c\<close>, composed of \<open>namei\<close>, \<open>readi\<close> and \<open>iunlockput\<close> of the file system and of the paging code, with the
      file headers of \<open>elf.h\<close>; a successful run is evaluated on a small machine with pages of 32 bytes. \<open>Sysproc\<close>: \<open>sysproc.c\<close>, over what it calls in the missing \<open>proc.c\<close>.
    \<^item> \<open>Devices\<close>, \<open>Lapic\<close>, \<open>Ioapic\<close>: \<open>lapic.c\<close> and \<open>ioapic.c\<close>. The state is the sequence of accesses to ports and
      registers; the parameter \<open>hw\<close> answers every read as a function of that sequence.

  \<^bold>\<open>What the lemmas show.\<close> Functional behaviour: the sorts sort, the copy is the reversed file, \<open>match\<close> decides the
  language of its patterns, \<open>replaceWord\<close> replaces and fits the memory it asks for, \<open>filewrite\<close> splits a write
  into transactions, the clock reading shows one moment. Safety on interleavings: mutual exclusion of both locks, bytes leave a pipe in the order
  they entered, no voter votes twice beyond the one the unguarded test lets through, cars are
  served in the order they came, every badminton team is two players and a referee, a write to one file leaves every other file alone. Refinement: \<open>balloc\<close> and
  \<open>bfree\<close> refine an allocator on the set of free blocks, \<open>readi\<close> taking a segment of a file, \<open>dirlookup\<close> and \<open>dirlink\<close>
  lookup and update of a map, \<open>mappages\<close> the update of the map from pages to entries, \<open>ioapicenable\<close> that of the
  routing of interrupt lines, and both versions of the shell make exactly the system calls that the specification of a
  line of commands makes, the later one twice for each command. A stage of a pipeline reads from the pipe before it and writes to its own.
  Well-formedness: after any calls of the file system no
  inode is cached twice. Errors: \<open>exec\<close> replaces the image of the process or leaves it as it was, and ends every
  transaction it began; after a success page directory, size, entry point, stack pointer and name are those of the
  new file and the CPU runs on the new directory. Round trips: \<open>readi\<close> and \<open>fileread\<close> return what
  \<open>writei\<close> and \<open>filewrite\<close> wrote, through the direct and indirect blocks they allocate, \<open>task2.c\<close> accepts what \<open>task1.c\<close> writes, \<open>atoi\<close> reads what \<open>printf\<close> wrote. The theorems that end in a wrong result state
  behaviour of the code that its comments or messages do not intend.

  \<^bold>\<open>Loops and fuel.\<close> Structural recursion and \<open>function\<close> with a measure wherever the loop ends. A loop over memory
  that may meet no NUL has fuel, with a theorem that enough fuel gives a result. \<open>readi\<close> and \<open>writei\<close> take as
  many rounds as there are bytes, since each moves at least one. The directory loops step through 32-bit
  offsets and end in the fault \<open>Runs_on\<close> when the offset wraps. The loops over pages have a round for each page of
  the range; \<open>mappages_maps\<close> shows that this is enough. The loops of the shell that wait for the system
  (\<open>waitpid\<close>, \<open>clock -t\<close>, \<open>getline\<close> at the end of the input, the main loop) go as many rounds as \<open>rounds\<close> of the
  parameter \<open>os\<close> says and then stop with \<open>Still_waiting\<close>. \<open>replaceWord\<close> has as much fuel as its string is long.
  The loops that wait for a device look at it \<open>spin\<close> times, a number the parameter \<open>hw\<close> gives. \<open>forktest\<close> forks 1000
  times at most, as the code does.

  \<^bold>\<open>Not modelled.\<close> The process table, buffer cache, log and memory allocator of xv6 are not in the repository; they
  are parameters or steps of a relation. What \<open>exp.c\<close>, \<open>exp1.c\<close> and \<open>wonder.c\<close> repeat of
  \<open>wonderShell.c\<close> line by line is not modelled a second time, nor is the renamed copy of \<open>q1_temp.c\<close>. Left out are the
  tutorial and test programs of a few lines, assembly, and build products. Buffering inside \<open>printf\<close> of the C library and the arrival of a signal between
  two arbitrary instructions are not modelled: each output call writes at once, and the signal handlers of the
  shell are operations of their own.
\<close>

end
